(* ===== verification/Kernel_Prelude.thy ===== *)
theory Kernel_Prelude
  imports Main "HOL-Library.Word" "HOL-Library.Monad_Syntax"
begin

text \<open>
  The shared base of the development: the C integer types of \<open>include/stdint.h\<close> as words, array
  accesses that fail outside the array, the counted C loop with its total-correctness rule, and the
  lemmas on words that the component theories use.  A value of type \<open>'a option\<close> is the result of C
  code whose behaviour may be undefined: \<open>None\<close> stands for an access outside an array, a use of a
  pointer that refers to no object, an access through an absent or stale page translation, or (for
  the few unbounded loops) not returning.  A null pointer is the word \<open>0\<close>, as in the code.
\<close>

unbundle bit_operations_syntax

declare Let_def [simp]

named_theorems kernel_defs \<open>definitions of the modelled operations, unfolded together\<close>
named_theorems kernel_frame \<open>which parts of the state an operation leaves alone\<close>

subsection \<open>C integer types\<close>

type_synonym u8 = "8 word"
type_synonym u16 = "16 word"
type_synonym u32 = "32 word"

text \<open>\<open>PAGE_SIZE\<close> of \<open>include/memory/pfa.h\<close>.\<close>

abbreviation (input) PAGE_SIZE :: u32 where "PAGE_SIZE \<equiv> 4096"

subsection \<open>Arrays\<close>

definition arr_get :: "'a list \<Rightarrow> u32 \<Rightarrow> 'a option" where
  "arr_get xs i = (if unat i < length xs then Some (xs ! unat i) else None)"

definition arr_set :: "'a list \<Rightarrow> u32 \<Rightarrow> 'a \<Rightarrow> 'a list option" where
  "arr_set xs i v = (if unat i < length xs then Some (xs[unat i := v]) else None)"

lemma arr_get_Some [simp]: "unat i < length xs \<Longrightarrow> arr_get xs i = Some (xs ! unat i)"
  by (simp add: arr_get_def)

lemma arr_set_Some [simp]: "unat i < length xs \<Longrightarrow> arr_set xs i v = Some (xs[unat i := v])"
  by (simp add: arr_set_def)

lemma arr_get_eq_Some_iff: "arr_get xs i = Some v \<longleftrightarrow> unat i < length xs \<and> v = xs ! unat i"
  by (auto simp: arr_get_def)

lemma arr_set_eq_Some_iff: "arr_set xs i v = Some ys \<longleftrightarrow> unat i < length xs \<and> ys = xs[unat i := v]"
  by (auto simp: arr_set_def)

lemma arr_get_None_iff: "arr_get xs i = None \<longleftrightarrow> length xs \<le> unat i"
  by (auto simp: arr_get_def)

lemmas arr_iffs = arr_get_eq_Some_iff arr_set_eq_Some_iff arr_get_None_iff

subsection \<open>The counted loop\<close>

text \<open>
  \<open>for_range lo hi body s\<close> is the C loop \<^verbatim>\<open>for (i = lo; i < hi; i++) body\<close> whose body changes the
  state \<open>s\<close> and may fail.
\<close>

function for_range :: "nat \<Rightarrow> nat \<Rightarrow> (nat \<Rightarrow> 's \<Rightarrow> 's option) \<Rightarrow> 's \<Rightarrow> 's option" where
  "for_range lo hi body s =
     (if lo < hi then Option.bind (body lo s) (for_range (Suc lo) hi body) else Some s)"
  by pat_completeness auto
termination
  by (relation "measure (\<lambda>(lo, hi, body, s). hi - lo)") auto

declare for_range.simps [simp del]

lemma for_range_done [simp]: "hi \<le> lo \<Longrightarrow> for_range lo hi body s = Some s"
  by (simp add: for_range.simps)

lemma for_range_step:
  "lo < hi \<Longrightarrow> for_range lo hi body s = Option.bind (body lo s) (for_range (Suc lo) hi body)"
  by (simp add: for_range.simps)

text \<open>
  Total correctness: an invariant indexed by the loop counter that every iteration carries one step
  further, without failing, holds of the final state, and the loop does return.
\<close>

lemma for_range_rule:
  assumes "lo \<le> hi" and "P lo s"
    and step: "\<And>i t. lo \<le> i \<Longrightarrow> i < hi \<Longrightarrow> P i t \<Longrightarrow> \<exists>t'. body i t = Some t' \<and> P (Suc i) t'"
  shows "\<exists>s'. for_range lo hi body s = Some s' \<and> P hi s'"
  using assms
proof (induction "hi - lo" arbitrary: lo s)
  case 0
  then show ?case by simp
next
  case (Suc n)
  then have less: "lo < hi" by simp
  with Suc.prems obtain t where t: "body lo s = Some t" "P (Suc lo) t" by blast
  have "\<exists>s'. for_range (Suc lo) hi body t = Some s' \<and> P hi s'"
    using Suc.hyps(2) less t(2) Suc.prems(3) by (intro Suc.hyps(1)) auto
  with less t(1) show ?case by (simp add: for_range_step)
qed

lemma for_range_eqI:
  assumes "lo \<le> hi" and "s = g lo"
    and "\<And>i. lo \<le> i \<Longrightarrow> i < hi \<Longrightarrow> body i (g i) = Some (g (Suc i))"
  shows "for_range lo hi body s = Some (g hi)"
  using for_range_rule [of lo hi "\<lambda>i t. t = g i" s body] assms by auto

text \<open>A property that every iteration keeps holds at the end.\<close>

lemma for_range_preserves:
  assumes "for_range lo hi body s = Some s'" and "P s" and "\<And>i t t'. P t \<Longrightarrow> body i t = Some t' \<Longrightarrow> P t'"
  shows "P s'"
  using assms(1,2)
proof (induction "hi - lo" arbitrary: lo s)
  case 0
  then show ?case by simp
next
  case (Suc n)
  then have "lo < hi" by simp
  with Suc.prems(1) obtain t where t: "body lo s = Some t" "for_range (Suc lo) hi body t = Some s'"
    by (auto simp: for_range_step bind_eq_Some_conv)
  moreover have "n = hi - Suc lo" using Suc.hyps(2) by simp
  ultimately show ?case using Suc.hyps(1) Suc.prems(2) assms(3) by blast
qed

lemma bind_SomeE: "Option.bind x f = Some y \<Longrightarrow> (\<And>a. x = Some a \<Longrightarrow> f a = Some y \<Longrightarrow> P) \<Longrightarrow> P"
  by (cases x) auto

subsection \<open>Words\<close>

lemma div_mod_8_eqD: "(m :: nat) div 8 = n div 8 \<Longrightarrow> m mod 8 = n mod 8 \<Longrightarrow> m = n"
  by (metis div_mult_mod_eq)

lemma unat_less_4096_mult:
  "unat f < 2 ^ 20 \<Longrightarrow> unat (f * 4096 :: u32) = unat f * 4096"
  by (simp add: unat_mult_lem [THEN iffD1])

lemma unat_Suc_less: "i < (n :: u32) \<Longrightarrow> unat (i + 1) = Suc (unat i)"
  by unat_arith

text \<open>Page masks: \<open>& 0xFFFFF000\<close>, and rounding up with \<open>(x + PAGE_SIZE - 1) & ~(PAGE_SIZE - 1)\<close>.\<close>

lemma page_mask: "(w :: u32) AND 0xFFFFF000 = push_bit 12 (drop_bit 12 w)"
proof -
  have m: "(0xFFFFF000 :: u32) = NOT (mask 12)" by (simp add: mask_numeral)
  show ?thesis unfolding m by (rule bit_word_eqI) (auto simp: bit_simps)
qed

lemma minus_4096: "(- 4096 :: u32) = 0xFFFFF000"
  by simp

lemma unat_page_mask: "unat ((w :: u32) AND 0xFFFFF000) = unat w div 4096 * 4096"
proof -
  have a: "unat (drop_bit 12 w) = unat w div 4096"
    by (simp add: drop_bit_eq_div unat_div)
  have "unat w div 4096 * 4096 < 2 ^ 32"
    using unsigned_less [of w, where ?'a = nat] by (simp add: le_less_trans [OF div_times_less_eq_dividend])
  then have "unat (drop_bit 12 w * 4096) = unat w div 4096 * 4096"
    by (subst unat_mult_lem [THEN iffD1]) (simp_all add: a)
  then show ?thesis by (simp add: page_mask push_bit_eq_mult)
qed

lemma unat_page_round_up:
  assumes "unat (x :: u32) + 4095 < 2 ^ 32"
  shows "unat (x + 4095 AND - 4096) = (unat x + 4095) div 4096 * 4096"
proof -
  have "unat (x + 4095) = unat x + 4095"
    using assms by (simp add: unat_add_lem [THEN iffD1])
  with unat_page_mask [of "x + 4095"] show ?thesis unfolding minus_4096 by simp
qed

lemma unat_and_mask: "unat ((w :: u32) AND mask n) = unat w mod 2 ^ n"
  by (simp only: unsigned_take_bit_eq take_bit_eq_mod [of n "unat w"] flip: take_bit_eq_mask)


lemma page_aligned: "unat w mod 4096 = 0 \<Longrightarrow> w AND 0xFFFFF000 = (w :: u32)"
  by (simp add: word_unat_eq_iff unat_page_mask mod_0_imp_dvd)

end
