(* ===== verification/Machine.thy ===== *)
theory Machine
  imports Kernel_Prelude
begin

text \<open>
  The part of the PC the kernel acts on, as the first fields of the kernel state: the bytes written
  to I/O ports by \<open>outb\<close> (\<open>src/io/outb.s\<close>), the lines sent to COM1, the page-directory register and
  the address translations that changed since they were last invalidated.  The state of every
  component extends this record, so that an operation of one component runs unchanged on the state
  of the whole kernel and leaves the fields of the others alone by construction.
\<close>

record machine =
  port_out :: "(u16 \<times> u8) list"
  serial_log :: "string list"
  cr3 :: u32
  stale :: "u32 set"

text \<open>
  \<open>src/io/outb.s\<close>: the byte goes to the port; the trace records it.
\<close>

definition outb :: "u16 \<Rightarrow> u8 \<Rightarrow> 'a machine_scheme \<Rightarrow> 'a machine_scheme" where
  "outb port data s = s\<lparr>port_out := port_out s @ [(port, data)]\<rparr>"

text \<open>
  One line on COM1.  This is the effect of \<open>serial_write\<close> on a working UART, as the callers see it;
  the port-level routine of \<open>src/io/serial_ports.c\<close> and the proof that it has this effect are in the
  theory of the serial port.
\<close>

definition serial_line :: "string \<Rightarrow> 'a machine_scheme \<Rightarrow> 'a machine_scheme" where
  "serial_line msg s = s\<lparr>serial_log := serial_log s @ [msg]\<rparr>"

text \<open>
  The translation cache.  A page-table entry that the kernel changes makes the page it maps stale;
  \<open>invlpg\<close> (\<open>src/memory/paging.c\<close>, 14-17) makes it fresh again, and reloading \<open>cr3\<close> (19-24) makes
  every page fresh.  An access through a stale page has no defined result.
\<close>

definition page_changed :: "u32 \<Rightarrow> 'a machine_scheme \<Rightarrow> 'a machine_scheme" where
  "page_changed vaddr s = s\<lparr>stale := insert (drop_bit 12 vaddr) (stale s)\<rparr>"

definition invlpg :: "u32 \<Rightarrow> 'a machine_scheme \<Rightarrow> 'a machine_scheme" where
  "invlpg addr s = s\<lparr>stale := stale s - {drop_bit 12 addr}\<rparr>"

definition reload_cr3 :: "'a machine_scheme \<Rightarrow> 'a machine_scheme" where
  "reload_cr3 s = s\<lparr>cr3 := cr3 s, stale := {}\<rparr>"

text \<open>\<open>src/process/user_mode.s\<close>, 8-11: load the page directory of another process.\<close>

definition update_cr3 :: "u32 \<Rightarrow> 'a machine_scheme \<Rightarrow> 'a machine_scheme" where
  "update_cr3 pdt_physical s = s\<lparr>cr3 := pdt_physical, stale := {}\<rparr>"

lemmas machine_ops [kernel_defs] =
  outb_def serial_line_def page_changed_def invlpg_def reload_cr3_def update_cr3_def

end
