(* ===== verification/Pfa.thy ===== *)
theory Pfa
  imports Machine
begin

text \<open>
  The page frame allocator, \<open>src/memory/pfa.c\<close>: one bit per 4 KB frame of the first 64 MB, a set bit
  for a frame in use.  The state is the three static variables of the file; the operations are
  \<open>pfa_reserve\<close>, \<open>pfa_init\<close>, \<open>pfa_alloc\<close> and \<open>pfa_free\<close>.  Access to \<open>bitmap\<close> outside its 2048 bytes
  is a failure.  The abstraction is the set \<open>free_frames\<close> of frame numbers; the locale
  \<open>frame_allocator\<close> is what the other components rely on.
\<close>

subsection \<open>The code\<close>

record pfa = machine +
  bitmap :: "u8 list"
  start_frame :: u32
  total_frames :: u32

abbreviation (input) MAX_FRAMES :: u32 where "MAX_FRAMES \<equiv> 16384"

text \<open>\<open>bitmap\<close> is declared with \<open>MAX_FRAMES / 8\<close> bytes; an access past them fails.\<close>

definition bitmap_get :: "u32 \<Rightarrow> 'a pfa_scheme \<Rightarrow> u8 option" where
  "bitmap_get byte s = (if byte < MAX_FRAMES div 8 then arr_get (bitmap s) byte else None)"

definition bitmap_put :: "u32 \<Rightarrow> u8 \<Rightarrow> 'a pfa_scheme \<Rightarrow> 'a pfa_scheme option" where
  "bitmap_put byte v s =
     (if byte < MAX_FRAMES div 8
      then map_option (\<lambda>bm. s\<lparr>bitmap := bm\<rparr>) (arr_set (bitmap s) byte v) else None)"

text \<open>The byte with bit \<open>b\<close> set, cleared and tested: \<^verbatim>\<open>|= (1 << bit)\<close>, \<^verbatim>\<open>&= ~(1 << bit)\<close> and \<^verbatim>\<open>& (1 << bit)\<close>
  with C's promotion to \<open>int\<close> and truncation back to \<open>uint8_t\<close>.\<close>

definition byte_set :: "u8 \<Rightarrow> u32 \<Rightarrow> u8" where
  "byte_set v b = ucast (ucast v OR push_bit (unat b) (1 :: u32))"

definition byte_clear :: "u8 \<Rightarrow> u32 \<Rightarrow> u8" where
  "byte_clear v b = ucast (ucast v AND NOT (push_bit (unat b) (1 :: u32)))"

definition byte_test :: "u8 \<Rightarrow> u32 \<Rightarrow> bool" where
  "byte_test v b \<longleftrightarrow> ucast v AND push_bit (unat b) (1 :: u32) \<noteq> 0"

definition pfa_reserve :: "u32 \<Rightarrow> 'a pfa_scheme \<Rightarrow> 'a pfa_scheme option" where
  "pfa_reserve addr s = do {
     let frame = addr div PAGE_SIZE;
     let byte = frame div 8;
     let b = frame mod 8;
     v \<leftarrow> bitmap_get byte s;
     bitmap_put byte (byte_set v b) s }"

text \<open>The loop of \<open>pfa_init\<close> that marks every frame used.\<close>

definition pfa_fill :: "'a pfa_scheme \<Rightarrow> 'a pfa_scheme option" where
  "pfa_fill = for_range 0 (unat (MAX_FRAMES div 8)) (\<lambda>i. bitmap_put (of_nat i) 0xFF)"

text \<open>The loop of \<open>pfa_init\<close> that frees the valid memory.\<close>

definition pfa_release :: "'a pfa_scheme \<Rightarrow> 'a pfa_scheme option" where
  "pfa_release s = for_range (unat (start_frame s)) (unat (total_frames s)) (\<lambda>n s. do {
     let i = (of_nat n :: u32);
     let byte = i div 8;
     let b = i mod 8;
     v \<leftarrow> bitmap_get byte s;
     bitmap_put byte (byte_clear v b) s }) s"

text \<open>
  The loop that reserves the frames of a module, also written out in \<open>kmain\<close>.  The address cannot
  wrap around: at 64 MB the access to \<open>bitmap\<close> fails.
\<close>

function pfa_reserve_range :: "u32 \<Rightarrow> u32 \<Rightarrow> 'a pfa_scheme \<Rightarrow> 'a pfa_scheme option" where
  "pfa_reserve_range addr mod_end s =
     (if addr < mod_end
      then Option.bind (pfa_reserve addr s) (pfa_reserve_range (addr + PAGE_SIZE) mod_end)
      else Some s)"
  by pat_completeness auto
termination
proof (relation "measure (\<lambda>(addr, mod_end, s). 2 ^ 32 - unat addr)")
  fix addr mod_end :: u32 and s s' :: "'a pfa_scheme"
  assume "addr < mod_end" and "pfa_reserve addr s = Some s'"
  then have "addr div 4096 div 8 < 2048"
    by (auto simp: pfa_reserve_def bitmap_get_def bind_eq_Some_conv split: if_splits)
  then have "unat addr div 4096 div 8 < 2048"
    by (simp add: word_less_nat_alt unat_div)
  then have "unat (addr + 4096) = unat addr + 4096"
    by (subst unat_add_lem [THEN iffD1]) auto
  then show "((addr + PAGE_SIZE, mod_end, s'), addr, mod_end, s)
      \<in> measure (\<lambda>(addr, mod_end, s). 2 ^ 32 - unat addr)"
    using unsigned_less [of "addr + 4096", where ?'a = nat] by simp
qed simp

declare pfa_reserve_range.simps [simp del]

definition pfa_init :: "u32 \<Rightarrow> u32 \<Rightarrow> u32 \<Rightarrow> u32 \<Rightarrow> 'a pfa_scheme \<Rightarrow> 'a pfa_scheme option" where
  "pfa_init mem_start mem_end mod_start mod_end s = do {
     let bitmap_size = MAX_FRAMES div 8;
     let mem_start = (mem_start + PAGE_SIZE - 1) AND NOT (PAGE_SIZE - 1);
     let bitmap_start = mem_start;
     let bitmap_end = bitmap_start + bitmap_size;
     let mem_start = (bitmap_end + PAGE_SIZE - 1) AND NOT (PAGE_SIZE - 1);
     let s = s\<lparr>start_frame := mem_start div PAGE_SIZE, total_frames := mem_end div PAGE_SIZE\<rparr>;
     s \<leftarrow> pfa_fill s;
     s \<leftarrow> pfa_release s;
     if mod_start \<noteq> 0 \<or> mod_end \<noteq> 0 then pfa_reserve_range mod_start mod_end s else Some s }"

function pfa_alloc_loop :: "u32 \<Rightarrow> 'a pfa_scheme \<Rightarrow> (u32 \<times> 'a pfa_scheme) option" where
  "pfa_alloc_loop i s =
     (if i < total_frames s then do {
        let byte = i div 8;
        let b = i mod 8;
        v \<leftarrow> bitmap_get byte s;
        if \<not> byte_test v b then do {
          s \<leftarrow> bitmap_put byte (byte_set v b) s;
          Some (i * PAGE_SIZE, s) }
        else pfa_alloc_loop (i + 1) s }
      else Some (0, s))"
  by pat_completeness auto
termination
  by (relation "measure (\<lambda>(i, s). unat (total_frames s) - unat i)")
     (auto simp: unat_Suc_less word_less_nat_alt)

declare pfa_alloc_loop.simps [simp del]

definition pfa_alloc :: "'a pfa_scheme \<Rightarrow> (u32 \<times> 'a pfa_scheme) option" where
  "pfa_alloc s = pfa_alloc_loop (start_frame s) s"

definition pfa_free :: "u32 \<Rightarrow> 'a pfa_scheme \<Rightarrow> 'a pfa_scheme option" where
  "pfa_free addr s = do {
     let frame = addr div PAGE_SIZE;
     if frame < start_frame s \<or> frame \<ge> total_frames s then Some s
     else do {
       let byte = frame div 8;
       let b = frame mod 8;
       v \<leftarrow> bitmap_get byte s;
       bitmap_put byte (byte_clear v b) s } }"

subsection \<open>The bitmap as a set of frames\<close>

definition used :: "u8 list \<Rightarrow> nat \<Rightarrow> bool" where
  "used bm n \<longleftrightarrow> bit (bm ! (n div 8)) (n mod 8)"

definition bm_mark :: "u8 list \<Rightarrow> nat \<Rightarrow> u8 list" where
  "bm_mark bm n = bm[n div 8 := byte_set (bm ! (n div 8)) (of_nat (n mod 8))]"

definition bm_unmark :: "u8 list \<Rightarrow> nat \<Rightarrow> u8 list" where
  "bm_unmark bm n = bm[n div 8 := byte_clear (bm ! (n div 8)) (of_nat (n mod 8))]"

definition pfa_ok :: "'a pfa_scheme \<Rightarrow> bool" where
  "pfa_ok s \<longleftrightarrow> length (bitmap s) = 2048 \<and> unat (total_frames s) \<le> 16384 \<and> 0 < start_frame s"

definition free_frames :: "'a pfa_scheme \<Rightarrow> nat set" where
  "free_frames s = {n. unat (start_frame s) \<le> n \<and> n < unat (total_frames s) \<and> \<not> used (bitmap s) n}"

lemma bit_byte_set: "unat b < 8 \<Longrightarrow> bit (byte_set v b) j \<longleftrightarrow> j = unat b \<or> bit v j"
  by (auto simp: byte_set_def bit_simps dest: bit_imp_le_length)

lemma bit_byte_clear: "unat b < 8 \<Longrightarrow> bit (byte_clear v b) j \<longleftrightarrow> j \<noteq> unat b \<and> bit v j"
  by (auto simp: byte_clear_def bit_simps dest: bit_imp_le_length)

lemma byte_test_iff: "unat b < 8 \<Longrightarrow> byte_test v b \<longleftrightarrow> bit v (unat b)"
  by (simp add: byte_test_def and_exp_eq_0_iff_not_bit bit_simps)

lemma length_bm [simp]: "length (bm_mark bm n) = length bm" "length (bm_unmark bm n) = length bm"
  by (simp_all add: bm_mark_def bm_unmark_def)

lemma unat_of_nat_mod8 [simp]: "unat (of_nat (n mod 8) :: u32) = n mod 8"
  by (simp add: unat_of_nat)

lemma used_bm_mark:
  "n < 8 * length bm \<Longrightarrow> used (bm_mark bm n) m \<longleftrightarrow> m = n \<or> used bm m"
  by (auto simp: used_def bm_mark_def bit_byte_set nth_list_update dest: div_mod_8_eqD)

lemma used_bm_unmark:
  "n < 8 * length bm \<Longrightarrow> used (bm_unmark bm n) m \<longleftrightarrow> m \<noteq> n \<and> used bm m"
  by (auto simp: used_def bm_unmark_def bit_byte_clear nth_list_update dest: div_mod_8_eqD)

lemma bitmap_eqI:
  assumes "length bm = length bm'" and "\<And>n. n < 8 * length bm \<Longrightarrow> used bm n \<longleftrightarrow> used bm' n"
  shows "bm = bm'"
proof (rule nth_equalityI)
  fix i assume i: "i < length bm"
  have "bit (bm ! i) j \<longleftrightarrow> bit (bm' ! i) j" if "j < 8" for j
    using assms(2) [of "8 * i + j"] i that by (simp add: used_def)
  then show "bm ! i = bm' ! i"
    by (intro bit_word_eqI) simp
qed (rule assms(1))

lemma bm_unmark_mark: "n < 8 * length bm \<Longrightarrow> \<not> used bm n \<Longrightarrow> bm_unmark (bm_mark bm n) n = bm"
  by (rule bitmap_eqI) (auto simp: used_bm_mark used_bm_unmark)

subsection \<open>The operations on the abstraction\<close>

lemma frame_index:
  assumes "unat (i :: u32) < 16384"
  shows "i div 8 < 2048" and "unat (i div 8) = unat i div 8" and "i mod 8 = of_nat (unat i mod 8)"
    and "unat (i mod 8) = unat i mod 8"
  using assms by (simp_all add: word_less_nat_alt unat_div unat_mod word_unat_eq_iff)

lemma bitmap_put_mark:
  assumes "length (bitmap s) = 2048" and "unat (i :: u32) < 16384"
  shows "Option.bind (bitmap_get (i div 8) s) (\<lambda>v. bitmap_put (i div 8) (byte_set v (i mod 8)) s)
           = Some (s\<lparr>bitmap := bm_mark (bitmap s) (unat i)\<rparr>)"
    and "Option.bind (bitmap_get (i div 8) s) (\<lambda>v. bitmap_put (i div 8) (byte_clear v (i mod 8)) s)
           = Some (s\<lparr>bitmap := bm_unmark (bitmap s) (unat i)\<rparr>)"
    and "bitmap_get (i div 8) s = Some (bitmap s ! (unat i div 8))"
    and "byte_test (bitmap s ! (unat i div 8)) (i mod 8) = used (bitmap s) (unat i)"
  using assms frame_index [OF assms(2)]
  by (simp_all add: bitmap_get_def bitmap_put_def bm_mark_def bm_unmark_def byte_test_iff used_def)

lemma pfa_reserve_mark:
  assumes "length (bitmap s) = 2048" and "unat addr < 2 ^ 26"
  shows "pfa_reserve addr s = Some (s\<lparr>bitmap := bm_mark (bitmap s) (unat addr div 4096)\<rparr>)"
proof -
  have "unat (addr div 4096) = unat addr div 4096" by (simp add: unat_div)
  with bitmap_put_mark(1) [OF assms(1), of "addr div 4096"] assms(2) show ?thesis
    by (simp add: pfa_reserve_def)
qed

lemma pfa_free_unmark:
  assumes "pfa_ok s"
  shows "pfa_free addr s = Some (let n = unat addr div 4096 in
     if unat (start_frame s) \<le> n \<and> n < unat (total_frames s)
     then s\<lparr>bitmap := bm_unmark (bitmap s) n\<rparr> else s)"
proof -
  have n: "unat (addr div 4096) = unat addr div 4096" by (simp add: unat_div)
  show ?thesis
    using assms bitmap_put_mark(2) [of s "addr div 4096"] n
    by (auto simp: pfa_free_def pfa_ok_def word_less_nat_alt word_le_nat_alt)
qed

definition free_from :: "nat \<Rightarrow> 'a pfa_scheme \<Rightarrow> nat set" where
  "free_from i s = {n. i \<le> n \<and> n < unat (total_frames s) \<and> \<not> used (bitmap s) n}"

lemma free_from_start: "free_from (unat (start_frame s)) s = free_frames s"
  by (simp add: free_from_def free_frames_def)

lemma finite_free [simp]: "finite (free_from i s)" "finite (free_frames s)"
  by (simp_all add: free_from_def flip: free_from_start)

lemma pfa_alloc_loop_Min:
  assumes "pfa_ok s"
  shows "pfa_alloc_loop i s = (let F = free_from (unat i) s in
      if F = {} then Some (0, s)
      else Some (of_nat (Min F) * 4096, s\<lparr>bitmap := bm_mark (bitmap s) (Min F)\<rparr>))"
  using assms
proof (induction i s rule: pfa_alloc_loop.induct)
  case (1 i s)
  show ?case
  proof (cases "i < total_frames s")
    case False
    then have "free_from (unat i) s = {}"
      by (auto simp: free_from_def word_less_nat_alt)
    with False show ?thesis by (simp add: pfa_alloc_loop.simps [of i s])
  next
    case True
    then have i: "unat i < unat (total_frames s)" "unat i < 16384"
      using "1.prems" by (auto simp: pfa_ok_def word_less_nat_alt)
    note ops = bitmap_put_mark [OF _ i(2), of s]
    show ?thesis
    proof (cases "used (bitmap s) (unat i)")
      case False
      have "Min (free_from (unat i) s) = unat i"
        using i(1) False by (intro Min_eqI) (auto simp: free_from_def)
      moreover have "free_from (unat i) s \<noteq> {}"
        using i(1) False by (auto simp: free_from_def)
      ultimately show ?thesis
        using True False ops "1.prems"
        by (simp add: pfa_alloc_loop.simps [of i s] pfa_ok_def)
    next
      case used: True
      have "free_from (unat i) s = free_from (Suc (unat i)) s"
        using used by (auto simp: free_from_def le_less Suc_le_eq)
      then show ?thesis
        using True used ops "1.prems" "1.IH" unat_Suc_less [OF True]
        by (simp add: pfa_alloc_loop.simps [of i s] pfa_ok_def)
    qed
  qed
qed

lemma pfa_alloc_Min:
  assumes "pfa_ok s"
  shows "pfa_alloc s = (let F = free_frames s in
      if F = {} then Some (0, s)
      else Some (of_nat (Min F) * 4096, s\<lparr>bitmap := bm_mark (bitmap s) (Min F)\<rparr>))"
  using pfa_alloc_loop_Min [OF assms, of "start_frame s"]
  by (simp add: pfa_alloc_def free_from_start)

subsection \<open>Initialisation\<close>

lemma pfa_fill_all:
  assumes "length (bitmap s) = 2048"
  shows "pfa_fill s = Some (s\<lparr>bitmap := replicate 2048 0xFF\<rparr>)"
proof -
  define g where "g i = s\<lparr>bitmap := replicate i 0xFF @ drop i (bitmap s)\<rparr>" for i
  have upd: "(replicate i x @ drop i xs)[i := x] = replicate (Suc i) x @ drop (Suc i) xs"
    if "i < length xs" for i x and xs :: "u8 list"
    using that by (simp add: list_update_append Cons_nth_drop_Suc [symmetric] replicate_append_same
        del: replicate_Suc flip: replicate_Suc)
  have "for_range 0 2048 (\<lambda>i. bitmap_put (of_nat i) 0xFF) s = Some (g 2048)"
    using assms by (intro for_range_eqI [where g = g])
       (simp_all add: g_def bitmap_put_def word_less_nat_alt unat_of_nat upd del: replicate_Suc)
  with assms show ?thesis by (simp add: pfa_fill_def g_def)
qed

lemma used_filled: "n < 16384 \<Longrightarrow> used (replicate 2048 0xFF) n"
proof -
  assume n: "n < 16384"
  have "(0xFF :: u8) = mask 8"
    by (simp add: mask_numeral)
  then have "bit (0xFF :: u8) (n mod 8)"
    by (simp only: bit_mask_iff) simp
  with n show ?thesis by (simp add: used_def)
qed

lemma pfa_release_range:
  assumes "length (bitmap s) = 2048" and "unat (total_frames s) \<le> 16384"
  shows "\<exists>bm. pfa_release s = Some (s\<lparr>bitmap := bm\<rparr>) \<and> length bm = 2048 \<and>
    (\<forall>n. used bm n \<longleftrightarrow> used (bitmap s) n \<and> \<not> (unat (start_frame s) \<le> n \<and> n < unat (total_frames s)))"
proof (cases "unat (start_frame s) \<le> unat (total_frames s)")
  case False
  then show ?thesis using assms by (intro exI [of _ "bitmap s"]) (simp add: pfa_release_def)
next
  case True
  define P where "P i t \<longleftrightarrow> (\<exists>bm. t = s\<lparr>bitmap := bm\<rparr> \<and> length bm = 2048 \<and>
     (\<forall>n. used bm n \<longleftrightarrow> used (bitmap s) n \<and> \<not> (unat (start_frame s) \<le> n \<and> n < i)))" for i t
  have "\<exists>s'. pfa_release s = Some s' \<and> P (unat (total_frames s)) s'"
    unfolding pfa_release_def
  proof (rule for_range_rule)
    show "P (unat (start_frame s)) s"
      unfolding P_def using assms(1) by (intro exI [of _ "bitmap s"]) simp
  next
    fix i t assume i: "unat (start_frame s) \<le> i" "i < unat (total_frames s)" and "P i t"
    then obtain bm where t: "t = s\<lparr>bitmap := bm\<rparr>" "length bm = 2048"
        "\<forall>n. used bm n \<longleftrightarrow> used (bitmap s) n \<and> \<not> (unat (start_frame s) \<le> n \<and> n < i)"
      unfolding P_def by blast
    have u: "unat (of_nat i :: u32) = i" using i(2) assms(2) by (simp add: unat_of_nat)
    have "P (Suc i) (s\<lparr>bitmap := bm_unmark bm i\<rparr>)"
      unfolding P_def using i assms(2) t(2,3)
      by (intro exI [of _ "bm_unmark bm i"]) (auto simp: used_bm_unmark less_Suc_eq)
    then show "\<exists>t'. (let i = of_nat i; byte = i div 8; b = i mod 8
        in Option.bind (bitmap_get byte t) (\<lambda>v. bitmap_put byte (byte_clear v b) t)) = Some t'
         \<and> P (Suc i) t'"
      using bitmap_put_mark(2) [of t "of_nat i"] u t(1,2) i(2) assms(2) by simp
  qed (rule True)
  then show ?thesis unfolding P_def by blast
qed

text \<open>The frames the stepping loop visits, and why they are all the frames of an aligned region.\<close>

definition touched :: "nat \<Rightarrow> nat \<Rightarrow> nat set" where
  "touched a e = {m. \<exists>k. m = a div 4096 + k \<and> a + 4096 * k < e}"

lemma touched_step: "a < e \<Longrightarrow> touched a e = insert (a div 4096) (touched (a + 4096) e)"
proof -
  assume "a < e"
  have "(\<exists>k. m = a div 4096 + k \<and> a + 4096 * k < e) \<longleftrightarrow>
      m = a div 4096 \<or> (\<exists>k. m = a div 4096 + Suc k \<and> a + 4096 * Suc k < e)" for m
    using \<open>a < e\<close> by (metis add.right_neutral mult_0_right not0_implies_Suc)
  moreover have "(a + 4096) div 4096 = Suc (a div 4096)" by simp
  ultimately show ?thesis unfolding touched_def set_eq_iff mem_Collect_eq insert_iff
    by (simp add: add.assoc)
qed

lemma touched_done: "e \<le> a \<Longrightarrow> touched a e = {}"
  by (auto simp: touched_def)

lemma touched_aligned:
  assumes "a mod 4096 = 0"
  shows "touched a e = (\<lambda>x. x div 4096) ` {a..<e}"
proof (intro set_eqI iffI)
  fix m assume "m \<in> touched a e"
  then obtain k where "m = a div 4096 + k" "a + 4096 * k < e" by (auto simp: touched_def)
  then show "m \<in> (\<lambda>x. x div 4096) ` {a..<e}"
    by (intro image_eqI [of _ _ "a + 4096 * k"]) auto
next
  fix m assume "m \<in> (\<lambda>x. x div 4096) ` {a..<e}"
  then obtain x where x: "a \<le> x" "x < e" "m = x div 4096" by auto
  define k where "k = m - a div 4096"
  have "a + 4096 * k = x div 4096 * 4096"
    using assms x unfolding k_def by (auto simp: div_le_mono algebra_simps)
  moreover have "x div 4096 * 4096 \<le> x" by simp
  ultimately show "m \<in> touched a e"
    using x by (auto simp: touched_def intro!: exI [of _ k])
qed

lemma pfa_reserve_range_marks:
  assumes "length (bitmap s) = 2048" and "unat e \<le> 2 ^ 26"
  shows "\<exists>bm. pfa_reserve_range a e s = Some (s\<lparr>bitmap := bm\<rparr>) \<and> length bm = 2048 \<and>
    (\<forall>n. used bm n \<longleftrightarrow> used (bitmap s) n \<or> n \<in> touched (unat a) (unat e))"
  using assms
proof (induction a e s rule: pfa_reserve_range.induct)
  case (1 a e s)
  show ?case
  proof (cases "a < e")
    case False
    with 1 show ?thesis
      by (intro exI [of _ "bitmap s"])
         (simp add: pfa_reserve_range.simps [of a] touched_done word_less_nat_alt)
  next
    case True
    with "1.prems" have lt: "unat a < unat e" "unat a < 2 ^ 26" by (auto simp: word_less_nat_alt)
    then have next_a: "unat (a + 4096) = unat a + 4096" by (subst unat_add_lem [THEN iffD1]) auto
    let ?t = "s\<lparr>bitmap := bm_mark (bitmap s) (unat a div 4096)\<rparr>"
    note res = pfa_reserve_mark [OF "1.prems"(1) lt(2)]
    from "1.IH" [OF True res] "1.prems" obtain bm where
      bm: "pfa_reserve_range (a + 4096) e ?t = Some (?t\<lparr>bitmap := bm\<rparr>)" "length bm = 2048"
        "\<forall>n. used bm n \<longleftrightarrow> used (bitmap ?t) n \<or> n \<in> touched (unat a + 4096) (unat e)"
      by (auto simp: next_a)
    with True res "1.prems" lt show ?thesis
      by (intro exI [of _ bm])
         (auto simp: pfa_reserve_range.simps [of a] touched_step used_bm_mark)
  qed
qed

lemma pfa_init_start:
  assumes "unat mem_start \<le> 2 ^ 26"
  shows "unat (((mem_start + 4095 AND - 4096) + 2048 + 4095 AND - 4096) div 4096 :: u32)
    = Suc ((unat mem_start + 4095) div 4096)"
proof -
  let ?k = "(unat mem_start + 4095) div 4096"
  have a: "unat (mem_start + 4095 AND - 4096) = ?k * 4096"
    using assms by (intro unat_page_round_up) simp
  have k: "?k * 4096 \<le> 2 ^ 26 + 4095"
    using assms le_trans [OF div_times_less_eq_dividend] by simp
  then have b: "unat ((mem_start + 4095 AND - 4096) + 2048) = ?k * 4096 + 2048"
    using a by (subst unat_add_lem [THEN iffD1]) auto
  then have "unat ((mem_start + 4095 AND - 4096) + 2048 + 4095 AND - 4096)
      = (?k * 4096 + 2048 + 4095) div 4096 * 4096"
    using k by (subst unat_page_round_up) simp_all
  then show ?thesis by (simp add: unat_div)
qed

lemma pfa_init_frames:
  assumes "length (bitmap s) = 2048" and "unat mem_start \<le> 2 ^ 26" and "unat mem_end \<le> 2 ^ 26"
    and "unat mod_end \<le> 2 ^ 26"
  shows "\<exists>s'. pfa_init mem_start mem_end mod_start mod_end s = Some s' \<and> pfa_ok s' \<and>
     unat (start_frame s') = Suc ((unat mem_start + 4095) div 4096) \<and>
     unat (total_frames s') = unat mem_end div 4096 \<and>
     free_frames s' = {n. (unat mem_start + 4095) div 4096 < n \<and> n < unat mem_end div 4096} -
       touched (unat mod_start) (unat mod_end)"
proof -
  define S where "S = (((mem_start + 4096 - 1) AND NOT (4096 - 1)) + 16384 div 8 + 4096 - 1
    AND NOT (4096 - 1)) div 4096"
  have "S = ((mem_start + 4095 AND - 4096) + 2048 + 4095 AND - 4096) div 4096"
  proof -
    have "(16384 div 8 :: u32) = 2048" and "NOT (4096 - 1) = (- 4096 :: u32)" by simp_all
    moreover have "x + 4096 - 1 = x + 4095" for x :: u32 by simp
    ultimately show ?thesis unfolding S_def by (simp only:)
  qed
  then have S: "unat S = Suc ((unat mem_start + 4095) div 4096)"
    using pfa_init_start [OF assms(2)] by simp
  have T: "unat (mem_end div 4096) = unat mem_end div 4096" by (simp add: unat_div)
  let ?s0 = "s\<lparr>start_frame := S, total_frames := mem_end div 4096\<rparr>"
  let ?s1 = "?s0\<lparr>bitmap := replicate 2048 0xFF\<rparr>"
  have le: "unat mem_end div 4096 \<le> 16384" using assms(3) by simp
  obtain bm where bm: "pfa_release ?s1 = Some (?s1\<lparr>bitmap := bm\<rparr>)" "length bm = 2048"
    "\<forall>n. used bm n \<longleftrightarrow> used (replicate 2048 0xFF) n \<and> \<not> (unat S \<le> n \<and> n < unat mem_end div 4096)"
    using pfa_release_range [of ?s1] le T by auto
  let ?s2 = "?s1\<lparr>bitmap := bm\<rparr>"
  obtain bm' where bm': "pfa_reserve_range mod_start mod_end ?s2 = Some (?s2\<lparr>bitmap := bm'\<rparr>)"
    "length bm' = 2048" "\<forall>n. used bm' n \<longleftrightarrow> used bm n \<or> n \<in> touched (unat mod_start) (unat mod_end)"
    using pfa_reserve_range_marks [of ?s2 mod_end mod_start] bm(2) assms(4) by auto
  have fill: "pfa_fill ?s0 = Some ?s1"
    using pfa_fill_all [of ?s0] assms(1) by simp
  have init: "pfa_init mem_start mem_end mod_start mod_end s =
      Option.bind (pfa_fill ?s0) (\<lambda>s. Option.bind (pfa_release s) (\<lambda>s.
        if mod_start \<noteq> 0 \<or> mod_end \<noteq> 0 then pfa_reserve_range mod_start mod_end s else Some s))"
    by (simp only: pfa_init_def Let_def S_def)
  have "pfa_init mem_start mem_end mod_start mod_end s = Some (?s2\<lparr>bitmap := bm'\<rparr>)"
  proof (cases "mod_start \<noteq> 0 \<or> mod_end \<noteq> 0")
    case True
    then show ?thesis unfolding init
      using bm(1) bm'(1) fill by simp
  next
    case False
    then have "bm' = bm"
      using bm' bm(2) by (intro bitmap_eqI) (auto simp: touched_def)
    with False show ?thesis unfolding init
      using bm(1) fill by simp
  qed
  moreover have "pfa_ok (?s2\<lparr>bitmap := bm'\<rparr>)"
    using bm'(2) S T le by (simp add: pfa_ok_def word_less_nat_alt)
  moreover have "free_frames (?s2\<lparr>bitmap := bm'\<rparr>) =
      {n. (unat mem_start + 4095) div 4096 < n \<and> n < unat mem_end div 4096} -
       touched (unat mod_start) (unat mod_end)"
  proof -
    have "used bm' n \<longleftrightarrow> n \<in> touched (unat mod_start) (unat mod_end)"
      if "unat S \<le> n" "n < unat mem_end div 4096" for n
      using bm(3) bm'(3) that by simp
    then show ?thesis by (auto simp: free_frames_def T S Suc_le_eq)
  qed
  ultimately show ?thesis using S T by auto
qed

subsection \<open>The interface of a frame allocator\<close>

text \<open>
  What the paging, heap, process and system-call code relies on: allocation hands out an available
  frame and withdraws it, returns 0 exactly when none is left, and releasing a frame that the
  allocator manages makes it available again.  None of the operations fails.
\<close>

primrec alloc_many :: "('s \<Rightarrow> (u32 \<times> 's) option) \<Rightarrow> nat \<Rightarrow> 's \<Rightarrow> (u32 list \<times> 's) option" where
  "alloc_many alloc 0 s = Some ([], s)"
| "alloc_many alloc (Suc n) s = do {
     (f, s) \<leftarrow> alloc s;
     (fs, s) \<leftarrow> alloc_many alloc n s;
     Some (f # fs, s) }"

locale frame_allocator =
  fixes alloc :: "'s \<Rightarrow> (u32 \<times> 's) option"
    and release :: "u32 \<Rightarrow> 's \<Rightarrow> 's option"
    and managed :: "'s \<Rightarrow> u32 set"
    and avail :: "'s \<Rightarrow> u32 set"
    and inv :: "'s \<Rightarrow> bool"
  assumes avail_managed: "inv s \<Longrightarrow> avail s \<subseteq> managed s"
    and managed_frame: "inv s \<Longrightarrow> f \<in> managed s \<Longrightarrow> f \<noteq> 0 \<and> unat f mod 4096 = 0"
    and finite_managed: "finite (managed s)"
    and alloc_avail: "inv s \<Longrightarrow> avail s \<noteq> {} \<Longrightarrow>
      \<exists>f s'. alloc s = Some (f, s') \<and> inv s' \<and> f \<in> avail s \<and> avail s' = avail s - {f} \<and> managed s' = managed s"
    and alloc_exhausted: "inv s \<Longrightarrow> avail s = {} \<Longrightarrow> alloc s = Some (0, s)"
    and release_avail: "inv s \<Longrightarrow> f \<in> managed s \<Longrightarrow>
      \<exists>s'. release f s = Some s' \<and> inv s' \<and> avail s' = insert f (avail s) \<and> managed s' = managed s"
begin

lemma alloc_cases:
  assumes "inv s"
  obtains "alloc s = Some (0, s)" "avail s = {}"
  | f s' where "alloc s = Some (f, s')" "f \<in> avail s" "f \<noteq> 0" "unat f mod 4096 = 0" "inv s'"
      "avail s' = avail s - {f}" "managed s' = managed s"
proof (cases "avail s = {}")
  case True
  with alloc_exhausted [OF assms] that(1) show thesis by blast
next
  case False
  then obtain f s' where s': "alloc s = Some (f, s')" "inv s'" "f \<in> avail s"
      "avail s' = avail s - {f}" "managed s' = managed s"
    using alloc_avail [OF assms] by blast
  have f: "f \<noteq> 0" "unat f mod 4096 = 0"
    using s'(3) avail_managed [OF assms] managed_frame [OF assms, of f] by auto
  show thesis by (rule that(2) [OF s'(1,3) f s'(2,4,5)])
qed

lemma alloc_many_distinct:
  assumes "inv s" and "n \<le> card (avail s)"
  shows "\<exists>fs s'. alloc_many alloc n s = Some (fs, s') \<and> inv s' \<and> length fs = n \<and> distinct fs \<and>
    set fs \<subseteq> avail s \<and> avail s' = avail s - set fs"
  using assms
proof (induction n arbitrary: s)
  case 0
  then show ?case by simp
next
  case (Suc n)
  have fin: "finite (avail s)"
    using Suc.prems(1) avail_managed finite_managed finite_subset by blast
  from Suc.prems have "avail s \<noteq> {}" by auto
  then obtain f t where t: "alloc s = Some (f, t)" "inv t" "f \<in> avail s" "avail t = avail s - {f}"
    using alloc_avail [OF Suc.prems(1)] by blast
  have "n \<le> card (avail t)" using Suc.prems(2) t(3,4) fin by simp
  with Suc.IH [OF t(2)] obtain fs u where u: "alloc_many alloc n t = Some (fs, u)" "inv u" "length fs = n"
    "distinct fs" "set fs \<subseteq> avail t" "avail u = avail t - set fs" by blast
  with t show ?case by auto
qed

end

definition managed_frames :: "'a pfa_scheme \<Rightarrow> u32 set" where
  "managed_frames s = (\<lambda>n. of_nat n * 4096) ` {unat (start_frame s)..<unat (total_frames s)}"

definition avail_frames :: "'a pfa_scheme \<Rightarrow> u32 set" where
  "avail_frames s = (\<lambda>n. of_nat n * 4096) ` free_frames s"

lemma unat_frame_addr: "n < 16384 \<Longrightarrow> unat (of_nat n * 4096 :: u32) = n * 4096"
  by (subst unat_less_4096_mult) (simp_all add: unat_of_nat)

lemma frame_addr_inj: "inj_on (\<lambda>n. of_nat n * 4096 :: u32) {..<16384}"
  by (rule inj_onI) (metis lessThan_iff mult_cancel2 unat_frame_addr zero_neq_numeral)

interpretation frames: frame_allocator pfa_alloc pfa_free managed_frames avail_frames pfa_ok
proof
  fix s :: "'a pfa_scheme" and f :: u32
  assume ok: "pfa_ok s"
  have lt: "n < 16384" if "n < unat (total_frames s)" for n
    using ok that by (simp add: pfa_ok_def)
  show "avail_frames s \<subseteq> managed_frames s"
    by (auto simp: avail_frames_def managed_frames_def free_frames_def)
  show "f \<noteq> 0 \<and> unat f mod 4096 = 0" if f: "f \<in> managed_frames s"
  proof -
    from f obtain n where n: "f = of_nat n * 4096" "unat (start_frame s) \<le> n" "n < unat (total_frames s)"
      by (auto simp: managed_frames_def)
    have "0 < n" using ok n(2) by (simp add: pfa_ok_def word_less_nat_alt)
    with unat_frame_addr [OF lt [OF n(3)]] show ?thesis by (auto simp: n(1))
  qed
  show "\<exists>f s'. pfa_alloc s = Some (f, s') \<and> pfa_ok s' \<and> f \<in> avail_frames s \<and>
      avail_frames s' = avail_frames s - {f} \<and> managed_frames s' = managed_frames s"
    if "avail_frames s \<noteq> {}"
  proof -
    let ?m = "Min (free_frames s)" and ?s = "s\<lparr>bitmap := bm_mark (bitmap s) (Min (free_frames s))\<rparr>"
    have ne: "free_frames s \<noteq> {}" using that by (simp add: avail_frames_def)
    then have m: "?m \<in> free_frames s" by (intro Min_in) simp_all
    then have "?m < 16384" by (auto simp: free_frames_def intro: lt)
    then have free: "free_frames ?s = free_frames s - {?m}"
      using ok by (auto simp: free_frames_def used_bm_mark pfa_ok_def)
    have "free_frames s \<subseteq> {..<16384}" by (auto simp: free_frames_def intro: lt)
    then have "avail_frames ?s = avail_frames s - {of_nat ?m * 4096}"
      using inj_on_image_set_diff [OF frame_addr_inj, of "free_frames s" "{?m}"] m
      by (auto simp: avail_frames_def free)
    with ne m show ?thesis
      using pfa_alloc_Min [OF ok] ok
      by (auto simp: avail_frames_def managed_frames_def pfa_ok_def)
  qed
  show "pfa_alloc s = Some (0, s)" if "avail_frames s = {}"
    using pfa_alloc_Min [OF ok] that by (simp add: avail_frames_def)
  show "\<exists>s'. pfa_free f s = Some s' \<and> pfa_ok s' \<and> avail_frames s' = insert f (avail_frames s) \<and>
      managed_frames s' = managed_frames s" if "f \<in> managed_frames s"
  proof -
    from that obtain n where n: "f = of_nat n * 4096" "unat (start_frame s) \<le> n" "n < unat (total_frames s)"
      by (auto simp: managed_frames_def)
    have "unat f div 4096 = n" using unat_frame_addr [OF lt [OF n(3)]] n(1) by simp
    moreover have "free_frames (s\<lparr>bitmap := bm_unmark (bitmap s) n\<rparr>) = insert n (free_frames s)"
      using ok n lt [OF n(3)] by (auto simp: free_frames_def used_bm_unmark pfa_ok_def)
    ultimately show ?thesis
      using pfa_free_unmark [OF ok, of f] n ok by (auto simp: avail_frames_def managed_frames_def pfa_ok_def)
  qed
qed (simp add: managed_frames_def)

lemma pfa_alloc_cases:
  assumes "pfa_ok s"
  obtains "pfa_alloc s = Some (0, s)" "avail_frames s = {}"
  | f bm where "pfa_alloc s = Some (f, s\<lparr>bitmap := bm\<rparr>)" "f \<in> avail_frames s" "f \<noteq> 0"
      "unat f mod 4096 = 0" "pfa_ok (s\<lparr>bitmap := bm\<rparr>)"
      "avail_frames (s\<lparr>bitmap := bm\<rparr>) = avail_frames s - {f}"
      "managed_frames (s\<lparr>bitmap := bm\<rparr>) = managed_frames s"
proof (rule frames.alloc_cases [OF assms])
  assume "pfa_alloc s = Some (0, s)" "avail_frames s = {}"
  then show thesis by (rule that(1))
next
  fix f s' assume a: "pfa_alloc s = Some (f, s')" "f \<in> avail_frames s" "f \<noteq> 0" "unat f mod 4096 = 0"
    "pfa_ok s'" "avail_frames s' = avail_frames s - {f}" "managed_frames s' = managed_frames s"
  then obtain bm where s': "s' = s\<lparr>bitmap := bm\<rparr>"
    using pfa_alloc_Min [OF assms] by (auto split: if_splits)
  show thesis by (rule that(2) [OF a [unfolded s']])
qed

subsection \<open>Properties\<close>

definition sample_pfa :: pfa where
  "sample_pfa = \<lparr>port_out = [], serial_log = [], cr3 = 0, stale = {},
     bitmap = replicate 2048 0, start_frame = 1, total_frames = 16\<rparr>"

lemma sample_pfa_facts: "pfa_ok sample_pfa" "free_frames sample_pfa = {1..<16}"
  by (auto simp: sample_pfa_def pfa_ok_def free_frames_def used_def)

lemma card_avail_frames: "pfa_ok s \<Longrightarrow> card (avail_frames s) = card (free_frames s)"
  unfolding avail_frames_def
  by (rule card_image, rule inj_on_subset [OF frame_addr_inj]) (auto simp: free_frames_def pfa_ok_def)

text \<open>
  C16.  \<open>pfa_alloc\<close> never leaves the bitmap.  When no frame is free it returns 0 and changes nothing;
  otherwise it returns the address of the lowest free frame, which is not 0, and that frame is the
  only one that stops being free.
\<close>

theorem pfa_alloc_lowest_free:
  assumes "pfa_ok s"
  shows "\<exists>f s'. pfa_alloc s = Some (f, s') \<and> pfa_ok s' \<and>
    (if free_frames s = {} then f = 0 \<and> s' = s
     else unat f = 4096 * Min (free_frames s) \<and> f \<noteq> 0 \<and>
       free_frames s' = free_frames s - {Min (free_frames s)})"
proof (cases "free_frames s = {}")
  case True
  then show ?thesis using pfa_alloc_Min [OF assms] assms by simp
next
  case False
  let ?m = "Min (free_frames s)"
  have "?m \<in> free_frames s" using False by (intro Min_in) simp_all
  then have m: "?m < 16384" "0 < ?m"
    using assms by (auto simp: free_frames_def pfa_ok_def word_less_nat_alt)
  then have u: "unat (of_nat ?m * 4096 :: u32) = ?m * 4096" by (intro unat_frame_addr)
  then have "of_nat ?m * 4096 \<noteq> (0 :: u32)" using m(2) by (metis mult_is_0 not_gr_zero unat_0 zero_neq_numeral)
  moreover have "free_frames (s\<lparr>bitmap := bm_mark (bitmap s) ?m\<rparr>) = free_frames s - {?m}"
    using m(1) assms by (auto simp: free_frames_def used_bm_mark pfa_ok_def)
  ultimately show ?thesis
    using pfa_alloc_Min [OF assms] False assms u by (simp add: pfa_ok_def)
qed

theorem pfa_alloc_lowest_free_witness:
  "pfa_ok sample_pfa \<and> (\<exists>f s'. pfa_alloc sample_pfa = Some (f, s') \<and> pfa_ok s' \<and> unat f = 4096 \<and>
     free_frames s' = {2..<16})"
proof -
  have m: "Min {1..<16} = (1 :: nat)" by (rule Min_eqI) auto
  have d: "{1..<16} - {1} = {2..<16 :: nat}" and ne: "{1..<16 :: nat} \<noteq> {}" by auto
  show ?thesis
    using pfa_alloc_lowest_free [OF sample_pfa_facts(1)] ne
    unfolding sample_pfa_facts(2) m d using sample_pfa_facts(1) by auto
qed

text \<open>
  Releasing the frame just allocated restores the allocator to the state it was in, bit for bit.
\<close>

theorem pfa_alloc_free_roundtrip:
  assumes "pfa_ok s" and "free_frames s \<noteq> {}"
  shows "\<exists>f s'. pfa_alloc s = Some (f, s') \<and> s' \<noteq> s \<and> pfa_free f s' = Some s"
proof -
  let ?m = "Min (free_frames s)" and ?s = "s\<lparr>bitmap := bm_mark (bitmap s) (Min (free_frames s))\<rparr>"
  have "?m \<in> free_frames s" using assms(2) by (intro Min_in) simp_all
  then have m: "?m < 16384" "unat (start_frame s) \<le> ?m" "?m < unat (total_frames s)" "\<not> used (bitmap s) ?m"
    using assms by (auto simp: free_frames_def pfa_ok_def)
  have len: "?m < 8 * length (bitmap s)" using assms(1) m(1) by (simp add: pfa_ok_def)
  have "pfa_ok ?s" using assms(1) by (simp add: pfa_ok_def)
  then have "pfa_free (of_nat ?m * 4096) ?s = Some (?s\<lparr>bitmap := bm_unmark (bitmap ?s) ?m\<rparr>)"
    using pfa_free_unmark [of ?s "of_nat ?m * 4096"] unat_frame_addr [OF m(1)] m(2,3) by simp
  then have "pfa_free (of_nat ?m * 4096) ?s = Some s"
    using bm_unmark_mark [OF len m(4)] by simp
  moreover have "?s \<noteq> s"
  proof
    assume "?s = s"
    then have "bm_mark (bitmap s) ?m = bitmap s" by (metis pfa.select_convs(1) pfa.surjective pfa.update_convs(1))
    with used_bm_mark [OF len, of ?m] m(4) show False by simp
  qed
  ultimately show ?thesis using pfa_alloc_Min [OF assms(1)] assms(2) by auto
qed

theorem pfa_alloc_free_roundtrip_witness:
  "pfa_ok sample_pfa \<and> free_frames sample_pfa \<noteq> {} \<and>
   (\<exists>f s'. pfa_alloc sample_pfa = Some (f, s') \<and> s' \<noteq> sample_pfa \<and> pfa_free f s' = Some sample_pfa)"
proof -
  have ne: "free_frames sample_pfa \<noteq> {}" by (simp add: sample_pfa_facts)
  show ?thesis using pfa_alloc_free_roundtrip [OF sample_pfa_facts(1) ne] ne sample_pfa_facts(1) by blast
qed

text \<open>
  C32.  A run of \<open>n\<close> allocations with enough memory left returns \<open>n\<close> different frames, none of them 0:
  no frame is handed out twice.
\<close>

theorem pfa_alloc_no_double_use:
  assumes "pfa_ok s" and "n \<le> card (free_frames s)"
  shows "\<exists>fs s'. alloc_many pfa_alloc n s = Some (fs, s') \<and> length fs = n \<and> distinct fs \<and>
    0 \<notin> set fs \<and> set fs \<subseteq> avail_frames s \<and> avail_frames s' = avail_frames s - set fs"
proof -
  from frames.alloc_many_distinct [OF assms(1), of n] assms
  obtain fs s' where "alloc_many pfa_alloc n s = Some (fs, s')" "length fs = n" "distinct fs"
    "set fs \<subseteq> avail_frames s" "avail_frames s' = avail_frames s - set fs"
    by (auto simp: card_avail_frames)
  moreover have "0 \<notin> avail_frames s"
    using frames.avail_managed [OF assms(1)] frames.managed_frame [OF assms(1)] by blast
  ultimately show ?thesis by blast
qed

theorem pfa_alloc_no_double_use_witness:
  "3 \<le> card (free_frames sample_pfa) \<and> (\<exists>fs s'. alloc_many pfa_alloc 3 sample_pfa = Some (fs, s') \<and>
     length fs = 3 \<and> distinct fs \<and> 0 \<notin> set fs)"
proof -
  have c: "3 \<le> card (free_frames sample_pfa)" by (simp add: sample_pfa_facts)
  from pfa_alloc_no_double_use [OF sample_pfa_facts(1) c] c show ?thesis by blast
qed

text \<open>
  \<open>pfa_free\<close> makes exactly the given frame free when it lies in the managed range, and ignores
  every other address, frame 0 and the kernel image included.
\<close>

theorem pfa_free_effect:
  assumes "pfa_ok s"
  shows "\<exists>s'. pfa_free addr s = Some s' \<and> pfa_ok s' \<and> free_frames s' =
    (let n = unat addr div 4096 in
     if unat (start_frame s) \<le> n \<and> n < unat (total_frames s) then insert n (free_frames s)
     else free_frames s)"
  using assms pfa_free_unmark [OF assms, of addr]
  by (auto simp: free_frames_def used_bm_unmark pfa_ok_def)

theorem pfa_free_effect_witness:
  "pfa_ok sample_pfa \<and> (\<exists>s'. pfa_free 0 sample_pfa = Some s' \<and> free_frames s' = {1..<16})"
  using pfa_free_effect [OF sample_pfa_facts(1), of 0] sample_pfa_facts by (auto simp: sample_pfa_def)

text \<open>
  C31.  After \<open>pfa_init\<close> on at most 64 MB with a page-aligned module (the alignment that the
  multiboot header asks GRUB for), the frames that can be allocated are exactly those above the
  kernel and the page set aside after it, below the end of memory, that hold no byte of the module.
\<close>

theorem pfa_init_free_frames:
  assumes "length (bitmap s) = 2048" and "unat mem_start \<le> 2 ^ 26" and "unat mem_end \<le> 2 ^ 26"
    and "unat mod_end \<le> 2 ^ 26" and "unat mod_start mod 4096 = 0"
  shows "\<exists>s'. pfa_init mem_start mem_end mod_start mod_end s = Some s' \<and> pfa_ok s' \<and>
    free_frames s' = {n. (unat mem_start + 4095) div 4096 < n \<and> n < unat mem_end div 4096 \<and>
      (\<forall>x. unat mod_start \<le> x \<and> x < unat mod_end \<longrightarrow> x div 4096 \<noteq> n)}"
proof -
  have "n \<in> touched (unat mod_start) (unat mod_end) \<longleftrightarrow>
      \<not> (\<forall>x. unat mod_start \<le> x \<and> x < unat mod_end \<longrightarrow> x div 4096 \<noteq> n)" for n
    unfolding touched_aligned [OF assms(5)] image_iff by (metis atLeastLessThan_iff)
  then have "{n. A < n \<and> n < B} - touched (unat mod_start) (unat mod_end) = {n. A < n \<and> n < B \<and>
      (\<forall>x. unat mod_start \<le> x \<and> x < unat mod_end \<longrightarrow> x div 4096 \<noteq> n)}" for A B
    unfolding set_eq_iff Diff_iff mem_Collect_eq by blast
  with pfa_init_frames [OF assms(1-4), of mod_start] show ?thesis by auto
qed

theorem pfa_init_free_frames_witness:
  "\<exists>s'. pfa_init 0x108000 0x4000000 0x110000 0x111000 sample_pfa = Some s' \<and> pfa_ok s' \<and>
     free_frames s' = {n. 264 < n \<and> n < 16384 \<and> (\<forall>x. 0x110000 \<le> x \<and> x < 0x111000 \<longrightarrow> x div 4096 \<noteq> n)}"
  using pfa_init_free_frames [of sample_pfa "0x108000" "0x4000000" "0x111000" "0x110000"]
  by (simp add: sample_pfa_def)

end
