(* ===== verification/Paging.thy ===== *)
theory Paging
  imports Pfa
begin

text \<open>
  Kernel paging, \<open>src/memory/paging.c\<close>: the page directory of \<open>loader.s\<close>, the kernel's page table for
  the 4 MB at \<open>0xC0000000\<close>, and the window at \<open>0xC03FF000\<close> through which the kernel reaches any
  physical frame.  Physical memory is a function from the address of a frame and an offset in it to
  a byte.  An access through the window is defined only while entry 1023 of the kernel page table
  is present and the window's translation is not stale.
\<close>

subsection \<open>Physical memory and its 32-bit view\<close>

type_synonym page = "u32 \<Rightarrow> u8"

definition get32 :: "page \<Rightarrow> u32 \<Rightarrow> u32" where
  "get32 pg off = ucast (pg off) OR push_bit 8 (ucast (pg (off + 1)))
     OR push_bit 16 (ucast (pg (off + 2))) OR push_bit 24 (ucast (pg (off + 3)))"

definition put32 :: "page \<Rightarrow> u32 \<Rightarrow> u32 \<Rightarrow> page" where
  "put32 pg off v = pg(off := ucast v, off + 1 := ucast (drop_bit 8 v),
     off + 2 := ucast (drop_bit 16 v), off + 3 := ucast (drop_bit 24 v))"

subsection \<open>The code\<close>

record paging = pfa +
  page_directory :: "u32 list"
  kernel_page_table :: "u32 list"
  pmem :: "u32 \<Rightarrow> page"

abbreviation (input) PTE_PRESENT :: u32 where "PTE_PRESENT \<equiv> 1"
abbreviation (input) PTE_WRITABLE :: u32 where "PTE_WRITABLE \<equiv> 2"
abbreviation (input) PTE_USER :: u32 where "PTE_USER \<equiv> 4"
abbreviation (input) KERNEL_PD_INDEX :: u32 where "KERNEL_PD_INDEX \<equiv> 768"
abbreviation (input) TEMP_PT_INDEX :: u32 where "TEMP_PT_INDEX \<equiv> 1023"
abbreviation (input) TEMP_MAP_VADDR :: u32 where "TEMP_MAP_VADDR \<equiv> 0xC03FF000"

text \<open>
  An assignment to an entry of the kernel page table.  Only a translation that was present can be
  in the translation cache, so only then does the page become stale.
\<close>

definition kpt_write :: "u32 \<Rightarrow> u32 \<Rightarrow> 'a paging_scheme \<Rightarrow> 'a paging_scheme option" where
  "kpt_write i v s = do {
     old \<leftarrow> arr_get (kernel_page_table s) i;
     kpt \<leftarrow> arr_set (kernel_page_table s) i v;
     let s = s\<lparr>kernel_page_table := kpt\<rparr>;
     Some (if old AND PTE_PRESENT \<noteq> 0 then page_changed (0xC0000000 + push_bit 12 i) s else s) }"

definition paging_init :: "u32 \<Rightarrow> u32 \<Rightarrow> 'a paging_scheme \<Rightarrow> 'a paging_scheme option" where
  "paging_init kp_end kpt_vaddr s = do {
     let mapped_frames = (kp_end + PAGE_SIZE - 1) div PAGE_SIZE;
     s \<leftarrow> for_range 0 (min (unat mapped_frames) (unat TEMP_PT_INDEX)) (\<lambda>i.
            kpt_write (of_nat i) ((of_nat i * PAGE_SIZE) OR PTE_PRESENT OR PTE_WRITABLE)) s;
     s \<leftarrow> for_range (unat mapped_frames) (unat TEMP_PT_INDEX) (\<lambda>i. kpt_write (of_nat i) 0) s;
     s \<leftarrow> kpt_write TEMP_PT_INDEX 0 s;
     let pt_phys = kpt_vaddr - 0xC0000000;
     pd \<leftarrow> arr_set (page_directory s) KERNEL_PD_INDEX (pt_phys OR PTE_PRESENT OR PTE_WRITABLE);
     Some (reload_cr3 (s\<lparr>page_directory := pd\<rparr>)) }"

definition paging_temp_map :: "u32 \<Rightarrow> 'a paging_scheme \<Rightarrow> 'a paging_scheme option" where
  "paging_temp_map paddr s = do {
     s \<leftarrow> kpt_write TEMP_PT_INDEX ((paddr AND 0xFFFFF000) OR PTE_PRESENT OR PTE_WRITABLE) s;
     Some (invlpg TEMP_MAP_VADDR s) }"

definition paging_temp_unmap :: "'a paging_scheme \<Rightarrow> 'a paging_scheme option" where
  "paging_temp_unmap s = do {
     s \<leftarrow> kpt_write TEMP_PT_INDEX 0 s;
     Some (invlpg TEMP_MAP_VADDR s) }"

text \<open>
  Accesses through the pointer that \<open>paging_temp_map\<close> returns: \<open>p[i]\<close> on a \<open>uint8_t *\<close> and on a
  \<open>uint32_t *\<close>.  The window is a page of the kernel's page table; that the directory in \<open>cr3\<close> leads to this
  table is not looked up at each access, but kept as \<open>kernel_mapped\<close> (\<open>Kernel_Run\<close>).
\<close>

definition window :: "'a paging_scheme \<Rightarrow> u32 option" where
  "window s = do {
     pte \<leftarrow> arr_get (kernel_page_table s) TEMP_PT_INDEX;
     if pte AND PTE_PRESENT \<noteq> 0 \<and> drop_bit 12 TEMP_MAP_VADDR \<notin> stale s
     then Some (pte AND 0xFFFFF000) else None }"

definition win_read8 :: "u32 \<Rightarrow> 'a paging_scheme \<Rightarrow> u8 option" where
  "win_read8 i s = (if i < PAGE_SIZE then map_option (\<lambda>f. pmem s f i) (window s) else None)"

definition win_write8 :: "u32 \<Rightarrow> u8 \<Rightarrow> 'a paging_scheme \<Rightarrow> 'a paging_scheme option" where
  "win_write8 i v s = (if i < PAGE_SIZE
     then map_option (\<lambda>f. s\<lparr>pmem := (pmem s)(f := (pmem s f)(i := v))\<rparr>) (window s) else None)"

definition win_read32 :: "u32 \<Rightarrow> 'a paging_scheme \<Rightarrow> u32 option" where
  "win_read32 i s = (if i < 1024 then map_option (\<lambda>f. get32 (pmem s f) (4 * i)) (window s) else None)"

definition win_write32 :: "u32 \<Rightarrow> u32 \<Rightarrow> 'a paging_scheme \<Rightarrow> 'a paging_scheme option" where
  "win_write32 i v s = (if i < 1024
     then map_option (\<lambda>f. s\<lparr>pmem := (pmem s)(f := put32 (pmem s f) (4 * i) v)\<rparr>) (window s) else None)"

text \<open>The two loops that clear a mapped frame, as 1024 words (\<open>paging.c\<close>, 79-80) and as 4096 bytes.\<close>

definition win_zero32 :: "'a paging_scheme \<Rightarrow> 'a paging_scheme option" where
  "win_zero32 = for_range 0 1024 (\<lambda>i. win_write32 (of_nat i) 0)"

definition win_zero8 :: "'a paging_scheme \<Rightarrow> 'a paging_scheme option" where
  "win_zero8 = for_range 0 4096 (\<lambda>i. win_write8 (of_nat i) 0)"

definition paging_map_page :: "u32 \<Rightarrow> u32 \<Rightarrow> u32 \<Rightarrow> 'a paging_scheme \<Rightarrow> 'a paging_scheme option" where
  "paging_map_page vaddr paddr flags s = do {
     let pd_index = drop_bit 22 vaddr;
     let pt_index = drop_bit 12 vaddr AND 0x3FF;
     if pd_index = KERNEL_PD_INDEX then do {
       s \<leftarrow> kpt_write pt_index ((paddr AND 0xFFFFF000) OR flags) s;
       Some (invlpg vaddr s) }
     else do {
       pde \<leftarrow> arr_get (page_directory s) pd_index;
       if pde AND PTE_PRESENT = 0 then do {
         (pt_frame, s) \<leftarrow> pfa_alloc s;
         if pt_frame = 0 then Some s
         else do {
           s \<leftarrow> paging_temp_map pt_frame s;
           s \<leftarrow> win_zero32 s;
           s \<leftarrow> win_write32 pt_index ((paddr AND 0xFFFFF000) OR flags) s;
           s \<leftarrow> paging_temp_unmap s;
           pd \<leftarrow> arr_set (page_directory s) pd_index (pt_frame OR PTE_PRESENT OR PTE_WRITABLE);
           Some (invlpg vaddr (s\<lparr>page_directory := pd\<rparr>)) } }
       else do {
         let pt_phys = pde AND 0xFFFFF000;
         s \<leftarrow> paging_temp_map pt_phys s;
         s \<leftarrow> win_write32 pt_index ((paddr AND 0xFFFFF000) OR flags) s;
         s \<leftarrow> paging_temp_unmap s;
         Some (invlpg vaddr s) } } }"

definition paging_unmap_page :: "u32 \<Rightarrow> 'a paging_scheme \<Rightarrow> 'a paging_scheme option" where
  "paging_unmap_page vaddr s = do {
     let pd_index = drop_bit 22 vaddr;
     let pt_index = drop_bit 12 vaddr AND 0x3FF;
     if pd_index = KERNEL_PD_INDEX then do {
       s \<leftarrow> kpt_write pt_index 0 s;
       Some (invlpg vaddr s) }
     else Some s }"

subsection \<open>Words of a page, and the window\<close>

lemma get32_put32: "get32 (put32 pg off v) off = v"
proof (rule bit_word_eqI)
  fix n :: nat assume "n < LENGTH(32)"
  then consider "n < 8" | "8 \<le> n" "n < 16" | "16 \<le> n" "n < 24" | "24 \<le> n" "n < 32" by force
  then show "bit (get32 (put32 pg off v) off) n = bit v n"
    by cases (auto simp: get32_def put32_def bit_simps dest: bit_imp_le_length)
qed

lemma get32_cong:
  "pg off = pg' off \<Longrightarrow> pg (off + 1) = pg' (off + 1) \<Longrightarrow> pg (off + 2) = pg' (off + 2) \<Longrightarrow>
   pg (off + 3) = pg' (off + 3) \<Longrightarrow> get32 pg off = get32 pg' off"
  by (simp add: get32_def)

lemma unat_word_off:
  assumes "i < (1024 :: u32)" and "b < 4"
  shows "unat (4 * i + b) = 4 * unat i + unat b"
proof -
  have lt: "unat i < 1024" "unat b < 4" using assms by (simp_all add: word_less_nat_alt)
  then have "unat (4 * i) = 4 * unat i" by (subst unat_mult_lem [THEN iffD1]) simp_all
  with lt show ?thesis by (subst unat_add_lem [THEN iffD1]) simp_all
qed

lemma word_off_neq:
  assumes "i < (1024 :: u32)" and "j < 1024" and "i \<noteq> j" and "a < 4" and "b < 4"
  shows "4 * j + a \<noteq> 4 * i + b"
proof
  assume "4 * j + a = 4 * i + b"
  then have "4 * unat j + unat a = 4 * unat i + unat b"
    using assms by (metis unat_word_off)
  moreover have "unat a < 4" "unat b < 4" using assms(4,5) by (simp_all add: word_less_nat_alt)
  ultimately have "unat i = unat j" by arith
  with assms(3) show False by (simp add: word_unat_eq_iff)
qed

lemma get32_put32_other:
  assumes "i < 1024" and "j < 1024" and "i \<noteq> j"
  shows "get32 (put32 pg (4 * i) v) (4 * j) = get32 pg (4 * j)"
proof -
  note ne = word_off_neq [OF assms]
  have "4 * j + a \<noteq> 4 * i" "4 * j \<noteq> 4 * i + a" if "a < 4" for a
    using ne [OF that, of 0] ne [OF _ that, of 0] by simp_all
  moreover have "4 * j \<noteq> 4 * i" using ne [of 0 0] by simp
  ultimately show ?thesis using ne
    by (intro get32_cong) (simp_all add: put32_def)
qed

definition paging_ok :: "'a paging_scheme \<Rightarrow> bool" where
  "paging_ok s \<longleftrightarrow> length (page_directory s) = 1024 \<and> length (kernel_page_table s) = 1024"

definition zero_page :: "page \<Rightarrow> page" where
  "zero_page pg = (\<lambda>off. if off < 4096 then 0 else pg off)"

lemma kpt_write_eq:
  assumes "length (kernel_page_table s) = 1024" and "unat i < 1024"
  shows "kpt_write i v s = Some (s\<lparr>kernel_page_table := (kernel_page_table s)[unat i := v],
    stale := (if kernel_page_table s ! unat i AND 1 \<noteq> 0
      then insert (drop_bit 12 (0xC0000000 + push_bit 12 i)) (stale s) else stale s)\<rparr>)"
  using assms by (simp add: kpt_write_def page_changed_def)

lemma temp_page: "drop_bit 12 (0xC0000000 + push_bit 12 1023) = (drop_bit 12 0xC03FF000 :: u32)"
  by simp

lemma temp_map_eq:
  assumes "length (kernel_page_table s) = 1024"
  shows "paging_temp_map paddr s = Some (s\<lparr>
      kernel_page_table := (kernel_page_table s)[1023 := (paddr AND 0xFFFFF000) OR 3],
      stale := stale s - {0xC03FF}\<rparr>)"
  using assms by (simp add: paging_temp_map_def kpt_write_eq invlpg_def insert_Diff_if or.assoc)

lemma temp_unmap_eq:
  assumes "length (kernel_page_table s) = 1024"
  shows "paging_temp_unmap s = Some (s\<lparr>kernel_page_table := (kernel_page_table s)[1023 := 0],
      stale := stale s - {0xC03FF}\<rparr>)"
  using assms by (simp add: paging_temp_unmap_def kpt_write_eq invlpg_def insert_Diff_if)

lemma mask_or_flags: "f AND 0xFFFFF000 = 0 \<Longrightarrow> ((p AND 0xFFFFF000) OR f) AND 0xFFFFF000 = (p AND 0xFFFFF000 :: u32)"
  by (simp add: bit.conj_disj_distrib2 and.assoc)

lemma mask_or_3:
  "((p AND 0xFFFFF000) OR 3) AND 0xFFFFF000 = (p AND 0xFFFFF000 :: u32)"
  "((p AND 0xFFFFF000) OR 3) AND 1 = (1 :: u32)"
  by (simp_all add: bit.conj_disj_distrib2 and.assoc)

lemma window_temp_map:
  assumes "length (kernel_page_table s) = 1024" and "kernel_page_table s ! 1023 = (paddr AND 0xFFFFF000) OR 3"
    and "0xC03FF \<notin> stale s"
  shows "window s = Some (paddr AND 0xFFFFF000)"
  using assms by (simp add: window_def mask_or_3)


lemma win_ops:
  assumes "window s = Some f"
  shows "i < 4096 \<Longrightarrow> win_read8 i s = Some (pmem s f i)"
    and "i < 4096 \<Longrightarrow> win_write8 i v s = Some (s\<lparr>pmem := (pmem s)(f := (pmem s f)(i := v))\<rparr>)"
    and "i < 1024 \<Longrightarrow> win_read32 i s = Some (get32 (pmem s f) (4 * i))"
    and "i < 1024 \<Longrightarrow> win_write32 i w s = Some (s\<lparr>pmem := (pmem s)(f := put32 (pmem s f) (4 * i) w)\<rparr>)"
  using assms by (simp_all add: win_read8_def win_write8_def win_read32_def win_write32_def)

lemma window_pmem [simp]: "window (s\<lparr>pmem := m\<rparr>) = window s"
  by (simp add: window_def)

lemma win_zero8_eq:
  assumes "window s = Some f"
  shows "win_zero8 s = Some (s\<lparr>pmem := (pmem s)(f := zero_page (pmem s f))\<rparr>)"
proof -
  define g where "g n = s\<lparr>pmem := (pmem s)(f := (\<lambda>off. if unat off < n then 0 else pmem s f off))\<rparr>" for n
  have "for_range 0 4096 (\<lambda>i. win_write8 (of_nat i) 0) s = Some (g 4096)"
  proof (rule for_range_eqI [where g = g])
    fix i :: nat assume i: "i < 4096"
    have "window (g i) = Some f" using assms by (simp add: g_def)
    moreover have "(of_nat i :: u32) < 4096" and u: "unat (of_nat i :: u32) = i"
      using i by (simp_all add: word_less_nat_alt unat_of_nat)
    moreover have "(pmem (g i) f)(of_nat i := 0) = pmem (g (Suc i)) f"
      using u by (auto simp: g_def less_Suc_eq word_unat_eq_iff)
    ultimately show "win_write8 (of_nat i) 0 (g i) = Some (g (Suc i))"
      by (simp add: win_ops g_def)
  qed (simp_all add: g_def)
  then show ?thesis by (simp add: win_zero8_def g_def zero_page_def word_less_nat_alt)
qed

lemma win_zero32_eq:
  assumes "window s = Some f"
  shows "win_zero32 s = Some (s\<lparr>pmem := (pmem s)(f := zero_page (pmem s f))\<rparr>)"
proof -
  define g where "g n = s\<lparr>pmem := (pmem s)(f := (\<lambda>off. if unat off < 4 * n then 0 else pmem s f off))\<rparr>" for n
  have "for_range 0 1024 (\<lambda>i. win_write32 (of_nat i) 0) s = Some (g 1024)"
  proof (rule for_range_eqI [where g = g])
    fix i :: nat assume i: "i < 1024"
    let ?i = "of_nat i :: u32"
    have "window (g i) = Some f" using assms by (simp add: g_def)
    moreover have lt: "?i < 1024" and u: "unat ?i = i"
      using i by (simp_all add: word_less_nat_alt unat_of_nat)
    moreover have "put32 (pmem (g i) f) (4 * ?i) 0 = pmem (g (Suc i)) f"
    proof
      fix off
      note o = unat_word_off [OF lt, of 0] unat_word_off [OF lt, of 1] unat_word_off [OF lt, of 2] unat_word_off [OF lt, of 3]
      show "put32 (pmem (g i) f) (4 * ?i) 0 off = pmem (g (Suc i)) f off"
        using o u by (auto simp: put32_def g_def word_unat_eq_iff)
    qed
    ultimately show "win_write32 ?i 0 (g i) = Some (g (Suc i))"
      by (simp add: win_ops g_def)
  qed (simp_all add: g_def)
  then show ?thesis by (simp add: win_zero32_def g_def zero_page_def word_less_nat_alt)
qed

subsection \<open>The page walk, and what mapping a page does to it\<close>

lemma pt_index_less: "drop_bit 12 v AND 0x3FF < (1024 :: u32)"
  by (rule le_less_trans [OF word_and_le1]) simp

lemma pd_index_less: "unat (drop_bit 22 (v :: u32)) < 1024"
proof -
  have "unat v < 2 ^ 32" using unsigned_less [of v, where ?'a = nat] by simp
  then have "unat v div 2 ^ 22 < 1024" by (simp add: less_mult_imp_div_less)
  then show ?thesis by (simp add: drop_bit_eq_div unat_div)
qed

lemma page_number_eq:
  "drop_bit 12 v = drop_bit 12 w \<longleftrightarrow>
   drop_bit 22 v = drop_bit 22 w \<and> drop_bit 12 v AND 0x3FF = (drop_bit 12 w AND 0x3FF :: u32)"
proof
  assume eq: "drop_bit 12 v = drop_bit 12 w"
  have d: "drop_bit 22 u = drop_bit 10 (drop_bit 12 u)" for u :: u32 by simp
  show "drop_bit 22 v = drop_bit 22 w \<and> drop_bit 12 v AND 0x3FF = (drop_bit 12 w AND 0x3FF)"
    by (simp only: d eq)
next
  assume a: "drop_bit 22 v = drop_bit 22 w \<and> drop_bit 12 v AND 0x3FF = (drop_bit 12 w AND 0x3FF)"
  have m: "(0x3FF :: u32) = mask 10" by (simp add: mask_numeral)
  show "drop_bit 12 v = drop_bit 12 w"
  proof (rule bit_word_eqI)
    fix n
    show "bit (drop_bit 12 v) n = bit (drop_bit 12 w) n"
    proof (cases "n < 10")
      case True
      have "bit (drop_bit 12 v AND mask 10) n = bit (drop_bit 12 w AND mask 10) n" using a m by simp
      with True show ?thesis by (simp add: bit_simps)
    next
      case False
      then have e: "12 + n = 22 + (n - 10)" by simp
      have "bit (drop_bit 22 v) (n - 10) = bit (drop_bit 22 w) (n - 10)" using a by simp
      then show ?thesis by (simp only: bit_drop_bit_eq comp_def e) 
    qed
  qed
qed

text \<open>The x86 page walk (with 4 MB pages enabled, as \<open>loader.s\<close> does) from the kernel's page directory.\<close>

definition translate :: "'a paging_scheme \<Rightarrow> u32 \<Rightarrow> u32 option" where
  "translate s v = do {
     pde \<leftarrow> arr_get (page_directory s) (drop_bit 22 v);
     if pde AND 1 = 0 then None
     else if pde AND 0x80 \<noteq> 0 then Some ((pde AND 0xFFC00000) OR (v AND 0x3FFFFF))
     else do {
       let i = drop_bit 12 v AND 0x3FF;
       pte \<leftarrow> (if drop_bit 22 v = 768 then arr_get (kernel_page_table s) i
              else Some (get32 (pmem s (pde AND 0xFFFFF000)) (4 * i)));
       if pte AND 1 = 0 then None else Some ((pte AND 0xFFFFF000) OR (v AND 0xFFF)) } }"

definition is_table :: "u32 \<Rightarrow> bool" where
  "is_table pde \<longleftrightarrow> pde AND 1 \<noteq> 0 \<and> pde AND 0x80 = 0"

text \<open>Page tables of the directory live in frames of their own, none of them free.\<close>

definition tables_apart :: "'a paging_scheme \<Rightarrow> bool" where
  "tables_apart s \<longleftrightarrow> (\<forall>i < 1024. i \<noteq> 768 \<and> is_table (page_directory s ! i) \<longrightarrow>
     page_directory s ! i AND 0xFFFFF000 \<notin> avail_frames s \<and>
     (\<forall>j < 1024. j \<noteq> 768 \<and> is_table (page_directory s ! j) \<and>
        page_directory s ! j AND 0xFFFFF000 = page_directory s ! i AND 0xFFFFF000 \<longrightarrow> j = i))"

lemma unat_kernel_page:
  "i < 1024 \<Longrightarrow> unat (0xC0000000 + push_bit 12 i :: u32) = 0xC0000000 + 4096 * unat i"
proof -
  assume "i < 1024"
  then have lt: "unat i < 1024" by (simp add: word_less_nat_alt)
  then have "unat (push_bit 12 i) = 4096 * unat i"
    by (simp add: push_bit_eq_mult) (subst unat_mult_lem [THEN iffD1], simp_all)
  with lt show ?thesis by (subst unat_add_lem [THEN iffD1]) simp_all
qed

lemma kernel_page_indices:
  assumes "i < (1024 :: u32)"
  shows "drop_bit 22 (0xC0000000 + push_bit 12 i) = (768 :: u32)"
    and "drop_bit 12 (0xC0000000 + push_bit 12 i) AND 0x3FF = i"
proof -
  have lt: "unat i < 1024" using assms by (simp add: word_less_nat_alt)
  show "drop_bit 22 (0xC0000000 + push_bit 12 i) = (768 :: u32)"
    using lt by (simp add: word_unat_eq_iff drop_bit_eq_div unat_div unat_kernel_page [OF assms])
  have m: "(0x3FF :: u32) = mask 10" by (simp add: mask_numeral)
  have "unat (drop_bit 12 (0xC0000000 + push_bit 12 i)) = 0xC0000 + unat i"
    using lt by (simp add: drop_bit_eq_div unat_div unat_kernel_page [OF assms])
  then show "drop_bit 12 (0xC0000000 + push_bit 12 i) AND 0x3FF = i"
    unfolding m using lt by (simp add: unat_and_mask word_unat_eq_iff mod_add_left_eq [symmetric, of 786432])
qed

lemma map_kernel_page:
  assumes "paging_ok s" and "drop_bit 22 v = (768 :: u32)"
  shows "paging_map_page v p flags s = Some (s\<lparr>
     kernel_page_table := (kernel_page_table s)[unat (drop_bit 12 v AND 0x3FF) := (p AND 0xFFFFF000) OR flags],
     stale := stale s - {drop_bit 12 v}\<rparr>)"
proof -
  have "drop_bit 12 (0xC0000000 + push_bit 12 (drop_bit 12 v AND 0x3FF)) = drop_bit 12 v"
    using assms(2) by (simp only: page_number_eq kernel_page_indices [OF pt_index_less])
  then show ?thesis
  using assms pt_index_less [of v]
  by (simp add: paging_map_page_def kpt_write_eq paging_ok_def word_less_nat_alt invlpg_def insert_Diff_if)
qed

lemma map_existing_table:
  assumes "paging_ok s" and "drop_bit 22 v \<noteq> (768 :: u32)"
    and "page_directory s ! unat (drop_bit 22 v) AND 1 \<noteq> 0"
  shows "paging_map_page v p flags s = Some (let f = page_directory s ! unat (drop_bit 22 v) AND 0xFFFFF000 in
     s\<lparr>pmem := (pmem s)(f := put32 (pmem s f) (4 * (drop_bit 12 v AND 0x3FF)) ((p AND 0xFFFFF000) OR flags)),
       kernel_page_table := (kernel_page_table s)[1023 := 0],
       stale := stale s - {0xC03FF} - {drop_bit 12 v}\<rparr>)"
proof -
  let ?f = "page_directory s ! unat (drop_bit 22 v) AND 0xFFFFF000"
  let ?t = "s\<lparr>kernel_page_table := (kernel_page_table s)[1023 := (?f AND 0xFFFFF000) OR 3],
      stale := stale s - {0xC03FF}\<rparr>"
  have "window ?t = Some (?f AND 0xFFFFF000)"
    using assms(1) by (intro window_temp_map) (simp_all add: paging_ok_def)
  then have "window ?t = Some ?f" by (simp add: and.assoc)
  then show ?thesis
    using assms pt_index_less [of v] pd_index_less [of v]
    by (simp add: paging_map_page_def paging_ok_def temp_map_eq temp_unmap_eq win_ops invlpg_def)
qed

lemma map_new_table:
  assumes "paging_ok s" and "drop_bit 22 v \<noteq> (768 :: u32)"
    and "page_directory s ! unat (drop_bit 22 v) AND 1 = 0"
    and "pfa_alloc s = Some (f, s\<lparr>bitmap := bm\<rparr>)" and "f \<noteq> 0" and "unat f mod 4096 = 0"
  shows "paging_map_page v p flags s = Some (
     s\<lparr>bitmap := bm,
       pmem := (pmem s)(f := put32 (zero_page (pmem s f)) (4 * (drop_bit 12 v AND 0x3FF)) ((p AND 0xFFFFF000) OR flags)),
       page_directory := (page_directory s)[unat (drop_bit 22 v) := f OR 3],
       kernel_page_table := (kernel_page_table s)[1023 := 0],
       stale := stale s - {0xC03FF} - {drop_bit 12 v}\<rparr>)"
proof -
  note f = page_aligned [OF assms(6)]
  let ?t = "s\<lparr>bitmap := bm, kernel_page_table := (kernel_page_table s)[1023 := f OR 3],
      stale := stale s - {0xC03FF}\<rparr>"
  have "window ?t = Some (f AND 0xFFFFF000)"
    using assms(1) by (intro window_temp_map) (simp_all add: paging_ok_def f)
  then have "window ?t = Some f" by (simp add: f)
  then show ?thesis
    using assms(1-5) pt_index_less [of v] pd_index_less [of v]
    by (simp add: paging_map_page_def paging_ok_def temp_map_eq temp_unmap_eq win_zero32_eq win_ops invlpg_def f or.assoc)
qed


lemma translate_table:
  assumes "paging_ok s" and "drop_bit 22 v \<noteq> (768 :: u32)" and "is_table (page_directory s ! unat (drop_bit 22 v))"
  shows "translate s v = (let pte = get32 (pmem s (page_directory s ! unat (drop_bit 22 v) AND 0xFFFFF000))
       (4 * (drop_bit 12 v AND 0x3FF)) in
     if pte AND 1 = 0 then None else Some ((pte AND 0xFFFFF000) OR (v AND 0xFFF)))"
  using assms pd_index_less [of v] by (simp add: translate_def paging_ok_def is_table_def)

lemma translate_kernel:
  assumes "paging_ok s" and "drop_bit 22 v = (768 :: u32)" and "is_table (page_directory s ! 768)"
  shows "translate s v = (let pte = kernel_page_table s ! unat (drop_bit 12 v AND 0x3FF) in
     if pte AND 1 = 0 then None else Some ((pte AND 0xFFFFF000) OR (v AND 0xFFF)))"
  using assms pt_index_less [of v] by (simp add: translate_def paging_ok_def is_table_def word_less_nat_alt)

lemma pte_flags:
  assumes "flags AND 0xFFFFF000 = 0" and "flags AND 1 = (1 :: u32)"
  shows "((p AND 0xFFFFF000) OR flags) AND 1 = 1" "((p AND 0xFFFFF000) OR flags) AND 0xFFFFF000 = p AND 0xFFFFF000"
  using assms by (simp_all add: bit.conj_disj_distrib2 and.assoc)

lemma translate_cong:
  assumes "paging_ok s" and "paging_ok t"
    and "page_directory t ! unat (drop_bit 22 w) = page_directory s ! unat (drop_bit 22 w)"
    and "drop_bit 22 w = (768 :: u32) \<Longrightarrow> kernel_page_table t ! unat (drop_bit 12 w AND 0x3FF)
          = kernel_page_table s ! unat (drop_bit 12 w AND 0x3FF)"
    and "drop_bit 22 w \<noteq> (768 :: u32) \<Longrightarrow> is_table (page_directory s ! unat (drop_bit 22 w)) \<Longrightarrow>
      get32 (pmem t (page_directory s ! unat (drop_bit 22 w) AND 0xFFFFF000)) (4 * (drop_bit 12 w AND 0x3FF))
      = get32 (pmem s (page_directory s ! unat (drop_bit 22 w) AND 0xFFFFF000)) (4 * (drop_bit 12 w AND 0x3FF))"
  shows "translate t w = translate s w"
  using assms pd_index_less [of w] pt_index_less [of w]
  by (cases "drop_bit 22 w = (768 :: u32)")
     (simp_all add: translate_def paging_ok_def is_table_def word_less_nat_alt)

lemma translate_absent:
  "paging_ok s \<Longrightarrow> page_directory s ! unat (drop_bit 22 w) AND 1 = 0 \<Longrightarrow> translate s w = None"
  using pd_index_less [of w] by (simp add: translate_def paging_ok_def)

lemma temp_index:
  "drop_bit 12 w \<noteq> (0xC03FF :: u32) \<Longrightarrow> drop_bit 22 w = (768 :: u32) \<Longrightarrow> unat (drop_bit 12 w AND 0x3FF) \<noteq> 1023"
proof
  assume a: "drop_bit 12 w \<noteq> (0xC03FF :: u32)" "drop_bit 22 w = (768 :: u32)" "unat (drop_bit 12 w AND 0x3FF) = 1023"
  then have "drop_bit 12 w AND 0x3FF = 0x3FF" by (simp add: word_unat_eq_iff)
  with a(2) have "drop_bit 12 w = drop_bit 12 0xC03FF000" unfolding page_number_eq by simp
  with a(1) show False by simp
qed

lemma get32_zero_page: "i < 1024 \<Longrightarrow> get32 (zero_page pg) (4 * i) = 0"
proof -
  assume i: "i < 1024"
  have "4 * i + b < 4096" if "b < 4" for b
    using unat_word_off [OF i that] i that by (simp add: word_less_nat_alt)
  from this [of 0] this [of 1] this [of 2] this [of 3] show ?thesis
    by (simp add: get32_def zero_page_def)
qed


lemma is_table_or_3: "is_table ((p AND 0xFFFFF000) OR 3)"
  by (simp add: is_table_def bit.conj_disj_distrib2 and.assoc)

definition remaps :: "u32 \<Rightarrow> u32 \<Rightarrow> 'a paging_scheme \<Rightarrow> 'a paging_scheme \<Rightarrow> bool" where
  "remaps v p s s' \<longleftrightarrow> translate s' v = Some ((p AND 0xFFFFF000) OR (v AND 0xFFF)) \<and>
     (\<forall>w. drop_bit 12 w \<noteq> drop_bit 12 v \<and> drop_bit 12 w \<noteq> 0xC03FF \<longrightarrow> translate s' w = translate s w)"

lemma map_kernel_remaps:
  assumes ok: "paging_ok s" "is_table (page_directory s ! 768)"
    and flags: "flags AND 0xFFFFF000 = 0" "flags AND 1 = (1 :: u32)" and k: "drop_bit 22 v = (768 :: u32)"
  shows "remaps v p s (s\<lparr>
     kernel_page_table := (kernel_page_table s)[unat (drop_bit 12 v AND 0x3FF) := (p AND 0xFFFFF000) OR flags],
     stale := stale s - {drop_bit 12 v}\<rparr>)" (is "remaps v p s ?s")
  unfolding remaps_def
proof (intro conjI allI impI)
  have ok': "paging_ok ?s" using ok(1) by (simp add: paging_ok_def)
  show "translate ?s v = Some ((p AND 0xFFFFF000) OR (v AND 0xFFF))"
    using translate_kernel [OF ok' k] ok pt_index_less [of v]
    by (simp add: pte_flags [OF flags] paging_ok_def word_less_nat_alt)
  fix w assume w: "drop_bit 12 w \<noteq> drop_bit 12 v \<and> drop_bit 12 w \<noteq> 0xC03FF"
  have "unat (drop_bit 12 w AND 0x3FF) \<noteq> unat (drop_bit 12 v AND 0x3FF)" if "drop_bit 22 w = (768 :: u32)"
    using that w k page_number_eq [of w v] by (simp flip: word_unat_eq_iff)
  then show "translate ?s w = translate s w"
    by (intro translate_cong ok ok') simp_all
qed

lemma map_table_remaps:
  assumes ok: "paging_ok s" "tables_apart s"
    and flags: "flags AND 0xFFFFF000 = 0" "flags AND 1 = (1 :: u32)"
    and u: "drop_bit 22 v \<noteq> (768 :: u32)" "is_table (page_directory s ! unat (drop_bit 22 v))"
  shows "remaps v p s (let f = page_directory s ! unat (drop_bit 22 v) AND 0xFFFFF000 in
     s\<lparr>pmem := (pmem s)(f := put32 (pmem s f) (4 * (drop_bit 12 v AND 0x3FF)) ((p AND 0xFFFFF000) OR flags)),
       kernel_page_table := (kernel_page_table s)[1023 := 0],
       stale := stale s - {0xC03FF} - {drop_bit 12 v}\<rparr>)" (is "remaps v p s ?s")
  unfolding remaps_def
proof (intro conjI allI impI)
  have ok': "paging_ok ?s" using ok(1) by (simp add: paging_ok_def)
  show "translate ?s v = Some ((p AND 0xFFFFF000) OR (v AND 0xFFF))"
    using translate_table [OF ok' u(1)] u(2) by (simp add: get32_put32 pte_flags [OF flags])
  fix w assume w: "drop_bit 12 w \<noteq> drop_bit 12 v \<and> drop_bit 12 w \<noteq> 0xC03FF"
  show "translate ?s w = translate s w"
  proof (rule translate_cong [OF ok(1) ok'])
    assume wt: "drop_bit 22 w \<noteq> (768 :: u32)" "is_table (page_directory s ! unat (drop_bit 22 w))"
    show "get32 (pmem ?s (page_directory s ! unat (drop_bit 22 w) AND 0xFFFFF000)) (4 * (drop_bit 12 w AND 0x3FF))
      = get32 (pmem s (page_directory s ! unat (drop_bit 22 w) AND 0xFFFFF000)) (4 * (drop_bit 12 w AND 0x3FF))"
    proof (cases "drop_bit 22 w = drop_bit 22 v")
      case True
      with w have "drop_bit 12 w AND 0x3FF \<noteq> drop_bit 12 v AND 0x3FF" by (simp add: page_number_eq)
      then show ?thesis using True by (simp add: get32_put32_other pt_index_less)
    next
      case False
      have "page_directory s ! unat (drop_bit 22 w) AND 0xFFFFF000 \<noteq> page_directory s ! unat (drop_bit 22 v) AND 0xFFFFF000"
        using ok(2) wt u False pd_index_less [of v] pd_index_less [of w]
        by (auto simp: tables_apart_def word_unat_eq_iff)
      then show ?thesis by simp
    qed
  qed (use w temp_index [of w] in simp_all)
qed

lemma map_fresh_remaps:
  assumes ok: "paging_ok s" "tables_apart s"
    and flags: "flags AND 0xFFFFF000 = 0" "flags AND 1 = (1 :: u32)"
    and u: "drop_bit 22 v \<noteq> (768 :: u32)" "page_directory s ! unat (drop_bit 22 v) AND 1 = 0"
    and f: "f \<in> avail_frames s" "unat f mod 4096 = 0"
  shows "remaps v p s (
     s\<lparr>bitmap := bm,
       pmem := (pmem s)(f := put32 (zero_page (pmem s f)) (4 * (drop_bit 12 v AND 0x3FF)) ((p AND 0xFFFFF000) OR flags)),
       page_directory := (page_directory s)[unat (drop_bit 22 v) := f OR 3],
       kernel_page_table := (kernel_page_table s)[1023 := 0],
       stale := stale s - {0xC03FF} - {drop_bit 12 v}\<rparr>)" (is "remaps v p s ?s")
  unfolding remaps_def
proof (intro conjI allI impI)
  have ok': "paging_ok ?s" using ok(1) by (simp add: paging_ok_def)
  have pde: "page_directory ?s ! unat (drop_bit 22 v) = f OR 3" "(f OR 3) AND 0xFFFFF000 = f"
    using ok(1) pd_index_less [of v] mask_or_3(1) [of f] page_aligned [OF f(2)] by (simp_all add: paging_ok_def)
  have tab: "is_table (f OR 3)"
    using is_table_or_3 [of f] page_aligned [OF f(2)] by simp
  have tr: "translate ?s w = (let pte = get32 (pmem ?s f) (4 * (drop_bit 12 w AND 0x3FF)) in
     if pte AND 1 = 0 then None else Some ((pte AND 0xFFFFF000) OR (w AND 0xFFF)))" if "drop_bit 22 w = drop_bit 22 v" for w
    using translate_table [OF ok', of w] u(1) that tab pde by simp
  show "translate ?s v = Some ((p AND 0xFFFFF000) OR (v AND 0xFFF))"
    using tr [of v] by (simp add: get32_put32 pte_flags [OF flags])
  fix w assume w: "drop_bit 12 w \<noteq> drop_bit 12 v \<and> drop_bit 12 w \<noteq> 0xC03FF"
  show "translate ?s w = translate s w"
  proof (cases "drop_bit 22 w = drop_bit 22 v")
    case True
    with w have "drop_bit 12 w AND 0x3FF \<noteq> drop_bit 12 v AND 0x3FF" by (simp add: page_number_eq)
    then show ?thesis
      using tr [OF True] translate_absent [OF ok(1), of w] True u(2)
      by (simp add: get32_put32_other get32_zero_page pt_index_less)
  next
    case False
    then have ne: "unat (drop_bit 22 v) \<noteq> unat (drop_bit 22 w)" by (simp add: word_unat_eq_iff)
    have apart: "page_directory s ! unat (drop_bit 22 w) AND 0xFFFFF000 \<noteq> f"
      if "drop_bit 22 w \<noteq> (768 :: u32)" "is_table (page_directory s ! unat (drop_bit 22 w))"
    proof -
      have "unat (drop_bit 22 w) \<noteq> 768" using that(1) by (simp add: word_unat_eq_iff)
      with ok(2) that(2) pd_index_less [of w] f(1) show ?thesis unfolding tables_apart_def by blast
    qed
    show ?thesis
      by (rule translate_cong [OF ok(1) ok']) (use ne apart w temp_index [of w] in simp_all)
  qed
qed


lemma tables_apart_fresh:
  assumes "paging_ok s" and "tables_apart s" and "f \<in> avail_frames s" "unat f mod 4096 = 0" and "i < 1024"
    and "avail_frames t = avail_frames s - {f}" and "page_directory t = (page_directory s)[i := f OR 3]"
  shows "tables_apart t"
proof -
  have f: "(f OR 3) AND 0xFFFFF000 = f"
    using mask_or_3(1) [of f] page_aligned [OF assms(4)] by simp
  have "page_directory t ! j = (if j = i then f OR 3 else page_directory s ! j)" if "j < 1024" for j
    using that assms(1,5,7) by (simp add: paging_ok_def)
  then show ?thesis
    using assms(2,3,5,6) f unfolding tables_apart_def by (auto split: if_splits)
qed

text \<open>
  C15.  \<open>paging_map_page\<close> maps the page of \<open>vaddr\<close> to the frame of \<open>paddr\<close>: afterwards the page walk takes
  \<open>vaddr\<close> there, every other page but the temporary window is translated as before, and the
  translation cache holds nothing outdated for \<open>vaddr\<close>.  This holds for the kernel's own table, for
  an existing table, and when a table is missing and a frame is left for it.
\<close>

theorem paging_map_page_translates:
  assumes ok: "paging_ok s" "pfa_ok s" "tables_apart s" "is_table (page_directory s ! 768)"
    and flags: "flags AND 0xFFFFF000 = 0" "flags AND 1 = (1 :: u32)"
    and pde: "page_directory s ! unat (drop_bit 22 v) AND 1 = 0 \<and> avail_frames s \<noteq> {} \<or>
      is_table (page_directory s ! unat (drop_bit 22 v))"
  shows "\<exists>s'. paging_map_page v p flags s = Some s' \<and> paging_ok s' \<and> pfa_ok s' \<and> tables_apart s' \<and>
     remaps v p s s' \<and> drop_bit 12 v \<notin> stale s'"
proof (cases "drop_bit 22 v = (768 :: u32)")
  case True
  show ?thesis
    using map_kernel_page [OF ok(1) True, of p flags] map_kernel_remaps [OF ok(1,4) flags True, of p] ok
    by (simp add: paging_ok_def pfa_ok_def tables_apart_def avail_frames_def free_frames_def)
next
  case user: False
  show ?thesis
  proof (cases "is_table (page_directory s ! unat (drop_bit 22 v))")
    case True
    then have "page_directory s ! unat (drop_bit 22 v) AND 1 \<noteq> 0" by (simp add: is_table_def)
    from map_existing_table [OF ok(1) user this, of p flags] map_table_remaps [OF ok(1,3) flags user True, of p] ok
    show ?thesis
      by (simp add: paging_ok_def pfa_ok_def tables_apart_def avail_frames_def free_frames_def)
  next
    case False
    with pde have absent: "page_directory s ! unat (drop_bit 22 v) AND 1 = 0" "avail_frames s \<noteq> {}" by auto
    show ?thesis
    proof (rule pfa_alloc_cases [OF ok(2)])
      fix f bm
      assume a: "pfa_alloc s = Some (f, s\<lparr>bitmap := bm\<rparr>)" "f \<in> avail_frames s" "f \<noteq> 0" "unat f mod 4096 = 0"
        "pfa_ok (s\<lparr>bitmap := bm\<rparr>)" "avail_frames (s\<lparr>bitmap := bm\<rparr>) = avail_frames s - {f}"
      note m = map_new_table [OF ok(1) user absent(1) a(1,3,4), of p flags]
      note r = map_fresh_remaps [OF ok(1,3) flags user absent(1) a(2,4), of p bm]
      have "tables_apart (s\<lparr>bitmap := bm, pmem := M, page_directory := (page_directory s)[unat (drop_bit 22 v) := f OR 3],
          kernel_page_table := K, stale := S\<rparr>)" for M K S
        by (rule tables_apart_fresh [OF ok(1,3) a(2,4) pd_index_less [of v]])
           (use a(6) in \<open>simp_all add: avail_frames_def free_frames_def\<close>)
      with m r a(5) ok(1) show ?thesis by (simp add: paging_ok_def pfa_ok_def)
    qed (use absent in simp)
  qed
qed

definition sample_paging :: paging where
  "sample_paging = \<lparr>port_out = [], serial_log = [], cr3 = 0x101000, stale = {},
     bitmap = replicate 2048 0, start_frame = 300, total_frames = 16384,
     page_directory = (replicate 1024 0)[0 := 0x83, 768 := 0x110003],
     kernel_page_table = replicate 1024 0, pmem = (\<lambda>_ _. 0)\<rparr>"

lemma sample_paging_facts:
  "paging_ok sample_paging" "pfa_ok sample_paging" "tables_apart sample_paging"
  "is_table (page_directory sample_paging ! 768)" "avail_frames sample_paging \<noteq> {}"
proof -
  show "paging_ok sample_paging" "pfa_ok sample_paging" "is_table (page_directory sample_paging ! 768)"
    by (simp_all add: sample_paging_def paging_ok_def pfa_ok_def is_table_def)
  show "tables_apart sample_paging"
    by (auto simp: sample_paging_def tables_apart_def is_table_def nth_list_update split: if_splits)
  have "300 \<in> free_frames sample_paging"
    by (simp add: sample_paging_def free_frames_def used_def)
  then show "avail_frames sample_paging \<noteq> {}" by (auto simp: avail_frames_def)
qed

theorem paging_map_page_translates_witness:
  "\<exists>s'. paging_map_page 0x400000 0x200000 7 sample_paging = Some s' \<and> remaps 0x400000 0x200000 sample_paging s'"
proof -
  have "page_directory sample_paging ! unat (drop_bit 22 (0x400000 :: u32)) AND 1 = 0"
    by (simp add: sample_paging_def)
  then show ?thesis
    using paging_map_page_translates [of sample_paging 7 "0x400000" "0x200000"] sample_paging_facts by auto
qed

text \<open>
  C34.  The boot directory maps the first 4 MB with one large page (entry \<open>0x83\<close>), and
  \<open>paging_map_page\<close> takes that entry for a page table.  Mapping an address below 4 MB leaves its
  translation as it was and stores the new entry in physical frame 0 instead.
\<close>

theorem paging_map_page_large_page:
  assumes "paging_ok s" and "page_directory s ! 0 = 0x83" and "drop_bit 22 v = (0 :: u32)"
  shows "\<exists>s'. paging_map_page v p flags s = Some s' \<and>
    translate s' v = Some (v AND 0x3FFFFF) \<and> translate s v = Some (v AND 0x3FFFFF) \<and>
    get32 (pmem s' 0) (4 * (drop_bit 12 v AND 0x3FF)) = (p AND 0xFFFFF000) OR flags"
  using assms map_existing_table [OF assms(1), of v p flags]
  by (simp add: translate_def paging_ok_def get32_put32)

theorem paging_map_page_large_page_witness:
  "\<exists>s'. paging_map_page 0x5000 0x200000 3 sample_paging = Some s' \<and>
    translate s' 0x5000 = Some 0x5000 \<and> get32 (pmem s' 0) 20 = 0x200003"
proof -
  have "page_directory sample_paging ! 0 = 0x83" by (simp add: sample_paging_def)
  then show ?thesis
    using paging_map_page_large_page [of sample_paging "0x5000" "0x200000" 3] sample_paging_facts by auto
qed

subsection \<open>The initial map of the kernel\<close>

lemma kpt_write_any:
  assumes "length K = 1024" and "i < 1024"
  shows "\<exists>S'. kpt_write (of_nat i) v (s\<lparr>kernel_page_table := K, stale := S\<rparr>)
     = Some (s\<lparr>kernel_page_table := K[i := v], stale := S'\<rparr>)"
proof -
  have "unat (of_nat i :: u32) = i" using assms(2) by (simp add: unat_of_nat)
  then show ?thesis
    using kpt_write_eq [of "s\<lparr>kernel_page_table := K, stale := S\<rparr>" "of_nat i" v] assms
    by (auto split: if_splits)
qed

lemma kpt_loop:
  assumes "lo \<le> hi" and "hi \<le> 1024" and "length K = 1024"
  shows "\<exists>K' S'. for_range lo hi (\<lambda>i. kpt_write (of_nat i) (val i)) (s\<lparr>kernel_page_table := K, stale := S\<rparr>)
     = Some (s\<lparr>kernel_page_table := K', stale := S'\<rparr>) \<and> length K' = 1024 \<and>
     (\<forall>j < 1024. K' ! j = (if lo \<le> j \<and> j < hi then val j else K ! j))"
proof -
  define P where "P i t \<longleftrightarrow> (\<exists>K' S'. t = s\<lparr>kernel_page_table := K', stale := S'\<rparr> \<and> length K' = 1024 \<and>
     (\<forall>j < 1024. K' ! j = (if lo \<le> j \<and> j < i then val j else K ! j)))" for i t
  have "\<exists>s'. for_range lo hi (\<lambda>i. kpt_write (of_nat i) (val i)) (s\<lparr>kernel_page_table := K, stale := S\<rparr>) = Some s' \<and> P hi s'"
  proof (rule for_range_rule [OF assms(1)])
    show "P lo (s\<lparr>kernel_page_table := K, stale := S\<rparr>)"
      using assms(3) unfolding P_def by (intro exI [of _ K] exI [of _ S]) auto
    fix i t assume i: "lo \<le> i" "i < hi" and "P i t"
    then obtain K' S' where t: "t = s\<lparr>kernel_page_table := K', stale := S'\<rparr>" "length K' = 1024"
      "\<forall>j < 1024. K' ! j = (if lo \<le> j \<and> j < i then val j else K ! j)" unfolding P_def by blast
    obtain S'' where w: "kpt_write (of_nat i) (val i) t = Some (s\<lparr>kernel_page_table := K'[i := val i], stale := S''\<rparr>)"
      using kpt_write_any [OF t(2), of i "val i" S' s] i(2) assms(2) t(1) by auto
    have "P (Suc i) (s\<lparr>kernel_page_table := K'[i := val i], stale := S''\<rparr>)"
      unfolding P_def using t(2,3) i assms(2)
      by (intro exI [of _ "K'[i := val i]"] exI [of _ S'']) (auto simp: nth_list_update less_Suc_eq)
    with w show "\<exists>t'. kpt_write (of_nat i) (val i) t = Some t' \<and> P (Suc i) t'" by blast
  qed
  then show ?thesis unfolding P_def by blast
qed

lemma split_page_offset: "(x AND 0xFFFFF000) OR (x AND 0xFFF) = (x :: u32)"
proof -
  have "(x AND 0xFFFFF000) OR (x AND 0xFFF) = x AND (0xFFFFF000 OR 0xFFF)"
    by (simp only: bit.conj_disj_distrib)
  also have "(0xFFFFF000 OR 0xFFF :: u32) = - 1" by simp
  finally show ?thesis by simp
qed

lemma kernel_vaddr:
  assumes "unat (x :: u32) < 2 ^ 22"
  shows "drop_bit 22 (0xC0000000 + x) = (768 :: u32)"
    and "unat (drop_bit 12 (0xC0000000 + x) AND 0x3FF) = unat x div 4096"
    and "(0xC0000000 + x) AND 0xFFF = x AND 0xFFF"
proof -
  have u: "unat (0xC0000000 + x) = 0xC0000000 + unat x"
    using assms by (subst unat_add_lem [THEN iffD1]) simp_all
  show "drop_bit 22 (0xC0000000 + x) = (768 :: u32)"
    using assms by (simp add: word_unat_eq_iff drop_bit_eq_div unat_div u)
  have m: "(0x3FF :: u32) = mask 10" "(0xFFF :: u32) = mask 12" by (simp_all add: mask_numeral)
  have "unat (drop_bit 12 (0xC0000000 + x)) = 0xC0000 + unat x div 4096"
    by (simp add: drop_bit_eq_div unat_div u)
  then show "unat (drop_bit 12 (0xC0000000 + x) AND 0x3FF) = unat x div 4096"
    unfolding m unat_and_mask using assms mod_add_left_eq [symmetric, of 786432 "unat x div 4096" 1024] by simp
  show "(0xC0000000 + x) AND 0xFFF = x AND 0xFFF"
    unfolding m word_unat_eq_iff unat_and_mask u using mod_add_left_eq [symmetric, of 3221225472 "unat x" 4096] by simp
qed


lemma kernel_pte: "j < 2 ^ 20 \<Longrightarrow> ((of_nat j * 4096) OR 3) AND 1 = (1 :: u32)"
  "j < 2 ^ 20 \<Longrightarrow> ((of_nat j * 4096) OR 3) AND 0xFFFFF000 = (of_nat j * 4096 :: u32)"
proof -
  assume j: "j < 2 ^ 20"
  then have "unat (of_nat j * 4096 :: u32) = j * 4096"
    by (subst unat_less_4096_mult) (simp_all add: unat_of_nat)
  then have "of_nat j * 4096 AND 0xFFFFF000 = (of_nat j * 4096 :: u32)" by (intro page_aligned) simp
  then show "((of_nat j * 4096) OR 3) AND 1 = (1 :: u32)"
     "((of_nat j * 4096) OR 3) AND 0xFFFFF000 = (of_nat j * 4096 :: u32)"
    using mask_or_3 [of "of_nat j * 4096"] by simp_all
qed

lemma paging_init_table:
  assumes ok: "paging_ok s" and kp: "unat kp_end \<le> 0x3FF000"
  shows "\<exists>K. paging_init kp_end kpt_vaddr s = Some (s\<lparr>kernel_page_table := K,
      page_directory := (page_directory s)[768 := (kpt_vaddr - 0xC0000000) OR 3], stale := {}\<rparr>) \<and>
    length K = 1024 \<and> (\<forall>j < 1024. K ! j = (if j < (unat kp_end + 4095) div 4096 then of_nat j * 4096 OR 3 else 0))"
proof -
  let ?m = "(unat kp_end + 4095) div 4096"
  have "unat (kp_end + 4095) = unat kp_end + 4095"
    using kp by (subst unat_add_lem [THEN iffD1]) simp_all
  moreover have "kp_end + 4096 - 1 = kp_end + 4095" by simp
  ultimately have m: "unat ((kp_end + 4096 - 1) div 4096) = ?m" by (simp only: unat_div) simp
  have le: "?m \<le> 1023" using kp by simp
  have s: "s = s\<lparr>kernel_page_table := kernel_page_table s, stale := stale s\<rparr>" by simp
  have len: "length (kernel_page_table s) = 1024" using ok by (simp add: paging_ok_def)
  obtain K1 S1 where 1: "for_range 0 ?m (\<lambda>i. kpt_write (of_nat i) ((of_nat i * 4096) OR 1 OR 2)) s
      = Some (s\<lparr>kernel_page_table := K1, stale := S1\<rparr>)" "length K1 = 1024"
      "\<forall>j < 1024. K1 ! j = (if j < ?m then (of_nat j * 4096) OR 1 OR 2 else kernel_page_table s ! j)"
    using kpt_loop [of 0 ?m "kernel_page_table s" "\<lambda>i. (of_nat i * 4096) OR 1 OR 2" "stale s" s] le len by auto
  obtain K2 S2 where 2: "for_range ?m 1023 (\<lambda>i. kpt_write (of_nat i) 0) (s\<lparr>kernel_page_table := K1, stale := S1\<rparr>)
      = Some (s\<lparr>kernel_page_table := K2, stale := S2\<rparr>)" "length K2 = 1024"
      "\<forall>j < 1024. K2 ! j = (if ?m \<le> j \<and> j < 1023 then 0 else K1 ! j)"
    using kpt_loop [of ?m 1023 K1 "\<lambda>_. 0" S1 s] le 1(2) by auto
  obtain S3 where 3: "kpt_write 1023 0 (s\<lparr>kernel_page_table := K2, stale := S2\<rparr>)
      = Some (s\<lparr>kernel_page_table := K2[1023 := 0], stale := S3\<rparr>)"
    using kpt_write_any [OF 2(2), of 1023 0 S2 s] by auto
  have "paging_init kp_end kpt_vaddr s = Some (s\<lparr>kernel_page_table := K2[1023 := 0],
      page_directory := (page_directory s)[768 := (kpt_vaddr - 0xC0000000) OR 3], stale := {}\<rparr>)"
    unfolding paging_init_def Let_def m using 1(1) 2(1) 3 le ok
    by (simp add: min_def paging_ok_def reload_cr3_def or.assoc)
  moreover have "\<forall>j < 1024. K2[1023 := 0] ! j = (if j < ?m then of_nat j * 4096 OR 3 else 0)"
    using 1(3) 2(2,3) le by (auto simp: nth_list_update or.assoc)
  ultimately show ?thesis using 2(2) by (intro exI [of _ "K2[1023 := 0]"]) simp
qed


text \<open>
  C30.  After \<open>paging_init\<close> the 4 MB at \<open>0xC0000000\<close> are mapped page by page: an address of the kernel
  image goes to the physical address \<open>0xC0000000\<close> below it, an address past the image is unmapped
  (the heap and the window map it later), and no outdated translation is left.
\<close>

theorem paging_init_maps_kernel:
  assumes "paging_ok s" and "unat kp_end \<le> 0x3FF000" and "unat (kpt_vaddr - 0xC0000000) mod 4096 = 0"
  shows "\<exists>s'. paging_init kp_end kpt_vaddr s = Some s' \<and> paging_ok s' \<and> stale s' = {} \<and>
    is_table (page_directory s' ! 768) \<and>
    (\<forall>x. unat x < 2 ^ 22 \<longrightarrow> translate s' (0xC0000000 + x) =
       (if unat x div 4096 < (unat kp_end + 4095) div 4096 then Some x else None))"
proof -
  obtain K where K: "paging_init kp_end kpt_vaddr s = Some (s\<lparr>kernel_page_table := K,
      page_directory := (page_directory s)[768 := (kpt_vaddr - 0xC0000000) OR 3], stale := {}\<rparr>)"
    "length K = 1024"
    "\<forall>j < 1024. K ! j = (if j < (unat kp_end + 4095) div 4096 then of_nat j * 4096 OR 3 else 0)"
    using paging_init_table [OF assms(1,2)] by blast
  let ?t = "s\<lparr>kernel_page_table := K,
      page_directory := (page_directory s)[768 := (kpt_vaddr - 0xC0000000) OR 3], stale := {}\<rparr>"
  have ok: "paging_ok ?t" using assms(1) K(2) by (simp add: paging_ok_def)
  have tab: "is_table (page_directory ?t ! 768)"
    using assms(1) is_table_or_3 [of "kpt_vaddr - 0xC0000000"] page_aligned [OF assms(3)]
    by (simp add: paging_ok_def)
  have "translate ?t (0xC0000000 + x) =
      (if unat x div 4096 < (unat kp_end + 4095) div 4096 then Some x else None)" if x: "unat x < 2 ^ 22" for x
  proof -
    have j: "unat x div 4096 < 1024" using x by simp
    have "of_nat (unat x div 4096) * 4096 = (x AND 0xFFFFF000)"
      using j by (simp add: word_unat_eq_iff unat_page_mask unat_frame_addr)
    then show ?thesis
      using translate_kernel [OF ok kernel_vaddr(1) [OF x] tab] kernel_vaddr [OF x] K(3) j
        kernel_pte [of "unat x div 4096"] split_page_offset [of x] by simp
  qed
  with K(1) ok tab show ?thesis by auto
qed

theorem paging_init_maps_kernel_witness:
  "\<exists>s'. paging_init 0x110000 0xC0105000 sample_paging = Some s' \<and>
     translate s' 0xC0100004 = Some 0x100004 \<and> translate s' 0xC0200000 = None"
proof -
  from paging_init_maps_kernel [OF sample_paging_facts(1), of "0x110000" "0xC0105000"]
  obtain s' where s': "paging_init 0x110000 0xC0105000 sample_paging = Some s'"
    "\<forall>x. unat x < 2 ^ 22 \<longrightarrow> translate s' (0xC0000000 + x) =
       (if unat x div 4096 < (unat (0x110000 :: u32) + 4095) div 4096 then Some x else None)" by auto
  from s'(2) [rule_format, of "0x100004"] s'(2) [rule_format, of "0x200000"] s'(1) show ?thesis by simp
qed

end
