(* ===== verification/Kheap.thy ===== *)
theory Kheap
  imports Paging
begin

text \<open>
  The kernel heap, \<open>src/memory/kheap.c\<close>: the allocator of Kernighan and Ritchie, a circular list of
  free blocks ordered by address that starts at the static sentinel \<open>base\<close>, over virtual pages that
  \<open>ksbrk\<close> maps on demand.  The headers are a typed view of kernel memory, the address of a header
  giving its two fields; a header can be read and written only where the kernel page table maps it.
\<close>

subsection \<open>The code\<close>

record header =
  hnext :: u32
  hsize :: u32

record kheap = paging +
  base_addr :: u32
  hdrs :: "u32 \<Rightarrow> header"
  freep :: u32
  heap_current :: u32
  heap_max :: u32

abbreviation (input) NALLOC :: u32 where "NALLOC \<equiv> 128"
abbreviation (input) sizeof_Header :: u32 where "sizeof_Header \<equiv> 8"
abbreviation (input) PTR_FAIL :: u32 where "PTR_FAIL \<equiv> 0xFFFFFFFF"

text \<open>A mapped address of the kernel, by the kernel's page table (see \<open>kernel_mapped\<close> in \<open>Kernel_Run\<close>).\<close>

definition kmapped :: "u32 \<Rightarrow> 'a paging_scheme \<Rightarrow> bool" where
  "kmapped a s \<longleftrightarrow> drop_bit 22 a = 768 \<and> drop_bit 12 a \<notin> stale s \<and>
     (case arr_get (kernel_page_table s) (drop_bit 12 a AND 0x3FF) of
        None \<Rightarrow> False | Some pte \<Rightarrow> pte AND PTE_PRESENT \<noteq> 0)"

definition hdr_read :: "u32 \<Rightarrow> 'a kheap_scheme \<Rightarrow> header option" where
  "hdr_read p s = (if kmapped p s then Some (hdrs s p) else None)"

definition hdr_write :: "u32 \<Rightarrow> (header \<Rightarrow> header) \<Rightarrow> 'a kheap_scheme \<Rightarrow> 'a kheap_scheme option" where
  "hdr_write p f s = (if kmapped p s then Some (s\<lparr>hdrs := (hdrs s)(p := f (hdrs s p))\<rparr>) else None)"

text \<open>The loop of \<open>ksbrk\<close>: \<open>False\<close> when a frame is missing.\<close>

partial_function (option) ksbrk_loop :: "u32 \<Rightarrow> u32 \<Rightarrow> 'a kheap_scheme \<Rightarrow> (bool \<times> 'a kheap_scheme) option" where
  "ksbrk_loop addr limit s =
     (if addr < limit then do {
        (frame, s) \<leftarrow> pfa_alloc s;
        if frame = 0 then Some (False, s)
        else do {
          s \<leftarrow> paging_map_page addr frame (PTE_PRESENT OR PTE_WRITABLE) s;
          ksbrk_loop (addr + PAGE_SIZE) limit s } }
      else Some (True, s))"

definition ksbrk :: "u32 \<Rightarrow> 'a kheap_scheme \<Rightarrow> (u32 \<times> 'a kheap_scheme) option" where
  "ksbrk nbytes s = do {
     let nbytes = (nbytes + PAGE_SIZE - 1) AND NOT (PAGE_SIZE - 1);
     if heap_current s + nbytes > heap_max s then Some (PTR_FAIL, s)
     else do {
       let old = heap_current s;
       (ok, s) \<leftarrow> ksbrk_loop (heap_current s) (heap_current s + nbytes) s;
       if \<not> ok then Some (PTR_FAIL, s)
       else Some (old, s\<lparr>heap_current := heap_current s + nbytes\<rparr>) } }"

partial_function (option) kfree_find :: "u32 \<Rightarrow> u32 \<Rightarrow> 'a kheap_scheme \<Rightarrow> u32 option" where
  "kfree_find bp p s = do {
     h \<leftarrow> hdr_read p s;
     if bp > p \<and> bp < hnext h then Some p
     else if p \<ge> hnext h \<and> (bp > p \<or> bp < hnext h) then Some p
     else kfree_find bp (hnext h) s }"

definition kfree :: "u32 \<Rightarrow> 'a kheap_scheme \<Rightarrow> 'a kheap_scheme option" where
  "kfree ptr s =
     (if ptr = 0 then Some s
      else do {
        let bp = ptr - sizeof_Header;
        p \<leftarrow> kfree_find bp (freep s) s;
        hbp \<leftarrow> hdr_read bp s;
        hp \<leftarrow> hdr_read p s;
        s \<leftarrow> (if bp + hsize hbp * sizeof_Header = hnext hp then do {
               hn \<leftarrow> hdr_read (hnext hp) s;
               s \<leftarrow> hdr_write bp (\<lambda>h. h\<lparr>hsize := hsize h + hsize hn\<rparr>) s;
               hn \<leftarrow> hdr_read (hnext hp) s;
               hdr_write bp (\<lambda>h. h\<lparr>hnext := hnext hn\<rparr>) s }
             else hdr_write bp (\<lambda>h. h\<lparr>hnext := hnext hp\<rparr>) s);
        hp \<leftarrow> hdr_read p s;
        s \<leftarrow> (if p + hsize hp * sizeof_Header = bp then do {
               hbp \<leftarrow> hdr_read bp s;
               hdr_write p (\<lambda>h. h\<lparr>hsize := hsize h + hsize hbp, hnext := hnext hbp\<rparr>) s }
             else hdr_write p (\<lambda>h. h\<lparr>hnext := bp\<rparr>) s);
        Some (s\<lparr>freep := p\<rparr>) })"

definition morecore :: "u32 \<Rightarrow> 'a kheap_scheme \<Rightarrow> (u32 \<times> 'a kheap_scheme) option" where
  "morecore nunits s = do {
     let nunits = (if nunits < NALLOC then NALLOC else nunits);
     let nbytes = nunits * sizeof_Header;
     let nbytes = (nbytes + PAGE_SIZE - 1) AND NOT (PAGE_SIZE - 1);
     (p, s) \<leftarrow> ksbrk nbytes s;
     if p = PTR_FAIL then Some (0, s)
     else do {
       s \<leftarrow> hdr_write p (\<lambda>h. h\<lparr>hsize := nbytes div sizeof_Header\<rparr>) s;
       s \<leftarrow> kfree (p + sizeof_Header) s;
       Some (freep s, s) } }"

definition kheap_init :: "u32 \<Rightarrow> 'a kheap_scheme \<Rightarrow> 'a kheap_scheme" where
  "kheap_init kernel_virtual_end s = s\<lparr>
     heap_current := (kernel_virtual_end + PAGE_SIZE - 1) AND NOT (PAGE_SIZE - 1),
     heap_max := TEMP_MAP_VADDR\<rparr>"

partial_function (option) kmalloc_loop ::
    "u32 \<Rightarrow> u32 \<Rightarrow> u32 \<Rightarrow> 'a kheap_scheme \<Rightarrow> (u32 \<times> 'a kheap_scheme) option" where
  "kmalloc_loop nunits prevp p s = do {
     h \<leftarrow> hdr_read p s;
     if hsize h \<ge> nunits then
       (if hsize h = nunits then do {
          s \<leftarrow> hdr_write prevp (\<lambda>hp. hp\<lparr>hnext := hnext h\<rparr>) s;
          Some (p + sizeof_Header, s\<lparr>freep := prevp\<rparr>) }
        else do {
          s \<leftarrow> hdr_write p (\<lambda>h. h\<lparr>hsize := hsize h - nunits\<rparr>) s;
          h \<leftarrow> hdr_read p s;
          let p = p + hsize h * sizeof_Header;
          s \<leftarrow> hdr_write p (\<lambda>h. h\<lparr>hsize := nunits\<rparr>) s;
          Some (p + sizeof_Header, s\<lparr>freep := prevp\<rparr>) })
     else if p = freep s then do {
       (q, s) \<leftarrow> morecore nunits s;
       if q = 0 then Some (0, s)
       else do {
         h \<leftarrow> hdr_read q s;
         kmalloc_loop nunits q (hnext h) s } }
     else kmalloc_loop nunits p (hnext h) s }"

definition kmalloc :: "u32 \<Rightarrow> 'a kheap_scheme \<Rightarrow> (u32 \<times> 'a kheap_scheme) option" where
  "kmalloc nbytes s =
     (if nbytes = 0 then Some (0, s)
      else do {
        let nunits = (nbytes + sizeof_Header - 1) div sizeof_Header + 1;
        s \<leftarrow> (if freep s = 0 then do {
               s \<leftarrow> hdr_write (base_addr s) (\<lambda>h. h\<lparr>hnext := base_addr s, hsize := 0\<rparr>) s;
               Some (s\<lparr>freep := base_addr s\<rparr>) }
             else Some s);
        h \<leftarrow> hdr_read (freep s) s;
        kmalloc_loop nunits (freep s) (hnext h) s })"

end
