(* ===== verification/Segments.thy ===== *)
theory Segments
  imports Kheap
begin

text \<open>
  The descriptor tables: the GDT (\<open>src/segment/gdt.c\<close>), the TSS (\<open>src/segment/tss.c\<close>), the IDT
  (\<open>src/interrupts/idt.c\<close>) and the interrupt controller (\<open>src/interrupts/pic.c\<close>), with the
  registers the assembly helpers load (\<open>lgdt_f.s\<close>, \<open>far_jump.s\<close>, \<open>segment_selector.s\<close>, \<open>load_tss.s\<close>,
  \<open>load_lidt.s\<close>).  Addresses of static objects and of the assembly entry points are fixed by the
  linker and are arguments here.
\<close>

subsection \<open>The data\<close>

record gdt_seg_descriptor =
  limit_0_15 :: u16
  base_0_15 :: u16
  base_16_23 :: u8
  access_byte :: u8
  limit_16_19 :: "4 word"
  gdt_flags :: "4 word"
  base_24_31 :: u8

record tss_entry =
  t_prev_tss :: u32
  t_esp0 :: u32
  t_ss0 :: u32
  t_esp1 :: u32
  t_ss1 :: u32
  t_esp2 :: u32
  t_ss2 :: u32
  t_cr3 :: u32
  t_eip :: u32
  t_eflags :: u32
  t_eax :: u32
  t_ecx :: u32
  t_edx :: u32
  t_ebx :: u32
  t_esp :: u32
  t_ebp :: u32
  t_esi :: u32
  t_edi :: u32
  t_es :: u32
  t_cs :: u32
  t_ss :: u32
  t_ds :: u32
  t_fs :: u32
  t_gs :: u32
  t_ldt :: u32
  t_trap :: u16
  t_iomap_base :: u16

record idt_descriptor =
  offset_low :: u16
  segment_selector :: u16
  reserved :: u8
  type_attr :: u8
  offset_high :: u16

text \<open>
  \<open>gdt_global\<close> and \<open>idt_global\<close> are pairs of a size and an address; \<open>gdtr\<close>, \<open>idtr\<close> and \<open>tr\<close> are the
  registers, \<open>seg_cs\<close> and \<open>seg_data\<close> the selectors in \<open>cs\<close> and in \<open>ds\<close>, \<open>ss\<close> and \<open>es\<close>.
\<close>

record segments = kheap +
  gdt_descriptors :: "gdt_seg_descriptor list"
  gdt_global :: "u16 \<times> u32"
  gdtr :: "u16 \<times> u32"
  seg_cs :: u16
  seg_data :: u16
  tss :: tss_entry
  tr :: u16
  idt_entries :: "idt_descriptor list"
  idt_global :: "u16 \<times> u32"
  idtr :: "u16 \<times> u32"

subsection \<open>GDT and TSS\<close>

definition init_gdt_descriptor :: "u32 \<Rightarrow> u32 \<Rightarrow> u8 \<Rightarrow> u8 \<Rightarrow> gdt_seg_descriptor" where
  "init_gdt_descriptor base limite acces flags = \<lparr>
     limit_0_15 = ucast (limite AND 0xffff),
     base_0_15 = ucast (base AND 0xffff),
     base_16_23 = ucast (drop_bit 16 (base AND 0xff0000)),
     access_byte = acces,
     limit_16_19 = ucast (drop_bit 16 (limite AND 0xf0000)),
     gdt_flags = ucast (flags AND 0xf),
     base_24_31 = ucast (drop_bit 24 (base AND 0xff000000))\<rparr>"

definition set_gdt :: "nat \<Rightarrow> gdt_seg_descriptor \<Rightarrow> 'a segments_scheme \<Rightarrow> 'a segments_scheme option" where
  "set_gdt i d s = map_option (\<lambda>g. s\<lparr>gdt_descriptors := g\<rparr>) (arr_set (gdt_descriptors s) (of_nat i) d)"

definition init_gdt :: "u32 \<Rightarrow> u16 \<Rightarrow> 'a segments_scheme \<Rightarrow> 'a segments_scheme option" where
  "init_gdt gdt_addr n s = do {
     let s = s\<lparr>gdt_global := (ucast ((ucast n :: u32) * 8 - 1), gdt_addr)\<rparr>;
     s \<leftarrow> set_gdt 0 (init_gdt_descriptor 0 0 0 0) s;
     s \<leftarrow> set_gdt 1 (init_gdt_descriptor 0 0xFFFFFFFF 0x9B 0xC) s;
     s \<leftarrow> set_gdt 2 (init_gdt_descriptor 0 0xFFFFFFFF 0x92 0xC) s;
     s \<leftarrow> set_gdt 3 (init_gdt_descriptor 0 0xFFFFFFFF 0xFB 0xC) s;
     s \<leftarrow> set_gdt 4 (init_gdt_descriptor 0 0xFFFFFFFF 0xF2 0xC) s;
     let s = s\<lparr>gdtr := gdt_global s\<rparr>;
     let s = s\<lparr>seg_cs := 0x08\<rparr>;
     Some (s\<lparr>seg_data := 0x10\<rparr>) }"

definition zero_tss :: tss_entry where
  "zero_tss = \<lparr>t_prev_tss = 0, t_esp0 = 0, t_ss0 = 0, t_esp1 = 0, t_ss1 = 0, t_esp2 = 0, t_ss2 = 0,
     t_cr3 = 0, t_eip = 0, t_eflags = 0, t_eax = 0, t_ecx = 0, t_edx = 0, t_ebx = 0, t_esp = 0,
     t_ebp = 0, t_esi = 0, t_edi = 0, t_es = 0, t_cs = 0, t_ss = 0, t_ds = 0, t_fs = 0, t_gs = 0,
     t_ldt = 0, t_trap = 0, t_iomap_base = 0\<rparr>"

text \<open>\<open>sizeof(struct tss_entry)\<close>: 25 words and two half words, packed.\<close>

abbreviation (input) sizeof_tss :: nat where "sizeof_tss \<equiv> 104"

definition tss_init :: "u32 \<Rightarrow> u32 \<Rightarrow> u32 \<Rightarrow> 'a segments_scheme \<Rightarrow> 'a segments_scheme option" where
  "tss_init tss_addr ss0 esp0 s = do {
     let s = s\<lparr>tss := zero_tss\<lparr>t_ss0 := ss0, t_esp0 := esp0, t_iomap_base := of_nat sizeof_tss\<rparr>\<rparr>;
     s \<leftarrow> set_gdt 5 (init_gdt_descriptor tss_addr (of_nat sizeof_tss - 1) 0x89 0x0) s;
     let s = s\<lparr>tr := 0x28\<rparr>;
     Some (serial_line ''[SYS - TSS] TSS inicializado'' s) }"

definition tss_set_kernel_stack :: "u32 \<Rightarrow> 'a segments_scheme \<Rightarrow> 'a segments_scheme" where
  "tss_set_kernel_stack esp0 s = s\<lparr>tss := (tss s)\<lparr>t_esp0 := esp0\<rparr>\<rparr>"

subsection \<open>PIC and IDT\<close>

definition pic_init :: "'a machine_scheme \<Rightarrow> 'a machine_scheme" where
  "pic_init s =
     (let s = outb 0x20 0x11 s; s = outb 0xA0 0x11 s;
          s = outb 0x21 0x20 s; s = outb 0xA1 0x28 s;
          s = outb 0x21 0x04 s; s = outb 0xA1 0x02 s;
          s = outb 0x21 0x01 s; s = outb 0xA1 0x01 s;
          s = outb 0x21 0xFF s
      in outb 0xA1 0xFF s)"

definition pic_acknowledge :: "u32 \<Rightarrow> 'a machine_scheme \<Rightarrow> 'a machine_scheme" where
  "pic_acknowledge interrupt s =
     (if interrupt < 0x20 \<or> interrupt > 0x28 + 7 then s
      else if interrupt < 0x28 then outb 0x20 0x20 s
      else outb 0xA0 0x20 s)"

definition init_idt_desc :: "u16 \<Rightarrow> u32 \<Rightarrow> u16 \<Rightarrow> idt_descriptor" where
  "init_idt_desc select offset typ = \<lparr>
     offset_low = ucast (offset AND 0xFFFF),
     segment_selector = select,
     reserved = 0,
     type_attr = ucast typ,
     offset_high = ucast (drop_bit 16 (offset AND 0xFFFF0000))\<rparr>"

definition set_idt :: "nat \<Rightarrow> idt_descriptor \<Rightarrow> 'a segments_scheme \<Rightarrow> 'a segments_scheme option" where
  "set_idt i d s = map_option (\<lambda>g. s\<lparr>idt_entries := g\<rparr>) (arr_set (idt_entries s) (of_nat i) d)"

definition init_idt :: "u32 \<Rightarrow> u32 \<Rightarrow> u32 \<Rightarrow> u32 \<Rightarrow> u32 \<Rightarrow> u32 \<Rightarrow> 'a segments_scheme \<Rightarrow> 'a segments_scheme option" where
  "init_idt idt_addr handler_32 handler_33 handler_39 handler_47 syscall_128 s = do {
     let s = s\<lparr>idt_global := (256 * 8 - 1, idt_addr)\<rparr>;
     s \<leftarrow> set_idt 32 (init_idt_desc 0x08 handler_32 0x8E) s;
     let s = serial_line ''[SYS - INTERRUPTS] Iniciou handler do timer'' s;
     s \<leftarrow> set_idt 33 (init_idt_desc 0x08 handler_33 0x8E) s;
     let s = serial_line ''[SYS - INTERRUPTS] Iniciou handler de teclado'' s;
     s \<leftarrow> set_idt 39 (init_idt_desc 0x08 handler_39 0x8E) s;
     s \<leftarrow> set_idt 47 (init_idt_desc 0x08 handler_47 0x8E) s;
     s \<leftarrow> set_idt 128 (init_idt_desc 0x08 syscall_128 0xEE) s;
     let s = serial_line ''[SYS - INTERRUPTS] Registrou handler syscall (0x80)'' s;
     let s = s\<lparr>idtr := idt_global s\<rparr>;
     let s = serial_line ''[SYS - INTERRUPTS] Iniciou IDT'' s;
     let s = pic_init s;
     let s = serial_line ''[SYS - INTERRUPTS] Iniciou PIC'' s;
     Some (outb 0x21 0xFC s) }"

subsection \<open>What the CPU reads from the tables\<close>

definition gdt_base :: "gdt_seg_descriptor \<Rightarrow> u32" where
  "gdt_base d = ucast (base_0_15 d) OR push_bit 16 (ucast (base_16_23 d)) OR push_bit 24 (ucast (base_24_31 d))"

definition gdt_limit :: "gdt_seg_descriptor \<Rightarrow> u32" where
  "gdt_limit d = ucast (limit_0_15 d) OR push_bit 16 (ucast (limit_16_19 d))"

definition idt_offset :: "idt_descriptor \<Rightarrow> u32" where
  "idt_offset d = ucast (offset_low d) OR push_bit 16 (ucast (offset_high d))"

text \<open>Privilege level and presence, bits 5-6 and 7 of the access byte of a segment or gate.\<close>

definition dpl :: "u8 \<Rightarrow> u8" where "dpl acc = drop_bit 5 acc AND 3"
definition present :: "u8 \<Rightarrow> bool" where "present acc \<longleftrightarrow> bit acc 7"

lemma field_masks:
  "(0xffff :: u32) = mask 16" "(0xff0000 :: u32) = push_bit 16 (mask 8)" "(0xf0000 :: u32) = push_bit 16 (mask 4)"
  "(0xff000000 :: u32) = push_bit 24 (mask 8)" "(0xFFFF0000 :: u32) = push_bit 16 (mask 16)"
  by (simp_all add: mask_numeral)

lemma gdt_base_init: "gdt_base (init_gdt_descriptor base limite acces flags) = base"
proof (rule bit_word_eqI)
  fix n :: nat assume "n < LENGTH(32)"
  then consider "n < 16" | "16 \<le> n" "n < 24" | "24 \<le> n" "n < 32" by force
  then show "bit (gdt_base (init_gdt_descriptor base limite acces flags)) n = bit base n"
    unfolding gdt_base_def init_gdt_descriptor_def field_masks by cases (auto simp: bit_simps)
qed

lemma gdt_limit_init: "gdt_limit (init_gdt_descriptor base limite acces flags) = limite AND 0xFFFFF"
proof (rule bit_word_eqI)
  have m: "(0xFFFFF :: u32) = mask 20" by (simp add: mask_numeral)
  fix n :: nat assume "n < LENGTH(32)"
  then consider "n < 16" | "16 \<le> n" "n < 20" | "20 \<le> n" "n < 32" by force
  then show "bit (gdt_limit (init_gdt_descriptor base limite acces flags)) n = bit (limite AND 0xFFFFF) n"
    unfolding gdt_limit_def init_gdt_descriptor_def field_masks m by cases (auto simp: bit_simps)
qed

lemma idt_offset_init: "idt_offset (init_idt_desc select offset typ) = offset"
proof (rule bit_word_eqI)
  fix n :: nat assume "n < LENGTH(32)"
  then consider "n < 16" | "16 \<le> n" "n < 32" by force
  then show "bit (idt_offset (init_idt_desc select offset typ)) n = bit offset n"
    unfolding idt_offset_def init_idt_desc_def field_masks by cases (auto simp: bit_simps)
qed

subsection \<open>Properties\<close>

lemma set_gdt_Some:
  "i < length (gdt_descriptors s) \<Longrightarrow> i < 2 ^ 32 \<Longrightarrow> set_gdt i d s = Some (s\<lparr>gdt_descriptors := (gdt_descriptors s)[i := d]\<rparr>)"
  by (simp add: set_gdt_def unat_of_nat take_bit_nat_eq_self)

lemma set_idt_Some:
  "i < length (idt_entries s) \<Longrightarrow> i < 2 ^ 32 \<Longrightarrow> set_idt i d s = Some (s\<lparr>idt_entries := (idt_entries s)[i := d]\<rparr>)"
  by (simp add: set_idt_def unat_of_nat take_bit_nat_eq_self)

text \<open>
  A segment descriptor gives back the base and the low twenty bits of the limit it was built from,
  with the access byte and the four flag bits.
\<close>

theorem gdt_descriptor_roundtrip:
  "gdt_base (init_gdt_descriptor base limite acces flags) = base \<and>
   gdt_limit (init_gdt_descriptor base limite acces flags) = limite AND 0xFFFFF \<and>
   access_byte (init_gdt_descriptor base limite acces flags) = acces \<and>
   ucast (gdt_flags (init_gdt_descriptor base limite acces flags)) = flags AND 0xF"
proof -
  have m: "(0xF :: u8) = mask 4" by (simp add: mask_numeral)
  have "ucast (gdt_flags (init_gdt_descriptor base limite acces flags)) = flags AND 0xF"
    unfolding m by (rule bit_word_eqI) (auto simp: init_gdt_descriptor_def m bit_simps)
  moreover have "access_byte (init_gdt_descriptor base limite acces flags) = acces" by (simp add: init_gdt_descriptor_def)
  ultimately show ?thesis by (simp only: gdt_base_init gdt_limit_init simp_thms)
qed

text \<open>
  After \<open>init_gdt\<close> and \<open>tss_init\<close> the six descriptors are the null descriptor, flat present code and
  data segments of privilege 0 and of privilege 3, and the 104 bytes of the task state, which holds
  the kernel stack for the switch from user mode; the registers name them.
\<close>

theorem boot_segments:
  assumes "length (gdt_descriptors s) = 6"
  shows "\<exists>s'. (init_gdt gdt_addr 6 s \<bind> tss_init tss_addr ss0 esp0) = Some s' \<and>
    (let g = gdt_descriptors s' in
     access_byte (g ! 0) = 0 \<and>
     list_all (\<lambda>d. present (access_byte d) \<and> dpl (access_byte d) = 0 \<and> gdt_base d = 0 \<and> gdt_limit d = 0xFFFFF) [g ! 1, g ! 2] \<and>
     list_all (\<lambda>d. present (access_byte d) \<and> dpl (access_byte d) = 3 \<and> gdt_base d = 0 \<and> gdt_limit d = 0xFFFFF) [g ! 3, g ! 4] \<and>
     present (access_byte (g ! 5)) \<and> dpl (access_byte (g ! 5)) = 0 \<and> gdt_base (g ! 5) = tss_addr \<and> gdt_limit (g ! 5) = 103) \<and>
    gdtr s' = (47, gdt_addr) \<and> seg_cs s' = 8 \<and> seg_data s' = 0x10 \<and> tr s' = 0x28 \<and>
    t_esp0 (tss s') = esp0 \<and> t_ss0 (tss s') = ss0"
proof -
  show ?thesis using assms
    by (simp add: init_gdt_def tss_init_def set_gdt_Some serial_line_def gdt_base_init gdt_limit_init)
      (simp add: init_gdt_descriptor_def present_def dpl_def)
qed

text \<open>Descriptor tables with nothing in them, as the linker leaves them.\<close>

definition null_gdt :: gdt_seg_descriptor where
  "null_gdt = init_gdt_descriptor 0 0 0 0"

definition null_idt :: idt_descriptor where
  "null_idt = init_idt_desc 0 0 0"

definition sample_segments :: segments where
  "sample_segments = \<lparr>port_out = [], serial_log = [], cr3 = 0x200000, stale = {}, bitmap = replicate 2048 0, start_frame = 300,
     total_frames = 16384, page_directory = [], kernel_page_table = [], pmem = (\<lambda>_ _. 0), base_addr = 0, hdrs = (\<lambda>_. \<lparr>hnext = 0, hsize = 0\<rparr>),
     freep = 0, heap_current = 0, heap_max = 0, gdt_descriptors = replicate 6 null_gdt, gdt_global = (0, 0), gdtr = (0, 0), seg_cs = 0, seg_data = 0,
     tss = zero_tss, tr = 0, idt_entries = replicate 256 null_idt, idt_global = (0, 0), idtr = (0, 0)\<rparr>"

theorem boot_segments_witness:
  "\<exists>s'. (init_gdt 0xC0100000 6 sample_segments \<bind> tss_init 0xC0102000 0x10 0xC0103000) = Some s' \<and>
    gdt_base (gdt_descriptors s' ! 5) = 0xC0102000 \<and> dpl (access_byte (gdt_descriptors s' ! 3)) = 3"
  using boot_segments [of sample_segments "0xC0100000" "0xC0102000" "0x10" "0xC0103000"] by (auto simp: sample_segments_def)

text \<open>
  C33.  After \<open>init_idt\<close> on an empty table, an interrupt gate is present exactly at vectors 32, 33, 39, 47
  and 128; each leads to its handler in the kernel code segment, and only the gate 128 of the system
  calls can be used by a program of privilege 3.  The interrupt controllers deliver their lines at
  vectors 32 to 47, with only the timer and the keyboard unmasked.
\<close>

theorem interrupt_gates:
  assumes "idt_entries s = replicate 256 null_idt"
  shows "\<exists>s'. init_idt idt_addr h32 h33 h39 h47 h128 s = Some s' \<and>
    (\<forall>v < 256. present (type_attr (idt_entries s' ! v)) \<longleftrightarrow> v \<in> {32, 33, 39, 47, 128}) \<and>
    (\<forall>v < 256. dpl (type_attr (idt_entries s' ! v)) = 3 \<longleftrightarrow> v = 128) \<and>
    map (\<lambda>v. idt_offset (idt_entries s' ! v)) [32, 33, 39, 47, 128] = [h32, h33, h39, h47, h128] \<and>
    (\<forall>v \<in> {32, 33, 39, 47, 128}. segment_selector (idt_entries s' ! v) = 8) \<and>
    idtr s' = (2047, idt_addr) \<and>
    port_out s' = port_out s @ [(0x20, 0x11), (0xA0, 0x11), (0x21, 0x20), (0xA1, 0x28), (0x21, 0x04), (0xA1, 0x02),
      (0x21, 0x01), (0xA1, 0x01), (0x21, 0xFF), (0xA1, 0xFF), (0x21, 0xFC)]"
proof -
  have attr: "type_attr (init_idt_desc sel off ty) = ucast ty" "segment_selector (init_idt_desc sel off ty) = sel" for sel off ty
    by (simp_all add: init_idt_desc_def)
  have null: "\<not> present (type_attr null_idt)" "dpl (type_attr null_idt) = 0"
    by (simp_all add: null_idt_def attr present_def dpl_def)
  let ?e = "(replicate 256 null_idt)[32 := init_idt_desc 8 h32 0x8E, 33 := init_idt_desc 8 h33 0x8E, 39 := init_idt_desc 8 h39 0x8E,
     47 := init_idt_desc 8 h47 0x8E, 128 := init_idt_desc 8 h128 0xEE]"
  obtain s' where s': "init_idt idt_addr h32 h33 h39 h47 h128 s = Some s'" "idt_entries s' = ?e" "idtr s' = (2047, idt_addr)"
    "port_out s' = port_out s @ [(0x20, 0x11), (0xA0, 0x11), (0x21, 0x20), (0xA1, 0x28), (0x21, 0x04), (0xA1, 0x02),
      (0x21, 0x01), (0xA1, 0x01), (0x21, 0xFF), (0xA1, 0xFF), (0x21, 0xFC)]"
    using assms by (simp add: init_idt_def set_idt_Some serial_line_def pic_init_def outb_def)
  have "present (type_attr (?e ! v)) \<longleftrightarrow> v \<in> {32, 33, 39, 47, 128}" if "v < 256" for v
    using that null by (auto simp: nth_list_update attr present_def)
  moreover have "dpl (type_attr (?e ! v)) = 3 \<longleftrightarrow> v = 128" if "v < 256" for v
    using that null by (auto simp: nth_list_update attr dpl_def)
  ultimately show ?thesis
    using s'(1,3,4) unfolding s'(2) [symmetric] by (auto simp: s'(2) attr idt_offset_init)
qed

theorem interrupt_gates_witness:
  "\<exists>s'. init_idt 0xC0104000 1 2 3 4 5 sample_segments = Some s' \<and> (\<forall>v < 256. dpl (type_attr (idt_entries s' ! v)) = 3 \<longleftrightarrow> v = 128)"
proof -
  have "idt_entries sample_segments = replicate 256 null_idt" by (simp only: sample_segments_def segments.select_convs)
  from interrupt_gates [OF this] show ?thesis by blast
qed

text \<open>
  Acknowledging: an interrupt of the first controller is acknowledged there and nowhere else, a
  vector that belongs to no controller nowhere; an interrupt of the second controller (40 to 47) is
  acknowledged only at the second one, although it reached the processor through the first.
\<close>

theorem pic_acknowledge_ports:
  "port_out (pic_acknowledge v s) = port_out s @
     (if unat v \<in> {32..39} then [(0x20, 0x20)] else if unat v \<in> {40..47} then [(0xA0, 0x20)] else [])"
  by (auto simp: pic_acknowledge_def outb_def word_less_nat_alt)

end
