(* ===== verification/Queue_Interface.thy ===== *)
theory Queue_Interface
  imports Kernel_Prelude "HOL-Library.Multiset"
begin

text \<open>
  The contracts of a queue of pointers that the scheduler works with, as locales.  A \<open>picker\<close> takes the
  entry some policy chooses; a \<open>bounded_fifo\<close> is a picker of the oldest entry with an enqueue operation
  and a capacity.  Both are interpreted in the theory of the scheduler on its own operations.
\<close>

text \<open>
  What the rest of the kernel relies on when it uses the ready queue as a FIFO queue: \<open>enq\<close> appends
  or, with a null pointer or no room, reports \<open>-1\<close> and changes nothing; \<open>deq\<close> takes the oldest entry
  or reports a null pointer.
\<close>

primrec enqueue_all :: "('p \<Rightarrow> 's \<Rightarrow> (int \<times> 's) option) \<Rightarrow> 'p list \<Rightarrow> 's \<Rightarrow> 's option" where
  "enqueue_all enq [] s = Some s"
| "enqueue_all enq (p # ps) s = do { (r, s) \<leftarrow> enq p s; if r = 0 then enqueue_all enq ps s else None }"

primrec take_all :: "('s \<Rightarrow> ('p \<times> 's) option) \<Rightarrow> nat \<Rightarrow> 's \<Rightarrow> ('p list \<times> 's) option" where
  "take_all deq 0 s = Some ([], s)"
| "take_all deq (Suc n) s = do { (p, s) \<leftarrow> deq s; (ps, s) \<leftarrow> take_all deq n s; Some (p # ps, s) }"

locale picker =
  fixes inv :: "'s \<Rightarrow> bool" and content :: "'s \<Rightarrow> u32 list" and same :: "'s \<Rightarrow> 's \<Rightarrow> bool"
    and chosen :: "'s \<Rightarrow> nat" and pick :: "'s \<Rightarrow> (u32 \<times> 's) option"
  assumes pick_empty: "inv s \<Longrightarrow> content s = [] \<Longrightarrow> pick s = Some (0, s)"
    and chosen_less: "inv s \<Longrightarrow> content s \<noteq> [] \<Longrightarrow> chosen s < length (content s)"
    and pick_takes: "inv s \<Longrightarrow> content s \<noteq> [] \<Longrightarrow>
      \<exists>s'. pick s = Some (content s ! chosen s, s') \<and> inv s' \<and> same s s' \<and>
        content s' = take (chosen s) (content s) @ drop (Suc (chosen s)) (content s)"
begin

lemma pick_mset:
  assumes "inv s" and "content s \<noteq> []" and "pick s = Some (p, s')"
  shows "mset (content s) = add_mset p (mset (content s'))"
proof -
  let ?k = "chosen s"
  have "mset (content s) = mset (take ?k (content s) @ content s ! ?k # drop (Suc ?k) (content s))"
    using chosen_less [OF assms(1,2)] by (simp add: id_take_nth_drop [symmetric])
  then show ?thesis using pick_takes [OF assms(1,2)] assms(3) by auto
qed

text \<open>Taking as many entries as the queue holds never fails, empties it and returns each entry once.\<close>

lemma take_all_mset:
  assumes "inv s"
  shows "\<exists>ps s'. take_all pick (length (content s)) s = Some (ps, s') \<and> mset ps = mset (content s) \<and>
    inv s' \<and> content s' = []"
  using assms
proof (induction "length (content s)" arbitrary: s)
  case 0
  then show ?case by simp
next
  case (Suc n)
  then have ne: "content s \<noteq> []" by auto
  obtain s1 where s1: "pick s = Some (content s ! chosen s, s1)" "inv s1"
    using pick_takes [OF Suc.prems ne] by blast
  have m: "mset (content s) = add_mset (content s ! chosen s) (mset (content s1))"
    using pick_mset [OF Suc.prems ne s1(1)] .
  then have n: "n = length (content s1)" using Suc.hyps(2) by (metis diff_Suc_1 size_add_mset size_mset)
  then obtain ps s' where "take_all pick n s1 = Some (ps, s')" "mset ps = mset (content s1)" "inv s'" "content s' = []"
    using Suc.hyps(1) s1(2) by blast
  then show ?case using s1(1) m by (simp flip: Suc.hyps(2))
qed

end

locale bounded_fifo =
  picker inv content same "\<lambda>_. 0" deq
  for inv :: "'s \<Rightarrow> bool" and content :: "'s \<Rightarrow> u32 list" and same :: "'s \<Rightarrow> 's \<Rightarrow> bool"
    and deq :: "'s \<Rightarrow> (u32 \<times> 's) option" +
  fixes enq :: "u32 \<Rightarrow> 's \<Rightarrow> (int \<times> 's) option" and cap :: nat
  assumes enq_appends: "inv s \<Longrightarrow> p \<noteq> 0 \<Longrightarrow> length (content s) < cap \<Longrightarrow>
      \<exists>s'. enq p s = Some (0, s') \<and> inv s' \<and> same s s' \<and> content s' = content s @ [p]"
    and enq_refuses: "inv s \<Longrightarrow> p = 0 \<or> length (content s) \<ge> cap \<Longrightarrow> enq p s = Some (-1, s)"
begin

lemma deq_oldest:
  assumes "inv s" and "content s = x # xs"
  shows "\<exists>s'. deq s = Some (x, s') \<and> inv s' \<and> same s s' \<and> content s' = xs"
  using pick_takes [OF assms(1)] assms(2) by auto

lemma enqueue_all_appends:
  assumes "inv s" and "0 \<notin> set ps" and "length (content s) + length ps \<le> cap"
  shows "\<exists>s'. enqueue_all enq ps s = Some s' \<and> inv s' \<and> content s' = content s @ ps"
  using assms
proof (induction ps arbitrary: s)
  case (Cons p ps)
  then obtain s1 where s1: "enq p s = Some (0, s1)" "inv s1" "content s1 = content s @ [p]"
    using enq_appends [of s p] by auto
  then show ?case using Cons.IH [of s1] Cons.prems by simp
qed simp

lemma take_all_oldest:
  assumes "inv s" and "content s = ps @ qs"
  shows "\<exists>s'. take_all deq (length ps) s = Some (ps, s') \<and> inv s' \<and> content s' = qs"
  using assms
proof (induction ps arbitrary: s)
  case (Cons p ps)
  then obtain s1 where "deq s = Some (p, s1)" "inv s1" "content s1 = ps @ qs"
    using deq_oldest [of s p "ps @ qs"] by auto
  then show ?case using Cons.IH [of s1] by auto
qed simp

lemma fifo:
  assumes "inv s" and "0 \<notin> set ps" and "length (content s) + length ps \<le> cap"
  shows "\<exists>s1 s2. enqueue_all enq ps s = Some s1 \<and>
    take_all deq (length (content s) + length ps) s1 = Some (content s @ ps, s2) \<and> content s2 = []"
  using enqueue_all_appends [OF assms] take_all_oldest [of _ "content s @ ps" "[]"] by fastforce

end

end
