(* ===== verification/Scheduler.thy ===== *)
theory Scheduler
  imports Segments Queue_Interface
begin

text \<open>
  The scheduler, \<open>src/scheduler/scheduler.c\<close>, with the process control block of
  \<open>include/process/process.h\<close>: process identifiers, the circular ready queue of 32 entries, the FCFS,
  SJF and round-robin policies, burst prediction, telemetry lines and the switch of contexts.
  Process control blocks are objects of the kernel heap, found by address in \<open>pcbs\<close>; a use of an
  address that holds no control block is a failure.  \<open>pit_ticks\<close> is the tick counter of
  \<open>src/interrupts/pit.c\<close>.
\<close>

subsection \<open>The data\<close>

text \<open>
  \<open>struct process_context\<close>; \<open>struct syscall_frame\<close> has the same twelve words in the same order and is
  cast to it by the system calls.
\<close>

record process_context =
  c_ebp :: u32
  c_edi :: u32
  c_esi :: u32
  c_edx :: u32
  c_ecx :: u32
  c_ebx :: u32
  c_eax :: u32
  c_eip :: u32
  c_cs :: u32
  c_eflags :: u32
  c_user_esp :: u32
  c_user_ss :: u32

record PCB =
  pid :: u32
  ppid :: u32
  pdt :: u32
  eip :: u32
  esp :: u32
  eflags :: u32
  cs :: u32
  ss :: u32
  kernel_stack_base :: u32
  kernel_esp0 :: u32
  state :: u32
  burst_time :: u32
  predicted_burst :: u32
  last_dispatch_tick :: u32
  pcb_context :: process_context

abbreviation (input) PROCESS_STATE_READY :: u32 where "PROCESS_STATE_READY \<equiv> 0"
abbreviation (input) PROCESS_STATE_RUNNING :: u32 where "PROCESS_STATE_RUNNING \<equiv> 1"
abbreviation (input) PROCESS_STATE_BLOCKED :: u32 where "PROCESS_STATE_BLOCKED \<equiv> 2"
abbreviation (input) PROCESS_STATE_TERMINATED :: u32 where "PROCESS_STATE_TERMINATED \<equiv> 3"

abbreviation (input) CAPACITY :: u32 where "CAPACITY \<equiv> 32"
abbreviation (input) POLICY_FCFS :: u32 where "POLICY_FCFS \<equiv> 0"
abbreviation (input) POLICY_SJF :: u32 where "POLICY_SJF \<equiv> 1"
abbreviation (input) POLICY_RR :: u32 where "POLICY_RR \<equiv> 2"

abbreviation (input) STAT_EVENT_CREATED :: u32 where "STAT_EVENT_CREATED \<equiv> 0"
abbreviation (input) STAT_EVENT_SCHEDULED :: u32 where "STAT_EVENT_SCHEDULED \<equiv> 1"
abbreviation (input) STAT_EVENT_YIELDED :: u32 where "STAT_EVENT_YIELDED \<equiv> 2"
abbreviation (input) STAT_EVENT_PREEMPTED :: u32 where "STAT_EVENT_PREEMPTED \<equiv> 3"
abbreviation (input) STAT_EVENT_TERMINATED :: u32 where "STAT_EVENT_TERMINATED \<equiv> 4"
abbreviation (input) STAT_CONTEXT_YIELD :: u32 where "STAT_CONTEXT_YIELD \<equiv> 1"
abbreviation (input) STAT_CONTEXT_PIT :: u32 where "STAT_CONTEXT_PIT \<equiv> 2"
abbreviation (input) STAT_CONTEXT_FORK :: u32 where "STAT_CONTEXT_FORK \<equiv> 3"
abbreviation (input) STAT_CONTEXT_EXEC :: u32 where "STAT_CONTEXT_EXEC \<equiv> 4"
abbreviation (input) STAT_CONTEXT_EXIT :: u32 where "STAT_CONTEXT_EXIT \<equiv> 5"

record sched = segments +
  pit_ticks :: u32
  pcbs :: "u32 \<Rightarrow> PCB option"
  current_pcb :: u32
  preemption_enabled :: u8
  next_pid :: u32
  ready_queue :: "u32 list"
  ready_head :: u32
  ready_tail :: u32
  ready_len :: u32
  scheduling_policy :: u32
  quantum_ticks :: u32
  remaining_ticks :: u32

text \<open>Assignment to fields of the control block at an address.\<close>

definition pcb_update :: "u32 \<Rightarrow> (PCB \<Rightarrow> PCB) \<Rightarrow> 'a sched_scheme \<Rightarrow> 'a sched_scheme option" where
  "pcb_update p f s = map_option (\<lambda>c. s\<lparr>pcbs := (pcbs s)(p := Some (f c))\<rparr>) (pcbs s p)"

subsection \<open>Telemetry lines\<close>

text \<open>
  \<open>append_u32\<close> writes the decimal digits into a buffer at \<open>pos\<close>; the buffer is the text written so
  far, and its size is checked by the theorems on the two lines.  The digits come out of \<open>tmp\<close> in
  reverse order, at most ten of them.
\<close>

function u32_digits :: "u32 \<Rightarrow> nat \<Rightarrow> string \<Rightarrow> string" where
  "u32_digits v len tmp =
     (if v > 0 \<and> len < 10
      then u32_digits (v div 10) (Suc len) (tmp @ [char_of (48 + unat (v mod 10))])
      else tmp)"
  by pat_completeness auto
termination
  by (relation "measure (\<lambda>(v, len, tmp). 10 - len)") auto

declare u32_digits.simps [simp del]

definition append_u32 :: "string \<Rightarrow> u32 \<Rightarrow> string" where
  "append_u32 buf v = (if v = 0 then buf @ ''0'' else buf @ rev (u32_digits v 0 []))"

primrec append_literal :: "string \<Rightarrow> string \<Rightarrow> string" where
  "append_literal buf [] = buf"
| "append_literal buf (c # text) = append_literal (buf @ [c]) text"

definition log_sjf_pick :: "u32 \<Rightarrow> u32 \<Rightarrow> 'a machine_scheme \<Rightarrow> 'a machine_scheme" where
  "log_sjf_pick pd burst s =
     (let line = append_literal [] ''[SJF] Picking PID '';
          line = append_u32 line pd;
          line = append_literal line '' with Burst '';
          line = append_u32 line burst
      in serial_line line s)"

definition log_process_stat :: "u32 \<Rightarrow> u32 \<Rightarrow> u32 \<Rightarrow> 'a sched_scheme \<Rightarrow> 'a sched_scheme" where
  "log_process_stat pd event_id context_id s =
     (let ticks = pit_ticks s;
          line = ''[STAT] '';
          line = append_u32 line pd;
          line = line @ '','';
          line = append_u32 line ticks;
          line = line @ '','';
          line = append_u32 line event_id;
          line = line @ '','';
          line = append_u32 line context_id
      in serial_line line s)"

definition log_process_exit :: "u32 \<Rightarrow> 'a sched_scheme \<Rightarrow> 'a sched_scheme" where
  "log_process_exit pd = log_process_stat pd STAT_EVENT_TERMINATED STAT_CONTEXT_EXIT"

subsection \<open>Settings and process identifiers\<close>

definition scheduler_init :: "'a sched_scheme \<Rightarrow> 'a sched_scheme" where
  "scheduler_init s = s\<lparr>current_pcb := 0, preemption_enabled := 0, next_pid := 1, ready_head := 0,
     ready_tail := 0, ready_len := 0, remaining_ticks := quantum_ticks s\<rparr>"

definition scheduler_set_policy :: "u32 \<Rightarrow> 'a sched_scheme \<Rightarrow> 'a sched_scheme" where
  "scheduler_set_policy policy s = s\<lparr>scheduling_policy := policy\<rparr>"

definition scheduler_set_quantum :: "u32 \<Rightarrow> 'a sched_scheme \<Rightarrow> 'a sched_scheme" where
  "scheduler_set_quantum ticks s =
     (let ticks = (if ticks = 0 then 1 else ticks)
      in s\<lparr>quantum_ticks := ticks, remaining_ticks := ticks\<rparr>)"

definition scheduler_get_quantum :: "'a sched_scheme \<Rightarrow> u32" where
  "scheduler_get_quantum s = quantum_ticks s"

definition kernel_enable_preemption :: "'a sched_scheme \<Rightarrow> 'a sched_scheme" where
  "kernel_enable_preemption s = s\<lparr>preemption_enabled := 1\<rparr>"

definition kernel_disable_preemption :: "'a sched_scheme \<Rightarrow> 'a sched_scheme" where
  "kernel_disable_preemption s = s\<lparr>preemption_enabled := 0\<rparr>"

definition scheduler_allocate_pid :: "'a sched_scheme \<Rightarrow> u32 \<times> 'a sched_scheme" where
  "scheduler_allocate_pid s =
     (let pd = next_pid s;
          s = s\<lparr>next_pid := next_pid s + 1\<rparr>;
          s = (if next_pid s = 0 then s\<lparr>next_pid := 1\<rparr> else s)
      in (pd, s))"

definition scheduler_set_current :: "u32 \<Rightarrow> 'a sched_scheme \<Rightarrow> 'a sched_scheme option" where
  "scheduler_set_current p s =
     (let s = s\<lparr>current_pcb := p\<rparr>
      in if p \<noteq> 0 then pcb_update p (\<lambda>c. c\<lparr>last_dispatch_tick := pit_ticks s\<rparr>) s else Some s)"

definition scheduler_get_current :: "'a sched_scheme \<Rightarrow> u32" where
  "scheduler_get_current s = current_pcb s"

definition scheduler_ready_count :: "'a sched_scheme \<Rightarrow> u32" where
  "scheduler_ready_count s = ready_len s"

subsection \<open>The ready queue and the policies\<close>

text \<open>C's \<open>-1\<close> and \<open>0\<close> results are \<open>int\<close>.\<close>

definition scheduler_enqueue_ready :: "u32 \<Rightarrow> 'a sched_scheme \<Rightarrow> (int \<times> 'a sched_scheme) option" where
  "scheduler_enqueue_ready p s =
     (if p = 0 then Some (-1, s)
      else if ready_len s \<ge> CAPACITY then Some (-1, s)
      else do {
        q \<leftarrow> arr_set (ready_queue s) (ready_tail s) p;
        Some (0, s\<lparr>ready_queue := q, ready_tail := (ready_tail s + 1) mod CAPACITY,
                   ready_len := ready_len s + 1\<rparr>) })"

definition scheduler_dequeue_ready :: "'a sched_scheme \<Rightarrow> (u32 \<times> 'a sched_scheme) option" where
  "scheduler_dequeue_ready s =
     (if ready_len s = 0 then Some (0, s)
      else do {
        p \<leftarrow> arr_get (ready_queue s) (ready_head s);
        Some (p, s\<lparr>ready_head := (ready_head s + 1) mod CAPACITY, ready_len := ready_len s - 1\<rparr>) })"

definition predicted_burst_for_sjf :: "u32 \<Rightarrow> 'a sched_scheme \<Rightarrow> u32 option" where
  "predicted_burst_for_sjf p s =
     (if p = 0 then Some 0xFFFFFFFF
      else do {
        c \<leftarrow> pcbs s p;
        Some (if state c \<noteq> PROCESS_STATE_READY then 0xFFFFFFFF
              else if predicted_burst c = 0 then 0xFFFFFFFF
              else predicted_burst c) })"

text \<open>The search of \<open>scheduler_dequeue_sjf\<close>: \<open>best_index\<close> and \<open>best_burst\<close> after the loop.\<close>

definition sjf_search :: "'a sched_scheme \<Rightarrow> (u32 \<times> u32) option" where
  "sjf_search s = for_range 0 (unat (ready_len s)) (\<lambda>i (best_index, best_burst). do {
     let idx = (ready_head s + of_nat i) mod CAPACITY;
     candidate \<leftarrow> arr_get (ready_queue s) idx;
     candidate_burst \<leftarrow> predicted_burst_for_sjf candidate s;
     Some (if best_index = CAPACITY \<or> candidate_burst < best_burst
           then (of_nat i, candidate_burst) else (best_index, best_burst)) }) (CAPACITY, 0xFFFFFFFF)"

text \<open>The loop that closes the gap left by entry \<open>best_index\<close>.\<close>

definition sjf_shift :: "u32 \<Rightarrow> 'a sched_scheme \<Rightarrow> 'a sched_scheme option" where
  "sjf_shift best_index s = for_range (unat best_index) (unat (ready_len s - 1)) (\<lambda>i s. do {
     let dst = (ready_head s + of_nat i) mod CAPACITY;
     let src = (ready_head s + of_nat i + 1) mod CAPACITY;
     v \<leftarrow> arr_get (ready_queue s) src;
     q \<leftarrow> arr_set (ready_queue s) dst v;
     Some (s\<lparr>ready_queue := q\<rparr>) }) s"

definition scheduler_dequeue_sjf :: "'a sched_scheme \<Rightarrow> (u32 \<times> 'a sched_scheme) option" where
  "scheduler_dequeue_sjf s =
     (if ready_len s = 0 then Some (0, s)
      else do {
        (best_index, best_burst) \<leftarrow> sjf_search s;
        if best_index = CAPACITY then Some (0, s)
        else do {
          let abs_index = (ready_head s + best_index) mod CAPACITY;
          best_pcb \<leftarrow> arr_get (ready_queue s) abs_index;
          s \<leftarrow> sjf_shift best_index s;
          let s = s\<lparr>ready_tail := (if ready_tail s = 0 then CAPACITY - 1 else ready_tail s - 1),
                    ready_len := ready_len s - 1\<rparr>;
          c \<leftarrow> pcbs s best_pcb;
          Some (best_pcb, log_sjf_pick (pid c) (predicted_burst c) s) } })"

definition scheduler_pick_next :: "'a sched_scheme \<Rightarrow> (u32 \<times> 'a sched_scheme) option" where
  "scheduler_pick_next s =
     (if scheduling_policy s = POLICY_SJF then scheduler_dequeue_sjf s
      else if scheduling_policy s = POLICY_RR then scheduler_dequeue_ready s
      else scheduler_dequeue_ready s)"

subsection \<open>Burst prediction and the context switch\<close>

definition scheduler_update_burst_prediction :: "u32 \<Rightarrow> PCB \<Rightarrow> PCB" where
  "scheduler_update_burst_prediction now_ticks c =
     (let elapsed = (if now_ticks \<ge> last_dispatch_tick c then now_ticks - last_dispatch_tick c else 1);
          elapsed = (if elapsed = 0 then 1 else elapsed);
          c = c\<lparr>burst_time := elapsed\<rparr>;
          c = (if predicted_burst c = 0 then c\<lparr>predicted_burst := elapsed\<rparr>
               else c\<lparr>predicted_burst := (predicted_burst c + elapsed) div 2\<rparr>)
      in if predicted_burst c = 0 then c\<lparr>predicted_burst := 1\<rparr> else c)"

definition scheduler_init_context_from_pcb :: "PCB \<Rightarrow> PCB" where
  "scheduler_init_context_from_pcb c = c\<lparr>pcb_context := \<lparr>c_ebp = 0, c_edi = 0, c_esi = 0, c_edx = 0,
     c_ecx = 0, c_ebx = 0, c_eax = 0, c_eip = eip c, c_cs = cs c, c_eflags = eflags c,
     c_user_esp = esp c, c_user_ss = ss c\<rparr>\<rparr>"

definition save_context :: "process_context \<Rightarrow> PCB \<Rightarrow> PCB" where
  "save_context ctx c = c\<lparr>pcb_context := ctx, eip := c_eip ctx, esp := c_user_esp ctx,
     eflags := c_eflags ctx, cs := c_cs ctx, ss := c_user_ss ctx\<rparr>"

text \<open>
  The part of \<open>scheduler_schedule_from_context\<close> after the choice of the next process (363-392), in two
  definitions.  \<open>enter_process\<close> is lines 372-385, which log the switch, restart the quantum and load
  the address space and the kernel stack of the next process; \<open>switch_to_next\<close> returns the result, the
  context left in the caller's frame and the new state.
\<close>

definition enter_process :: "PCB \<Rightarrow> PCB \<Rightarrow> u32 \<Rightarrow> 'a sched_scheme \<Rightarrow> 'a sched_scheme" where
  "enter_process cc cn context_id s =
     (let s = (if context_id \<noteq> STAT_CONTEXT_EXIT
               then log_process_stat (pid cc)
                      (if context_id = STAT_CONTEXT_PIT then STAT_EVENT_PREEMPTED else STAT_EVENT_YIELDED)
                      context_id s
               else s);
          s = log_process_stat (pid cn) STAT_EVENT_SCHEDULED context_id s;
          s = (if scheduling_policy s = POLICY_RR then s\<lparr>remaining_ticks := quantum_ticks s\<rparr> else s);
          s = (if pdt cn \<noteq> pdt cc then update_cr3 (pdt cn) s else s)
      in tss_set_kernel_stack (kernel_esp0 cn) s)"

definition switch_to_next ::
    "u32 \<Rightarrow> process_context \<Rightarrow> u32 \<Rightarrow> 'a sched_scheme \<Rightarrow> (int \<times> process_context \<times> 'a sched_scheme) option" where
  "switch_to_next current ctx context_id s = do {
     (nxt, s) \<leftarrow> scheduler_pick_next s;
     if nxt = 0 then do {
       s \<leftarrow> pcb_update current (\<lambda>c. c\<lparr>state := PROCESS_STATE_RUNNING\<rparr>) s;
       Some (0, ctx, s) }
     else do {
       s \<leftarrow> scheduler_set_current nxt s;
       s \<leftarrow> pcb_update nxt (\<lambda>c. c\<lparr>state := PROCESS_STATE_RUNNING\<rparr>) s;
       cc \<leftarrow> pcbs s current;
       cn \<leftarrow> pcbs s nxt;
       let s = enter_process cc cn context_id s;
       s \<leftarrow> (if c_cs (pcb_context cn) = 0 then pcb_update nxt scheduler_init_context_from_pcb s else Some s);
       cn \<leftarrow> pcbs s nxt;
       Some (1, (pcb_context cn)\<lparr>c_eflags := c_eflags (pcb_context cn) OR 0x200\<rparr>, s) } }"

text \<open>
  \<open>scheduler_schedule_from_context\<close>.  The context pointer is never null in the callers; its null test
  is the first argument being \<open>None\<close>.
\<close>

definition scheduler_schedule_from_context ::
    "process_context option \<Rightarrow> bool \<Rightarrow> u32 \<Rightarrow> 'a sched_scheme \<Rightarrow>
       (int \<times> process_context option \<times> 'a sched_scheme) option" where
  "scheduler_schedule_from_context context requeue_current context_id s =
     (case context of None \<Rightarrow> Some (-1, None, s)
      | Some ctx \<Rightarrow>
        (let current = scheduler_get_current s in
         if current = 0 then Some (-1, Some ctx, s)
         else if scheduling_policy s = POLICY_RR \<and> requeue_current \<and> remaining_ticks s > 1
         then Some (0, Some ctx, s\<lparr>remaining_ticks := remaining_ticks s - 1\<rparr>)
         else do {
           let s = (if scheduling_policy s = POLICY_RR \<and> requeue_current
                    then s\<lparr>remaining_ticks := quantum_ticks s\<rparr> else s);
           s \<leftarrow> pcb_update current (save_context ctx) s;
           (full, s) \<leftarrow> (if requeue_current then do {
               let now_ticks = pit_ticks s;
               s \<leftarrow> pcb_update current (scheduler_update_burst_prediction now_ticks) s;
               s \<leftarrow> pcb_update current (\<lambda>c. c\<lparr>state := PROCESS_STATE_READY\<rparr>) s;
               (r, s) \<leftarrow> scheduler_enqueue_ready current s;
               if r < 0 then do {
                 s \<leftarrow> pcb_update current (\<lambda>c. c\<lparr>state := PROCESS_STATE_RUNNING\<rparr>) s;
                 Some (True, s) }
               else Some (False, s) }
             else Some (False, s));
           if full then Some (0, Some ctx, s)
           else do {
             (r, ctx, s) \<leftarrow> switch_to_next current ctx context_id s;
             Some (r, Some ctx, s) } }))"

subsection \<open>The ready queue as a list\<close>

text \<open>
  \<open>rq_ok\<close> is the invariant of the circular queue: the head index is inside the array, at most 32
  entries are in use and the tail index is where the next entry goes.  \<open>ready_list\<close> is the queue the
  array stands for, oldest entry first.
\<close>

definition rq_ok :: "'a sched_scheme \<Rightarrow> bool" where
  "rq_ok s \<longleftrightarrow> length (ready_queue s) = 32 \<and> unat (ready_head s) < 32 \<and> unat (ready_len s) \<le> 32 \<and>
     unat (ready_tail s) = (unat (ready_head s) + unat (ready_len s)) mod 32"

definition ready_at :: "'a sched_scheme \<Rightarrow> nat \<Rightarrow> u32" where
  "ready_at s i = ready_queue s ! ((unat (ready_head s) + i) mod 32)"

definition ready_list :: "'a sched_scheme \<Rightarrow> u32 list" where
  "ready_list s = map (ready_at s) [0..<unat (ready_len s)]"

lemma length_ready_list [simp]: "length (ready_list s) = unat (ready_len s)"
  by (simp add: ready_list_def)

lemma ready_list_nth [simp]: "i < unat (ready_len s) \<Longrightarrow> ready_list s ! i = ready_at s i"
  by (simp add: ready_list_def)

lemma ring_index:
  assumes "unat (h :: u32) < 32" and "i \<le> 64"
  shows "unat ((h + of_nat i) mod 32) = (unat h + i) mod 32"
proof -
  have "unat (of_nat i :: u32) = i" using assms(2) by (simp add: unat_of_nat)
  then have "unat (h + of_nat i) = unat h + i" using assms by (subst unat_add_lem [THEN iffD1]) simp_all
  then show ?thesis by (simp add: unat_mod)
qed

lemma ring_index_less: "i < j \<Longrightarrow> j < 32 \<Longrightarrow> (h + i) mod 32 \<noteq> (h + j) mod (32 :: nat)"
  using mod_eq_dvd_iff_nat [of "h + i" "h + j" 32] dvd_imp_le [of 32 "j - i"] by auto

lemma ring_index_neq: "i < 32 \<Longrightarrow> j < 32 \<Longrightarrow> i \<noteq> j \<Longrightarrow> (h + i) mod 32 \<noteq> (h + j) mod (32 :: nat)"
  using ring_index_less [of i j h] ring_index_less [of j i h] by (cases "i < j") auto

lemma enqueue_ready_list:
  assumes ok: "rq_ok s" and p: "p \<noteq> 0" and room: "unat (ready_len s) < 32"
  shows "\<exists>q. scheduler_enqueue_ready p s = Some (0, s\<lparr>ready_queue := q, ready_tail := (ready_tail s + 1) mod 32,
     ready_len := ready_len s + 1\<rparr>) \<and>
     rq_ok (s\<lparr>ready_queue := q, ready_tail := (ready_tail s + 1) mod 32, ready_len := ready_len s + 1\<rparr>) \<and>
     ready_list (s\<lparr>ready_queue := q, ready_tail := (ready_tail s + 1) mod 32, ready_len := ready_len s + 1\<rparr>)
       = ready_list s @ [p]"
proof -
  let ?q = "(ready_queue s)[unat (ready_tail s) := p]"
  let ?s = "s\<lparr>ready_queue := ?q, ready_tail := (ready_tail s + 1) mod 32, ready_len := ready_len s + 1\<rparr>"
  have t: "unat (ready_tail s) < 32" using ok by (simp add: rq_ok_def)
  have "\<not> ready_len s \<ge> 32" using room by (simp add: word_le_nat_alt)
  then have "scheduler_enqueue_ready p s = Some (0, ?s)"
    using p t ok by (simp add: scheduler_enqueue_ready_def rq_ok_def)
  moreover have len: "unat (ready_len s + 1) = Suc (unat (ready_len s))"
    using room by (intro unat_Suc_less [of _ 32]) (simp add: word_less_nat_alt)
  moreover have "unat ((ready_tail s + 1) mod 32) = Suc (unat (ready_tail s)) mod 32"
    using ring_index [OF t, of 1] by simp
  then have "rq_ok ?s" using ok room len by (simp add: rq_ok_def mod_Suc_eq)
  moreover have "ready_list ?s = ready_list s @ [p]"
  proof (rule nth_equalityI)
    fix i assume "i < length (ready_list ?s)"
    then have i: "i < Suc (unat (ready_len s))" using len by simp
    show "ready_list ?s ! i = (ready_list s @ [p]) ! i"
    proof (cases "i = unat (ready_len s)")
      case True
      then show ?thesis using ok t len by (simp add: nth_append ready_at_def rq_ok_def)
    next
      case False
      with i have "i < unat (ready_len s)" by simp
      then show ?thesis using ok room len ring_index_neq [of i "unat (ready_len s)" "unat (ready_head s)"]
        by (simp add: nth_append ready_at_def rq_ok_def)
    qed
  qed (simp add: len)
  ultimately show ?thesis by blast
qed


lemma dequeue_ready_list:
  assumes ok: "rq_ok s" and ne: "ready_list s = x # xs"
  shows "scheduler_dequeue_ready s = Some (x, s\<lparr>ready_head := (ready_head s + 1) mod 32, ready_len := ready_len s - 1\<rparr>)"
    and "rq_ok (s\<lparr>ready_head := (ready_head s + 1) mod 32, ready_len := ready_len s - 1\<rparr>)"
    and "ready_list (s\<lparr>ready_head := (ready_head s + 1) mod 32, ready_len := ready_len s - 1\<rparr>) = xs"
proof -
  let ?s = "s\<lparr>ready_head := (ready_head s + 1) mod 32, ready_len := ready_len s - 1\<rparr>"
  have len: "unat (ready_len s) = Suc (length xs)" using ne by (metis length_Cons length_ready_list)
  then have pos: "ready_len s \<noteq> 0" by auto
  have len': "unat (ready_len s - 1) = length xs" using len pos by (simp add: unat_minus_one)
  have h: "unat (ready_head s) < 32" using ok by (simp add: rq_ok_def)
  have h': "unat ((ready_head s + 1) mod 32) = Suc (unat (ready_head s)) mod 32"
    using ring_index [OF h, of 1] by simp
  have "x = ready_list s ! 0" using ne by simp
  then have "x = ready_queue s ! unat (ready_head s)" using len h by (simp add: ready_at_def)
  then show "scheduler_dequeue_ready s = Some (x, ?s)"
    using pos h ok by (simp add: scheduler_dequeue_ready_def rq_ok_def)
  show "rq_ok ?s" using ok len len' h' by (simp add: rq_ok_def mod_Suc_eq mod_add_left_eq)
  show "ready_list ?s = xs"
  proof (rule nth_equalityI)
    fix i assume "i < length (ready_list ?s)"
    then have i: "i < length xs" using len' by simp
    have "xs ! i = ready_list s ! Suc i" using ne by simp
    also have "\<dots> = ready_list ?s ! i" using i len len' h' by (simp add: ready_at_def mod_add_left_eq mod_Suc_eq)
    finally show "ready_list ?s ! i = xs ! i" by simp
  qed (simp add: len')
qed


subsection \<open>The SJF choice\<close>

text \<open>
  \<open>first_min f xs k\<close>: entry \<open>k\<close> has the least \<open>f\<close> of the list and is the first that has it.  \<open>sjf_key\<close>
  is the burst that SJF compares.
\<close>

definition first_min :: "('a \<Rightarrow> 'b :: linorder) \<Rightarrow> 'a list \<Rightarrow> nat \<Rightarrow> bool" where
  "first_min f xs k \<longleftrightarrow> k < length xs \<and> (\<forall>j < length xs. f (xs ! k) \<le> f (xs ! j)) \<and> (\<forall>j < k. f (xs ! k) < f (xs ! j))"

definition sjf_key :: "'a sched_scheme \<Rightarrow> u32 \<Rightarrow> u32" where
  "sjf_key s p = (case predicted_burst_for_sjf p s of None \<Rightarrow> 0 | Some b \<Rightarrow> b)"

definition pcbs_valid :: "'a sched_scheme \<Rightarrow> bool" where
  "pcbs_valid s \<longleftrightarrow> (\<forall>p \<in> set (ready_list s). p \<noteq> 0 \<and> pcbs s p \<noteq> None)"

lemma predicted_burst_key:
  "pcbs s p \<noteq> None \<Longrightarrow> predicted_burst_for_sjf p s = Some (sjf_key s p)"
  by (auto simp: sjf_key_def predicted_burst_for_sjf_def)

lemma ready_at_get:
  assumes "rq_ok s" and "i < unat (ready_len s)"
  shows "arr_get (ready_queue s) ((ready_head s + of_nat i) mod 32) = Some (ready_list s ! i)"
  using assms ring_index [of "ready_head s" i] by (simp add: rq_ok_def ready_at_def)

lemma sjf_search_first_min:
  assumes ok: "rq_ok s" and val: "pcbs_valid s" and ne: "ready_list s \<noteq> []"
  shows "\<exists>k. sjf_search s = Some (of_nat k, sjf_key s (ready_list s ! k)) \<and> first_min (sjf_key s) (ready_list s) k"
proof -
  let ?xs = "ready_list s" and ?f = "sjf_key s"
  define P where "P i r \<longleftrightarrow> (if i = 0 then r = (32 :: u32, 0xFFFFFFFF)
     else \<exists>k. r = (of_nat k, ?f (?xs ! k)) \<and> first_min ?f (take i ?xs) k)" for i r
  have "\<exists>r. sjf_search s = Some r \<and> P (unat (ready_len s)) r"
    unfolding sjf_search_def
  proof (rule for_range_rule)
    fix i r assume i: "i < unat (ready_len s)" and Pi: "P i r"
    have i32: "i < 32" using i ok by (simp add: rq_ok_def)
    have p: "pcbs s (?xs ! i) \<noteq> None"
      using val i unfolding pcbs_valid_def by (metis length_ready_list nth_mem)
    obtain bi bb where r: "r = (bi, bb)" by (cases r)
    let ?r = "if bi = 32 \<or> ?f (?xs ! i) < bb then (of_nat i, ?f (?xs ! i)) else (bi, bb)"
    have "P (Suc i) ?r"
    proof (cases "i = 0")
      case True
      then have "bi = 32" using Pi r by (simp add: P_def)
      then show ?thesis using True i by (auto simp: P_def first_min_def intro!: exI [of _ 0])
    next
      case False
      then obtain k where k: "bi = of_nat k" "bb = ?f (?xs ! k)" "first_min ?f (take i ?xs) k"
        using Pi r by (auto simp: P_def)
      have ki: "k < i" using k(3) i by (simp add: first_min_def)
      have "bi \<noteq> 32"
      proof
        assume "bi = 32"
        then have "unat (of_nat k :: u32) = 32" using k(1) by simp
        then show False using ki i32 by (simp add: unat_of_nat)
      qed
      show ?thesis
      proof (cases "?f (?xs ! i) < bb")
        case True
        have "first_min ?f (take (Suc i) ?xs) i"
          using k(2,3) True i ki by (auto simp: first_min_def less_Suc_eq)
        with True show ?thesis by (auto simp: P_def)
      next
        case False
        have "first_min ?f (take (Suc i) ?xs) k"
          using k(2,3) False i ki by (auto simp: first_min_def less_Suc_eq)
        with False k \<open>bi \<noteq> 32\<close> show ?thesis by (auto simp: P_def)
      qed
    qed
    then show "\<exists>t'. (case r of (best_index, best_burst) \<Rightarrow> let idx = (ready_head s + of_nat i) mod 32 in
        arr_get (ready_queue s) idx \<bind> (\<lambda>candidate. predicted_burst_for_sjf candidate s \<bind> (\<lambda>candidate_burst.
         Some (if best_index = 32 \<or> candidate_burst < best_burst
           then (of_nat i, candidate_burst) else (best_index, best_burst))))) = Some t' \<and> P (Suc i) t'"
      using ready_at_get [OF ok i] predicted_burst_key [OF p] r by simp
  qed (simp_all add: P_def)
  moreover have "unat (ready_len s) \<noteq> 0" using ne by (metis length_0_conv length_ready_list)
  ultimately show ?thesis by (auto simp: P_def)
qed


lemma sjf_shift_ready_at:
  assumes ok: "rq_ok s" and k: "k < unat (ready_len s)"
  shows "\<exists>q. sjf_shift (of_nat k) s = Some (s\<lparr>ready_queue := q\<rparr>) \<and> length q = 32 \<and>
    (\<forall>j < 32. ready_at (s\<lparr>ready_queue := q\<rparr>) j =
       ready_at s (if k \<le> j \<and> j < unat (ready_len s) - 1 then Suc j else j))"
proof -
  let ?n = "unat (ready_len s) - 1"
  define P where "P i t \<longleftrightarrow> (\<exists>q. t = s\<lparr>ready_queue := q\<rparr> \<and> length q = 32 \<and>
    (\<forall>j < 32. ready_at t j = ready_at s (if k \<le> j \<and> j < i then Suc j else j)))" for i t
  have h: "unat (ready_head s) < 32" "unat (ready_len s) \<le> 32" using ok by (simp_all add: rq_ok_def)
  have "ready_len s \<noteq> 0" using k by auto
  then have "unat (ready_len s - 1) = ?n" by (simp add: unat_minus_one)
  moreover have "unat (of_nat k :: u32) = k" using k h by (simp add: unat_of_nat)
  moreover have "\<exists>t. for_range k ?n (\<lambda>i s. do {
     let dst = (ready_head s + of_nat i) mod 32;
     let src = (ready_head s + of_nat i + 1) mod 32;
     v \<leftarrow> arr_get (ready_queue s) src;
     q \<leftarrow> arr_set (ready_queue s) dst v;
     Some (s\<lparr>ready_queue := q\<rparr>) }) s = Some t \<and> P ?n t"
  proof (rule for_range_rule)
    show "k \<le> ?n" using k by simp
    show "P k s" using ok unfolding P_def by (intro exI [of _ "ready_queue s"]) (auto simp: rq_ok_def)
    fix i t assume i: "k \<le> i" "i < ?n" and "P i t"
    then obtain q where t: "t = s\<lparr>ready_queue := q\<rparr>" "length q = 32"
      "\<forall>j < 32. ready_at t j = ready_at s (if k \<le> j \<and> j < i then Suc j else j)" unfolding P_def by blast
    have i32: "Suc i < 32" using i h by simp
    have dst: "unat ((ready_head s + of_nat i) mod 32) = (unat (ready_head s) + i) mod 32"
      using ring_index [OF h(1), of i] i32 by simp
    have src: "unat ((ready_head s + of_nat i + 1) mod 32) = (unat (ready_head s) + Suc i) mod 32"
      using ring_index [OF h(1), of "Suc i"] i32 by (simp add: ac_simps)
    let ?q = "q[(unat (ready_head s) + i) mod 32 := ready_at t (Suc i)]"
    have "ready_at (s\<lparr>ready_queue := ?q\<rparr>) j = (if j = i then ready_at t (Suc i) else ready_at t j)" if "j < 32" for j
      using that t(1,2) i32 ring_index_neq [of i j "unat (ready_head s)"] by (auto simp: ready_at_def)
    then have "P (Suc i) (s\<lparr>ready_queue := ?q\<rparr>)"
      unfolding P_def using t(2,3) i(1) i32 by (intro exI [of _ ?q]) auto
    moreover have "arr_get (ready_queue t) ((ready_head t + of_nat i + 1) mod 32) = Some (ready_at t (Suc i))"
      using t(1,2) src by (simp add: ready_at_def)
    moreover have "arr_set (ready_queue t) ((ready_head t + of_nat i) mod 32) v = Some (q[(unat (ready_head s) + i) mod 32 := v])" for v
      using t(1,2) dst by simp
    ultimately show "\<exists>t'. (let dst = (ready_head t + of_nat i) mod 32; src = (ready_head t + of_nat i + 1) mod 32
        in arr_get (ready_queue t) src \<bind> (\<lambda>v. arr_set (ready_queue t) dst v \<bind> (\<lambda>q. Some (t\<lparr>ready_queue := q\<rparr>))))
         = Some t' \<and> P (Suc i) t'"
      using t(1) by simp
  qed
  ultimately show ?thesis unfolding P_def sjf_shift_def by auto
qed

lemma ready_tail_back:
  assumes "rq_ok s" and "0 < unat (ready_len s)"
  shows "unat (if ready_tail s = 0 then 31 else ready_tail s - 1)
    = (unat (ready_head s) + (unat (ready_len s) - 1)) mod 32"
proof -
  let ?m = "unat (ready_head s) + (unat (ready_len s) - 1)"
  have t: "unat (ready_tail s) = Suc ?m mod 32"
    using assms by (simp add: rq_ok_def)
  show ?thesis
  proof (cases "ready_tail s = 0")
    case True
    then have "Suc ?m mod 32 = 0" using t by simp
    then have "?m mod 32 = 31" by (simp add: mod_Suc split: if_splits)
    with True show ?thesis by simp
  next
    case False
    then have "unat (ready_tail s - 1) = unat (ready_tail s) - 1" by (simp add: unat_minus_one)
    moreover have "unat (ready_tail s) \<noteq> 0" using False by (simp add: unat_eq_0)
    then have ne: "Suc ?m mod 32 \<noteq> 0" by (simp only: t not_False_eq_True)
    moreover from ne have "Suc ?m mod 32 - 1 = ?m mod 32" by (simp add: mod_Suc split: if_splits)
    ultimately show ?thesis using False t by simp
  qed
qed

lemma dequeue_sjf_list:
  assumes ok: "rq_ok s" and val: "pcbs_valid s" and ne: "ready_list s \<noteq> []"
  shows "\<exists>k q l. first_min (sjf_key s) (ready_list s) k \<and>
    (let s' = s\<lparr>ready_queue := q, ready_tail := (if ready_tail s = 0 then 31 else ready_tail s - 1),
        ready_len := ready_len s - 1, serial_log := serial_log s @ [l]\<rparr> in
     scheduler_dequeue_sjf s = Some (ready_list s ! k, s') \<and> rq_ok s' \<and>
     ready_list s' = take k (ready_list s) @ drop (Suc k) (ready_list s))"
proof -
  obtain k where k: "sjf_search s = Some (of_nat k, sjf_key s (ready_list s ! k))" "first_min (sjf_key s) (ready_list s) k"
    using sjf_search_first_min [OF assms] by blast
  have klen: "k < unat (ready_len s)" using k(2) by (simp add: first_min_def)
  obtain q where q: "sjf_shift (of_nat k) s = Some (s\<lparr>ready_queue := q\<rparr>)" "length q = 32"
    "\<forall>j < 32. ready_at (s\<lparr>ready_queue := q\<rparr>) j = ready_at s (if k \<le> j \<and> j < unat (ready_len s) - 1 then Suc j else j)"
    using sjf_shift_ready_at [OF ok klen] by blast
  let ?t = "s\<lparr>ready_queue := q, ready_tail := (if ready_tail s = 0 then 31 else ready_tail s - 1),
        ready_len := ready_len s - 1\<rparr>"
  obtain c where c: "pcbs s (ready_list s ! k) = Some c"
    using val klen unfolding pcbs_valid_def by (metis length_ready_list nth_mem not_None_eq)
  obtain l where l: "log_sjf_pick (pid c) (predicted_burst c) ?t = ?t\<lparr>serial_log := serial_log s @ [l]\<rparr>"
    by (simp add: log_sjf_pick_def serial_line_def)
  have pos: "ready_len s \<noteq> 0" using klen by auto
  have n32: "unat (ready_len s) \<le> 32" using ok by (simp add: rq_ok_def)
  have "(of_nat k :: u32) \<noteq> 32"
  proof
    assume "(of_nat k :: u32) = 32"
    then have "unat (of_nat k :: u32) = 32" by simp
    then show False using klen n32 by (simp add: unat_of_nat)
  qed
  then have deq: "scheduler_dequeue_sjf s = Some (ready_list s ! k, ?t\<lparr>serial_log := serial_log s @ [l]\<rparr>)"
    using k(1) q(1) c l pos ready_at_get [OF ok klen]
    by (cases "ready_tail s = 0") (simp_all add: scheduler_dequeue_sjf_def)
  have len: "unat (ready_len s - 1) = unat (ready_len s) - 1" using pos by (simp add: unat_minus_one)
  note tail = ready_tail_back [OF ok]
  have ok': "rq_ok (?t\<lparr>serial_log := serial_log s @ [l]\<rparr>)"
    using ok q(2) len tail n32 klen by (simp add: rq_ok_def split del: if_split)
  have "ready_list (?t\<lparr>serial_log := serial_log s @ [l]\<rparr>) = take k (ready_list s) @ drop (Suc k) (ready_list s)"
  proof (rule nth_equalityI)
    fix i assume "i < length (ready_list (?t\<lparr>serial_log := serial_log s @ [l]\<rparr>))"
    then have i: "i < unat (ready_len s) - 1" using len by simp
    have "ready_list (?t\<lparr>serial_log := serial_log s @ [l]\<rparr>) ! i = ready_at (s\<lparr>ready_queue := q\<rparr>) i"
      using i len by (simp add: ready_at_def)
    also have "\<dots> = (take k (ready_list s) @ drop (Suc k) (ready_list s)) ! i"
      using q(3) i n32 klen by (auto simp: nth_append)
    finally show "ready_list (?t\<lparr>serial_log := serial_log s @ [l]\<rparr>) ! i = (take k (ready_list s) @ drop (Suc k) (ready_list s)) ! i" .
  qed (use len klen in simp)
  with k(2) deq ok' show ?thesis
    by (intro exI [of _ k] exI [of _ q] exI [of _ l]) (simp split del: if_split)
qed

subsection \<open>The scheduler meets the contracts\<close>

text \<open>Only the fields of the queue, and the telemetry, differ.\<close>

definition queue_only :: "'a sched_scheme \<Rightarrow> 'a sched_scheme \<Rightarrow> bool" where
  "queue_only s s' \<longleftrightarrow> (\<exists>q h t l g. s' = s\<lparr>ready_queue := q, ready_head := h, ready_tail := t, ready_len := l, serial_log := g\<rparr>)"

lemma queue_onlyD:
  assumes "queue_only s s'"
  shows "pcbs s' = pcbs s" and "current_pcb s' = current_pcb s" and "scheduling_policy s' = scheduling_policy s"
    and "quantum_ticks s' = quantum_ticks s" and "remaining_ticks s' = remaining_ticks s" and "pit_ticks s' = pit_ticks s"
    and "cr3 s' = cr3 s" and "tss s' = tss s" and "next_pid s' = next_pid s" and "preemption_enabled s' = preemption_enabled s"
  using assms unfolding queue_only_def by auto

text \<open>The queue only depends on its own fields.\<close>

lemma queue_frame [simp]:
  "ready_list (s\<lparr>pcbs := f\<rparr>) = ready_list s" "ready_list (s\<lparr>current_pcb := p\<rparr>) = ready_list s"
  "ready_list (s\<lparr>remaining_ticks := n\<rparr>) = ready_list s" "ready_list (s\<lparr>serial_log := g\<rparr>) = ready_list s"
  "ready_list (s\<lparr>tss := t\<rparr>) = ready_list s" "ready_list (s\<lparr>cr3 := n\<rparr>) = ready_list s"
  "ready_list (s\<lparr>stale := b\<rparr>) = ready_list s" "ready_list (s\<lparr>scheduling_policy := n\<rparr>) = ready_list s"
  "rq_ok (s\<lparr>pcbs := f\<rparr>) = rq_ok s" "rq_ok (s\<lparr>current_pcb := p\<rparr>) = rq_ok s"
  "rq_ok (s\<lparr>remaining_ticks := n\<rparr>) = rq_ok s" "rq_ok (s\<lparr>serial_log := g\<rparr>) = rq_ok s"
  "rq_ok (s\<lparr>tss := t\<rparr>) = rq_ok s" "rq_ok (s\<lparr>cr3 := n\<rparr>) = rq_ok s" "rq_ok (s\<lparr>stale := b\<rparr>) = rq_ok s"
  "rq_ok (s\<lparr>scheduling_policy := n\<rparr>) = rq_ok s"
  by (simp_all add: ready_list_def ready_at_def rq_ok_def)

text \<open>The first least element, as a function.\<close>

fun arg_min_index :: "('a \<Rightarrow> 'b :: linorder) \<Rightarrow> 'a list \<Rightarrow> nat" where
  "arg_min_index f (x # y # ys) =
     (let k = arg_min_index f (y # ys) in if f x \<le> f ((y # ys) ! k) then 0 else Suc k)"
| "arg_min_index f _ = 0"

lemma first_min_Cons:
  assumes "first_min f xs k"
  shows "first_min f (x # xs) (if f x \<le> f (xs ! k) then 0 else Suc k)"
  using assms unfolding first_min_def by (auto simp: nth_Cons split: nat.splits intro: order_trans)

lemma first_min_arg_min_index: "xs \<noteq> [] \<Longrightarrow> first_min f xs (arg_min_index f xs)"
proof (induction f xs rule: arg_min_index.induct)
  case (1 f x y ys)
  then show ?case using first_min_Cons [of f "y # ys" "arg_min_index f (y # ys)" x] by simp
qed (simp_all add: first_min_def)

lemma first_min_unique: "first_min f xs k \<Longrightarrow> first_min f xs l \<Longrightarrow> k = l"
  unfolding first_min_def by (metis linorder_neqE_nat not_le)

lemma arg_min_index_cong: "\<forall>x \<in> set xs. f x = g x \<Longrightarrow> arg_min_index f xs = arg_min_index g xs"
proof (induction f xs rule: arg_min_index.induct)
  case (1 f x y ys)
  have "arg_min_index f (y # ys) < length (y # ys)" using first_min_arg_min_index [of "y # ys" f] by (simp add: first_min_def)
  then have "(y # ys) ! arg_min_index f (y # ys) \<in> set (y # ys)" by (rule nth_mem)
  then have "f ((y # ys) ! arg_min_index f (y # ys)) = g ((y # ys) ! arg_min_index f (y # ys))" using 1(2) by (meson list.set_intros(2))
  then show ?case using 1 by (simp add: Let_def)
qed simp_all

text \<open>The queue with the entries it may hold, and the entry the policy in force chooses.\<close>

definition queue_ok :: "'a sched_scheme \<Rightarrow> bool" where
  "queue_ok s \<longleftrightarrow> rq_ok s \<and> pcbs_valid s"

definition chosen_index :: "'a sched_scheme \<Rightarrow> nat" where
  "chosen_index s = (if scheduling_policy s = POLICY_SJF then arg_min_index (sjf_key s) (ready_list s) else 0)"

lemma ready_list_Nil_iff: "ready_list s = [] \<longleftrightarrow> ready_len s = 0"
  by (metis length_0_conv length_ready_list unat_eq_0)

lemma pcbs_valid_subset:
  "pcbs_valid s \<Longrightarrow> pcbs s' = pcbs s \<Longrightarrow> set (ready_list s') \<subseteq> set (ready_list s) \<Longrightarrow> pcbs_valid s'"
  unfolding pcbs_valid_def by auto

interpretation fifo: bounded_fifo rq_ok ready_list queue_only scheduler_dequeue_ready scheduler_enqueue_ready 32
proof unfold_locales
  fix s :: "'a sched_scheme" and p assume ok: "rq_ok s"
  show "ready_list s = [] \<Longrightarrow> scheduler_dequeue_ready s = Some (0, s)"
    by (simp add: scheduler_dequeue_ready_def ready_list_Nil_iff)
  show "ready_list s \<noteq> [] \<Longrightarrow> 0 < length (ready_list s)" by (rule length_greater_0_conv [THEN iffD2])
  show "\<exists>s'. scheduler_dequeue_ready s = Some (ready_list s ! 0, s') \<and> rq_ok s' \<and> queue_only s s' \<and>
      ready_list s' = take 0 (ready_list s) @ drop (Suc 0) (ready_list s)" if ne: "ready_list s \<noteq> []"
  proof -
    obtain x xs where xs: "ready_list s = x # xs" using ne by (cases "ready_list s") auto
    have "queue_only s (s\<lparr>ready_head := (ready_head s + 1) mod 32, ready_len := ready_len s - 1\<rparr>)"
      unfolding queue_only_def
      by (intro exI [of _ "ready_queue s"] exI [of _ "(ready_head s + 1) mod 32"] exI [of _ "ready_tail s"]
          exI [of _ "ready_len s - 1"] exI [of _ "serial_log s"]) simp
    with dequeue_ready_list [OF ok xs] show ?thesis unfolding xs by auto
  qed
  show "\<exists>s'. scheduler_enqueue_ready p s = Some (0, s') \<and> rq_ok s' \<and> queue_only s s' \<and> ready_list s' = ready_list s @ [p]"
    if p: "p \<noteq> 0" and room: "length (ready_list s) < 32"
  proof -
    have room': "unat (ready_len s) < 32" using room by simp
    obtain q where "scheduler_enqueue_ready p s = Some (0, s\<lparr>ready_queue := q, ready_tail := (ready_tail s + 1) mod 32, ready_len := ready_len s + 1\<rparr>)"
      "rq_ok (s\<lparr>ready_queue := q, ready_tail := (ready_tail s + 1) mod 32, ready_len := ready_len s + 1\<rparr>)"
      "ready_list (s\<lparr>ready_queue := q, ready_tail := (ready_tail s + 1) mod 32, ready_len := ready_len s + 1\<rparr>) = ready_list s @ [p]"
      using enqueue_ready_list [OF ok p room'] by blast
    moreover have "queue_only s (s\<lparr>ready_queue := q, ready_tail := (ready_tail s + 1) mod 32, ready_len := ready_len s + 1\<rparr>)"
      unfolding queue_only_def
      by (intro exI [of _ q] exI [of _ "ready_head s"] exI [of _ "(ready_tail s + 1) mod 32"]
          exI [of _ "ready_len s + 1"] exI [of _ "serial_log s"]) simp
    ultimately show ?thesis by blast
  qed
  show "p = 0 \<or> 32 \<le> length (ready_list s) \<Longrightarrow> scheduler_enqueue_ready p s = Some (-1, s)"
    by (auto simp: scheduler_enqueue_ready_def word_le_nat_alt)
qed

text \<open>\<open>scheduler_pick_next\<close> is a picker under every policy.\<close>

lemma dequeue_sjf_takes:
  assumes "queue_ok s" and ne: "ready_list s \<noteq> []"
  defines "k \<equiv> arg_min_index (sjf_key s) (ready_list s)"
  shows "\<exists>s'. scheduler_dequeue_sjf s = Some (ready_list s ! k, s') \<and> rq_ok s' \<and> queue_only s s' \<and>
      ready_list s' = take k (ready_list s) @ drop (Suc k) (ready_list s)"
proof -
  obtain k' q l where k': "first_min (sjf_key s) (ready_list s) k'"
    and r: "let s' = s\<lparr>ready_queue := q, ready_tail := (if ready_tail s = 0 then 31 else ready_tail s - 1),
        ready_len := ready_len s - 1, serial_log := serial_log s @ [l]\<rparr> in
     scheduler_dequeue_sjf s = Some (ready_list s ! k', s') \<and> rq_ok s' \<and>
     ready_list s' = take k' (ready_list s) @ drop (Suc k') (ready_list s)"
    using dequeue_sjf_list [OF _ _ ne] assms(1) unfolding queue_ok_def by blast
  have "k' = k" using first_min_unique [OF k' first_min_arg_min_index [OF ne]] by (simp add: k_def)
  moreover have "queue_only s (s\<lparr>ready_queue := q, ready_tail := t, ready_len := ready_len s - 1, serial_log := serial_log s @ [l]\<rparr>)" for t
    unfolding queue_only_def
    by (intro exI [of _ q] exI [of _ "ready_head s"] exI [of _ t]
        exI [of _ "ready_len s - 1"] exI [of _ "serial_log s @ [l]"]) simp
  ultimately show ?thesis using r unfolding Let_def by blast
qed

lemma pick_next_takes:
  assumes ok: "queue_ok s" and ne: "ready_list s \<noteq> []"
  shows "\<exists>s'. scheduler_pick_next s = Some (ready_list s ! chosen_index s, s') \<and> queue_ok s' \<and> queue_only s s' \<and>
      ready_list s' = take (chosen_index s) (ready_list s) @ drop (Suc (chosen_index s)) (ready_list s)"
proof -
  have "\<exists>s'. scheduler_pick_next s = Some (ready_list s ! chosen_index s, s') \<and> rq_ok s' \<and> queue_only s s' \<and>
      ready_list s' = take (chosen_index s) (ready_list s) @ drop (Suc (chosen_index s)) (ready_list s)"
  proof (cases "scheduling_policy s = 1")
    case True
    then show ?thesis using dequeue_sjf_takes [OF assms] by (simp add: scheduler_pick_next_def chosen_index_def)
  next
    case False
    then show ?thesis using fifo.pick_takes [of s] ok ne
      by (simp add: scheduler_pick_next_def chosen_index_def queue_ok_def)
  qed
  then obtain s' where s': "scheduler_pick_next s = Some (ready_list s ! chosen_index s, s')" "rq_ok s'" "queue_only s s'"
    "ready_list s' = take (chosen_index s) (ready_list s) @ drop (Suc (chosen_index s)) (ready_list s)" by blast
  have "set (ready_list s') \<subseteq> set (ready_list s)"
    unfolding s'(4) using set_take_subset set_drop_subset by fastforce
  then have "queue_ok s'" using s'(2,3) ok pcbs_valid_subset [of s s'] by (simp add: queue_ok_def queue_onlyD(1))
  with s' show ?thesis by blast
qed

interpretation pick: picker queue_ok ready_list queue_only chosen_index scheduler_pick_next
proof unfold_locales
  fix s :: "'a sched_scheme" assume ok: "queue_ok s"
  show "ready_list s = [] \<Longrightarrow> scheduler_pick_next s = Some (0, s)"
    by (simp add: scheduler_pick_next_def scheduler_dequeue_sjf_def scheduler_dequeue_ready_def ready_list_Nil_iff)
  show "ready_list s \<noteq> [] \<Longrightarrow> chosen_index s < length (ready_list s)"
    using first_min_arg_min_index [of "ready_list s" "sjf_key s"] by (auto simp: chosen_index_def first_min_def)
qed (rule pick_next_takes)

subsection \<open>Decimal text\<close>

definition dec_value :: "string \<Rightarrow> nat" where
  "dec_value ds = foldl (\<lambda>n c. 10 * n + (of_char c - 48)) 0 ds"

definition is_digit :: "char \<Rightarrow> bool" where
  "is_digit c \<longleftrightarrow> 48 \<le> (of_char c :: nat) \<and> (of_char c :: nat) \<le> 57"

lemma dec_value_snoc: "dec_value (ds @ [c]) = 10 * dec_value ds + (of_char c - 48)"
  by (simp add: dec_value_def)

lemma digit_char:
  assumes "d < 10" shows "of_char (char_of (48 + d)) = (48 + d :: nat)" and "is_digit (char_of (48 + d))"
  using assms by (simp_all add: is_digit_def)

lemma u32_digits_append: "u32_digits v len (xs @ ys) = xs @ u32_digits v len ys"
proof (induction v len ys rule: u32_digits.induct)
  case (1 v len ys)
  show ?case
  proof (cases "v > 0 \<and> len < 10")
    case True
    from 1 [OF True] show ?thesis using True by (simp add: u32_digits.simps [of v])
  qed (auto simp: u32_digits.simps [of v])
qed

lemma u32_digits_step:
  assumes "v > 0" and "len < 10"
  shows "rev (u32_digits v len []) = rev (u32_digits (v div 10) (Suc len) []) @ [char_of (48 + unat (v mod 10))]"
proof -
  have "u32_digits v len [] = u32_digits (v div 10) (Suc len) ([char_of (48 + unat (v mod 10))] @ [])"
    by (subst u32_digits.simps) (simp only: assms append_Nil append_Nil2 simp_thms if_True)
  then show ?thesis unfolding u32_digits_append by simp
qed

lemma u32_digits_value:
  "unat v < 10 ^ (10 - len) \<Longrightarrow> len \<le> 10 \<Longrightarrow>
   dec_value (rev (u32_digits v len [])) = unat v \<and> list_all is_digit (u32_digits v len []) \<and>
   length (u32_digits v len []) \<le> 10 - len"
proof (induction "10 - len" arbitrary: v len)
  case 0
  then have "v = 0" by (simp add: unat_eq_0)
  then show ?case by (simp add: u32_digits.simps dec_value_def)
next
  case (Suc n)
  show ?case
  proof (cases "v = 0")
    case True
    then show ?thesis by (simp add: u32_digits.simps dec_value_def)
  next
    case False
    then have v: "v > 0" by (simp add: word_gt_0)
    have len: "len < 10" "n = 10 - Suc len" using Suc.hyps(2) by simp_all
    have d: "unat (v mod 10) < 10" "unat (v mod 10) = unat v mod 10" by (simp_all add: unat_mod)
    have "unat v < 10 * 10 ^ n" using Suc.prems(1) Suc.hyps(2) by (simp flip: power_Suc)
    then have "unat (v div 10) < 10 ^ (10 - Suc len)" using len(2) by (simp add: unat_div)
    then have IH: "dec_value (rev (u32_digits (v div 10) (Suc len) [])) = unat (v div 10)"
      "list_all is_digit (u32_digits (v div 10) (Suc len) [])" "length (u32_digits (v div 10) (Suc len) []) \<le> n"
      using Suc.hyps(1) [OF len(2)] len by auto
    note st = u32_digits_step [OF v len(1)]
    have "dec_value (rev (u32_digits v len [])) = 10 * unat (v div 10) + unat (v mod 10)"
      unfolding st dec_value_snoc IH(1) digit_char(1) [OF d(1)] by simp
    then have "dec_value (rev (u32_digits v len [])) = unat v" by (simp add: unat_div d(2))
    moreover have "list_all is_digit (rev (u32_digits v len []))" unfolding st using IH(2) digit_char(2) [OF d(1)] by simp
    moreover have "length (rev (u32_digits v len [])) \<le> Suc n" unfolding st using IH(3) by simp
    ultimately show ?thesis using Suc.hyps(2) by simp
  qed
qed

lemma append_u32_decimal:
  "\<exists>ds. append_u32 buf v = buf @ ds \<and> dec_value ds = unat v \<and> list_all is_digit ds \<and> length ds \<le> 10"
proof (cases "v = 0")
  case True
  then show ?thesis by (simp add: append_u32_def dec_value_def is_digit_def)
next
  case False
  have "unat v < 10 ^ (10 - 0)" using unsigned_less [of v, where ?'a = nat] by simp
  from u32_digits_value [OF this] False show ?thesis by (simp add: append_u32_def)
qed

lemma append_literal_eq [simp]: "append_literal buf ts = buf @ ts"
  by (induction ts arbitrary: buf) simp_all

subsection \<open>A sample state\<close>

text \<open>
  Process 1 runs; processes 2 and 3 wait in a queue that wraps around the end of the array.
\<close>

definition sample_context :: "u32 \<Rightarrow> process_context" where
  "sample_context n = \<lparr>c_ebp = 0, c_edi = 0, c_esi = 0, c_edx = 0, c_ecx = 0, c_ebx = 0, c_eax = n, c_eip = 0x100 + n,
     c_cs = 0x1B, c_eflags = 2, c_user_esp = 0x1000, c_user_ss = 0x23\<rparr>"

definition sample_pcb :: "u32 \<Rightarrow> u32 \<Rightarrow> u32 \<Rightarrow> PCB" where
  "sample_pcb n st burst = \<lparr>pid = n, ppid = 0, pdt = 0x200000 * n, eip = 0, esp = 0, eflags = 0, cs = 0x1B, ss = 0x23,
     kernel_stack_base = 0, kernel_esp0 = 0xC0200000 + n, state = st, burst_time = 1, predicted_burst = burst,
     last_dispatch_tick = 0, pcb_context = sample_context n\<rparr>"

definition sample_state :: "'a \<Rightarrow> 'a sched_scheme" where
  "sample_state rest = \<lparr>port_out = [], serial_log = [], cr3 = 0x200000, stale = {}, bitmap = replicate 2048 0, start_frame = 300,
     total_frames = 16384, page_directory = [], kernel_page_table = [], pmem = (\<lambda>_ _. 0), base_addr = 0, hdrs = (\<lambda>_. \<lparr>hnext = 0, hsize = 0\<rparr>),
     freep = 0, heap_current = 0, heap_max = 0, gdt_descriptors = [], gdt_global = (0, 0), gdtr = (0, 0), seg_cs = 0, seg_data = 0,
     tss = zero_tss\<lparr>t_esp0 := 0xC0200001\<rparr>, tr = 0, idt_entries = [], idt_global = (0, 0), idtr = (0, 0),
     pit_ticks = 7, pcbs = [0x1000 \<mapsto> sample_pcb 1 1 3, 0x2000 \<mapsto> sample_pcb 2 0 5, 0x3000 \<mapsto> sample_pcb 3 0 2], current_pcb = 0x1000,
     preemption_enabled = 1, next_pid = 4, ready_queue = (replicate 32 0)[31 := 0x2000, 0 := 0x3000], ready_head = 31,
     ready_tail = 1, ready_len = 2, scheduling_policy = 0, quantum_ticks = 1, remaining_ticks = 1, \<dots> = rest\<rparr>"

abbreviation sample_sched :: sched where "sample_sched \<equiv> sample_state ()"

lemma sample_sched_facts [simp]:
  "rq_ok (sample_state m)" "ready_list (sample_state m) = [0x2000, 0x3000]" "queue_ok (sample_state m)"
  "pcbs (sample_state m) = [0x1000 \<mapsto> sample_pcb 1 1 3, 0x2000 \<mapsto> sample_pcb 2 0 5, 0x3000 \<mapsto> sample_pcb 3 0 2]"
proof -
  show ok: "rq_ok (sample_state m)" by (simp add: rq_ok_def sample_state_def)
  have "unat (ready_len (sample_state m)) = 2" "[0..<2] = [0, 1 :: nat]" by (simp_all add: sample_state_def upt_rec)
  then show l: "ready_list (sample_state m) = [0x2000, 0x3000]"
    by (simp add: ready_list_def ready_at_def) (simp add: sample_state_def nth_list_update)
  show p: "pcbs (sample_state m) = [0x1000 \<mapsto> sample_pcb 1 1 3, 0x2000 \<mapsto> sample_pcb 2 0 5, 0x3000 \<mapsto> sample_pcb 3 0 2]"
    by (simp add: sample_state_def)
  show "queue_ok (sample_state m)" using ok by (simp add: queue_ok_def pcbs_valid_def l p)
qed

subsection \<open>Properties of the queue\<close>

text \<open>
  C28.  The ready queue is a FIFO queue of capacity 32.  Enqueuing a list of processes for which there is
  room succeeds, and dequeuing then yields the processes that were waiting before, oldest first, then
  the new ones in the order in which they were enqueued, and leaves the queue empty.
\<close>

theorem ready_queue_fifo:
  assumes "rq_ok s" and "0 \<notin> set ps" and "length (ready_list s) + length ps \<le> 32"
  shows "\<exists>s1 s2. enqueue_all scheduler_enqueue_ready ps s = Some s1 \<and>
    take_all scheduler_dequeue_ready (length (ready_list s) + length ps) s1 = Some (ready_list s @ ps, s2) \<and> ready_list s2 = []"
  using assms by (rule fifo.fifo)

theorem ready_queue_fifo_witness:
  "\<exists>s1 s2. enqueue_all scheduler_enqueue_ready [0x4000, 0x1000] sample_sched = Some s1 \<and>
    take_all scheduler_dequeue_ready 4 s1 = Some ([0x2000, 0x3000, 0x4000, 0x1000], s2) \<and> ready_list s2 = []"
proof -
  let ?ps = "[0x4000, 0x1000 :: u32]"
  have n: "length (ready_list sample_sched) + length ?ps = 4" and c: "ready_list sample_sched @ ?ps = [0x2000, 0x3000, 0x4000, 0x1000]"
    and ne: "0 \<notin> set ?ps" by simp_all
  from ready_queue_fifo [of sample_sched, OF sample_sched_facts(1) ne] show ?thesis unfolding n c by simp
qed

text \<open>
  \<open>scheduler_enqueue_ready\<close> refuses exactly a null pointer and a full queue, with result -1 and no
  change; otherwise it appends the process and leaves the rest of the kernel state alone.
\<close>

theorem scheduler_enqueue_ready_result:
  assumes "rq_ok s"
  shows "if p = 0 \<or> length (ready_list s) = 32 then scheduler_enqueue_ready p s = Some (-1, s)
    else \<exists>s'. scheduler_enqueue_ready p s = Some (0, s') \<and> rq_ok s' \<and> queue_only s s' \<and> ready_list s' = ready_list s @ [p]"
proof -
  have "length (ready_list s) \<le> 32" using assms by (simp add: rq_ok_def)
  then show ?thesis using fifo.enq_appends [OF assms, of p] fifo.enq_refuses [OF assms, of p] by auto
qed

theorem scheduler_enqueue_ready_result_witness:
  "scheduler_enqueue_ready 0 sample_sched = Some (-1, sample_sched) \<and>
   (\<exists>s'. scheduler_enqueue_ready 0x4000 sample_sched = Some (0, s') \<and> ready_list s' = [0x2000, 0x3000, 0x4000])"
  using scheduler_enqueue_ready_result [of sample_sched 0] scheduler_enqueue_ready_result [of sample_sched "0x4000"] by auto

text \<open>
  C26.  SJF takes, of the processes that wait, the first one with the least predicted burst, and the
  others keep their order.
\<close>

theorem sjf_takes_shortest:
  assumes "rq_ok s" and "pcbs_valid s" and "ready_list s \<noteq> []"
  shows "\<exists>k s'. k < length (ready_list s) \<and> scheduler_dequeue_sjf s = Some (ready_list s ! k, s') \<and> rq_ok s' \<and>
    (\<forall>p \<in> set (ready_list s). sjf_key s (ready_list s ! k) \<le> sjf_key s p) \<and>
    (\<forall>j < k. sjf_key s (ready_list s ! k) < sjf_key s (ready_list s ! j)) \<and>
    ready_list s' = take k (ready_list s) @ drop (Suc k) (ready_list s)"
proof -
  let ?k = "arg_min_index (sjf_key s) (ready_list s)"
  have "first_min (sjf_key s) (ready_list s) ?k" using assms(3) by (rule first_min_arg_min_index)
  then have "?k < length (ready_list s)" "\<forall>p \<in> set (ready_list s). sjf_key s (ready_list s ! ?k) \<le> sjf_key s p"
    "\<forall>j < ?k. sjf_key s (ready_list s ! ?k) < sjf_key s (ready_list s ! j)"
    unfolding first_min_def by (auto simp: in_set_conv_nth)
  with dequeue_sjf_takes [of s] assms show ?thesis by (auto simp: queue_ok_def)
qed

theorem sjf_takes_shortest_witness:
  "\<exists>s'. scheduler_dequeue_sjf sample_sched = Some (0x3000, s') \<and> ready_list s' = [0x2000]"
proof -
  have v: "rq_ok sample_sched" "pcbs_valid sample_sched" "ready_list sample_sched \<noteq> []"
    using sample_sched_facts(3) by (auto simp: queue_ok_def)
  have key: "sjf_key sample_sched 0x2000 = 5" "sjf_key sample_sched 0x3000 = 2"
    by (simp_all add: sjf_key_def predicted_burst_for_sjf_def sample_pcb_def)
  obtain k s' where k: "k < length [0x2000, 0x3000 :: u32]" "scheduler_dequeue_sjf sample_sched = Some ([0x2000, 0x3000] ! k, s')"
    "\<forall>p \<in> set [0x2000, 0x3000]. sjf_key sample_sched ([0x2000, 0x3000] ! k) \<le> sjf_key sample_sched p"
    "ready_list s' = take k [0x2000, 0x3000] @ drop (Suc k) [0x2000, 0x3000]"
    using sjf_takes_shortest [OF v] unfolding sample_sched_facts(2) by blast
  have "k = 1" using k(1,3) key by (cases k) auto
  with k show ?thesis by simp
qed

text \<open>
  C27.  Under every policy, picking the next process as often as there are processes waiting returns
  each of them exactly once, none is a null pointer, and then the queue is empty.
\<close>

theorem pick_next_serves_all:
  assumes "rq_ok s" and "pcbs_valid s"
  shows "\<exists>ps s'. take_all scheduler_pick_next (length (ready_list s)) s = Some (ps, s') \<and>
    mset ps = mset (ready_list s) \<and> 0 \<notin> set ps \<and> ready_list s' = []"
proof -
  have "queue_ok s" using assms by (simp add: queue_ok_def)
  then obtain ps s' where ps: "take_all scheduler_pick_next (length (ready_list s)) s = Some (ps, s')"
    "mset ps = mset (ready_list s)" "ready_list s' = []" using pick.take_all_mset [of s] by blast
  have "0 \<notin> set ps" using mset_eq_setD [OF ps(2)] assms(2) by (auto simp: pcbs_valid_def)
  with ps show ?thesis by blast
qed

theorem pick_next_serves_all_witness:
  "\<exists>ps s'. take_all scheduler_pick_next 2 (sample_sched\<lparr>scheduling_policy := POLICY_SJF\<rparr>) = Some (ps, s') \<and>
    mset ps = {#0x2000, 0x3000#}"
proof -
  let ?s = "sample_sched\<lparr>scheduling_policy := POLICY_SJF\<rparr>"
  have l: "ready_list ?s = [0x2000, 0x3000]" by simp
  have "rq_ok ?s" "pcbs_valid ?s" by (simp_all add: pcbs_valid_def)
  moreover have n: "length [0x2000, 0x3000 :: u32] = 2" by simp
  ultimately show ?thesis using pick_next_serves_all [of ?s] unfolding l n by auto
qed

text \<open>
  C35.  The burst prediction, for all values of the counters.  The burst is the number of ticks since the
  last dispatch, at least one, and one if the tick counter has wrapped around since then.  The new
  prediction is the burst if there was no prediction, else the half of the 32-bit sum of prediction
  and burst, at least one: it is never 0, also when the sum wraps around to 0 or 1, so a process that
  ran is never ranked as one without prediction.  While the sum fits 32 bits the prediction lies between
  the two values it averages.
\<close>

theorem burst_prediction_bounds:
  fixes c :: PCB and now :: u32
  defines "e \<equiv> (if last_dispatch_tick c \<le> now then max 1 (unat now - unat (last_dispatch_tick c)) else 1)" and "b \<equiv> unat (predicted_burst c)"
  defines "v \<equiv> unat (predicted_burst (scheduler_update_burst_prediction now c))"
  shows "unat (burst_time (scheduler_update_burst_prediction now c)) = e \<and> v \<noteq> 0 \<and>
    v = (if b = 0 then e else max 1 ((b + e) mod 2 ^ 32 div 2)) \<and>
    (b \<noteq> 0 \<and> b + e < 2 ^ 32 \<longrightarrow> v = (b + e) div 2 \<and> min b e \<le> v \<and> v \<le> max b e)"
proof -
  let ?c = "scheduler_update_burst_prediction now c"
  define w where "w = (let d = if last_dispatch_tick c \<le> now then now - last_dispatch_tick c else 1 in if d = 0 then 1 else d)"
  have w: "unat w = e"
  proof (cases "last_dispatch_tick c \<le> now")
    case True
    then have d: "unat (now - last_dispatch_tick c) = unat now - unat (last_dispatch_tick c)" by (rule unat_sub)
    show ?thesis
    proof (cases "now = last_dispatch_tick c")
      case False
      then have "last_dispatch_tick c < now" using True by simp
      then have "unat (last_dispatch_tick c) < unat now" by (simp add: word_less_nat_alt)
      then show ?thesis using True False d by (simp add: w_def e_def)
    qed (simp add: w_def e_def)
  qed (simp add: w_def e_def)
  have e: "1 \<le> e" by (auto simp: e_def)
  have w0: "w \<noteq> 0" using w e by auto
  define h where "h = (predicted_burst c + w) div 2"
  have h: "unat h = (b + e) mod 2 ^ 32 div 2" using w by (simp add: h_def unat_div unat_word_ariths b_def)
  have bt: "burst_time ?c = w" by (simp add: scheduler_update_burst_prediction_def w_def Let_def)
  have p: "predicted_burst ?c = (let x = if predicted_burst c = 0 then w else h in if x = 0 then 1 else x)"
    by (simp add: scheduler_update_burst_prediction_def w_def h_def Let_def)
  have v: "v = (if b = 0 then e else max 1 ((b + e) mod 2 ^ 32 div 2))"
  proof (cases "predicted_burst c = 0")
    case True
    then show ?thesis using p w w0 by (simp add: v_def b_def)
  next
    case False
    then have b: "b \<noteq> 0" by (simp add: b_def unat_eq_0)
    show ?thesis
    proof (cases "h = 0")
      case True
      then have "(b + e) mod 2 ^ 32 div 2 = 0" using h by simp
      moreover have "v = 1" using True False p by (simp add: v_def)
      ultimately show ?thesis using b by simp
    next
      case h0: False
      then have "unat h \<noteq> 0" by (simp add: unat_eq_0)
      moreover have "v = unat h" using h0 False p by (simp add: v_def)
      ultimately show ?thesis using b h by simp
    qed
  qed
  have "b \<noteq> 0 \<and> b + e < 2 ^ 32 \<longrightarrow> v = (b + e) div 2" using v e by auto
  then show ?thesis using bt w v e by auto
qed

theorem burst_prediction_bounds_witness:
  "unat (predicted_burst (scheduler_update_burst_prediction 7 (sample_pcb 1 1 3))) = 5 \<and>
   unat (predicted_burst (scheduler_update_burst_prediction 7 (sample_pcb 1 1 0xFFFFFFFA))) = 1"
  using burst_prediction_bounds [where c = "sample_pcb 1 1 3" and now = 7] burst_prediction_bounds [where c = "sample_pcb 1 1 0xFFFFFFFA" and now = 7] by (simp add: sample_pcb_def)

primrec allocate_pids :: "nat \<Rightarrow> 'a sched_scheme \<Rightarrow> u32 list \<times> 'a sched_scheme" where
  "allocate_pids 0 s = ([], s)"
| "allocate_pids (Suc n) s = (let (p, s) = scheduler_allocate_pid s; (ps, s) = allocate_pids n s in (p # ps, s))"

lemma allocate_pid_next:
  "fst (scheduler_allocate_pid s) = next_pid s" "next_pid (snd (scheduler_allocate_pid s)) = (if next_pid s + 1 = 0 then 1 else next_pid s + 1)"
  by (simp_all add: scheduler_allocate_pid_def)

lemma allocate_pids_nonzero: "next_pid s \<noteq> 0 \<Longrightarrow> 0 \<notin> set (fst (allocate_pids n s))"
proof (induction n arbitrary: s)
  case (Suc n)
  have "next_pid (snd (scheduler_allocate_pid s)) \<noteq> 0" unfolding allocate_pid_next by simp
  then show ?case using Suc by (simp add: split_beta allocate_pid_next)
qed simp

lemma allocate_pids_range:
  "next_pid s \<noteq> 0 \<Longrightarrow> unat (next_pid s) + n < 2 ^ 32 \<Longrightarrow> map unat (fst (allocate_pids n s)) = [unat (next_pid s)..<unat (next_pid s) + n]"
proof (induction n arbitrary: s)
  case (Suc n)
  let ?t = "snd (scheduler_allocate_pid s)"
  have "unat (next_pid s + 1) = unat (next_pid s) + 1" using Suc.prems by (subst unat_add_lem [THEN iffD1]) simp_all
  then have t: "unat (next_pid ?t) = Suc (unat (next_pid s))" "next_pid ?t \<noteq> 0"
    using Suc.prems unfolding allocate_pid_next by (auto simp: unat_eq_0)
  have "map unat (fst (allocate_pids n ?t)) = [Suc (unat (next_pid s))..<unat (next_pid s) + Suc n]"
    using Suc.IH [OF t(2)] t(1) Suc.prems by simp
  then show ?case by (simp add: split_beta allocate_pid_next upt_conv_Cons)
qed simp

text \<open>
  Process identifiers are never 0, and a series of allocations that does not reach the end of the
  32-bit range yields consecutive, hence different, identifiers.
\<close>

theorem process_ids_fresh:
  assumes "next_pid s \<noteq> 0"
  shows "0 \<notin> set (fst (allocate_pids n s)) \<and> (unat (next_pid s) + n < 2 ^ 32 \<longrightarrow> distinct (fst (allocate_pids n s)))"
proof -
  have "distinct (map unat (fst (allocate_pids n s)))" if "unat (next_pid s) + n < 2 ^ 32"
    using allocate_pids_range [OF assms that] by simp
  then show ?thesis using allocate_pids_nonzero [OF assms] by (auto simp: distinct_map)
qed

theorem process_ids_fresh_witness:
  "distinct (fst (allocate_pids 1000 sample_sched)) \<and> 0 \<notin> set (fst (allocate_pids 1000 sample_sched))"
proof -
  have "next_pid sample_sched = 4" by (simp add: sample_state_def)
  then show ?thesis using process_ids_fresh [of sample_sched 1000] by simp
qed

text \<open>
  The telemetry line of an event is \<open>[STAT] pid,ticks,event,context\<close>: four decimal numbers that
  read back as the four values, separated by commas.  With its final zero it fits the 64 bytes of the
  buffer, and it is the only effect of the call.
\<close>

theorem log_process_stat_line:
  "\<exists>d1 d2 d3 d4. log_process_stat pd ev cid s = s\<lparr>serial_log := serial_log s @
       [''[STAT] '' @ d1 @ '','' @ d2 @ '','' @ d3 @ '','' @ d4]\<rparr> \<and>
     map dec_value [d1, d2, d3, d4] = map unat [pd, pit_ticks s, ev, cid] \<and>
     list_all (list_all is_digit) [d1, d2, d3, d4] \<and>
     length (''[STAT] '' @ d1 @ '','' @ d2 @ '','' @ d3 @ '','' @ d4) + 1 \<le> 64"
proof -
  obtain d where d: "\<And>buf v. append_u32 buf v = buf @ d buf v" "\<And>buf v. dec_value (d buf v) = unat v"
    "\<And>buf v. list_all is_digit (d buf v)" "\<And>buf v. length (d buf v) \<le> 10"
    using append_u32_decimal by metis
  define d1 where "d1 = d ''[STAT] '' pd"
  define d2 where "d2 = d (''[STAT] '' @ d1 @ '','') (pit_ticks s)"
  define d3 where "d3 = d (''[STAT] '' @ d1 @ '','' @ d2 @ '','') ev"
  define d4 where "d4 = d (''[STAT] '' @ d1 @ '','' @ d2 @ '','' @ d3 @ '','') cid"
  have "log_process_stat pd ev cid s = s\<lparr>serial_log := serial_log s @ [''[STAT] '' @ d1 @ '','' @ d2 @ '','' @ d3 @ '','' @ d4]\<rparr>"
    by (simp add: log_process_stat_def serial_line_def d(1) d1_def d2_def d3_def d4_def)
  moreover have "length d1 \<le> 10" "length d2 \<le> 10" "length d3 \<le> 10" "length d4 \<le> 10"
    by (simp_all add: d1_def d2_def d3_def d4_def d(4))
  moreover have "map dec_value [d1, d2, d3, d4] = map unat [pd, pit_ticks s, ev, cid]" "list_all (list_all is_digit) [d1, d2, d3, d4]"
    by (simp_all add: d1_def d2_def d3_def d4_def d)
  ultimately show ?thesis by (intro exI [of _ d1] exI [of _ d2] exI [of _ d3] exI [of _ d4]) simp
qed

end
