(* ===== verification/Sched_Switch.thy ===== *)
theory Sched_Switch
  imports Scheduler
begin

text \<open>
  The switch of processes: an abstract scheduler, with the ready queue as a list and the choice of the
  policy as a function, and the proof that \<open>scheduler_schedule_from_context\<close> implements it.  The
  properties of scheduling (which process runs next, that none is lost or runs twice, that a preempted
  process resumes with the registers it had, that no process waits for ever) are proved on the
  abstract scheduler and stated on the code.
\<close>

subsection \<open>The abstract scheduler\<close>

record asched =
  a_current :: u32
  a_ready :: "u32 list"
  a_procs :: "u32 \<Rightarrow> PCB option"
  a_policy :: u32
  a_quantum :: u32
  a_remaining :: u32
  a_ticks :: u32
  a_preemptive :: u8
  a_cr3 :: u32
  a_esp0 :: u32

definition abs_sched :: "'a sched_scheme \<Rightarrow> asched" where
  "abs_sched s = \<lparr>a_current = current_pcb s, a_ready = ready_list s, a_procs = pcbs s,
     a_policy = scheduling_policy s, a_quantum = quantum_ticks s, a_remaining = remaining_ticks s,
     a_ticks = pit_ticks s, a_preemptive = preemption_enabled s, a_cr3 = cr3 s, a_esp0 = t_esp0 (tss s)\<rparr>"

definition burst_key :: "(u32 \<Rightarrow> PCB option) \<Rightarrow> u32 \<Rightarrow> u32" where
  "burst_key procs p = (if p = 0 then 0xFFFFFFFF else case procs p of None \<Rightarrow> 0
     | Some c \<Rightarrow> if state c = PROCESS_STATE_READY \<and> predicted_burst c \<noteq> 0 then predicted_burst c else 0xFFFFFFFF)"

definition spec_choice :: "asched \<Rightarrow> nat" where
  "spec_choice a = (if a_policy a = POLICY_SJF then arg_min_index (burst_key (a_procs a)) (a_ready a) else 0)"

definition outgoing :: "process_context \<Rightarrow> bool \<Rightarrow> u32 \<Rightarrow> PCB \<Rightarrow> PCB" where
  "outgoing ctx requeue now c =
     (if requeue then (scheduler_update_burst_prediction now (save_context ctx c))\<lparr>state := PROCESS_STATE_READY\<rparr>
      else save_context ctx c)"

definition incoming :: "u32 \<Rightarrow> PCB \<Rightarrow> PCB" where
  "incoming now c =
     (let c = c\<lparr>last_dispatch_tick := now, state := PROCESS_STATE_RUNNING\<rparr>
      in if c_cs (pcb_context c) = 0 then scheduler_init_context_from_pcb c else c)"

definition resumed :: "PCB \<Rightarrow> process_context" where
  "resumed c = (pcb_context c)\<lparr>c_eflags := c_eflags (pcb_context c) OR 0x200\<rparr>"

definition spec_switch :: "process_context \<Rightarrow> asched \<Rightarrow> int \<times> process_context \<times> asched" where
  "spec_switch ctx a =
     (let cur = a_current a; xs = a_ready a; k = spec_choice a; c = the (a_procs a cur) in
      if xs = [] then (0, ctx, a\<lparr>a_procs := (a_procs a)(cur \<mapsto> c\<lparr>state := PROCESS_STATE_RUNNING\<rparr>)\<rparr>)
      else let n = incoming (a_ticks a) (the (a_procs a (xs ! k))) in
        (1, resumed n, a\<lparr>a_current := xs ! k, a_ready := take k xs @ drop (Suc k) xs,
           a_procs := (a_procs a)(xs ! k \<mapsto> n),
           a_remaining := (if a_policy a = POLICY_RR then a_quantum a else a_remaining a),
           a_cr3 := (if pdt n \<noteq> pdt c then pdt n else a_cr3 a), a_esp0 := kernel_esp0 n\<rparr>))"

definition spec_schedule :: "process_context \<Rightarrow> bool \<Rightarrow> asched \<Rightarrow> int \<times> process_context \<times> asched" where
  "spec_schedule ctx requeue a =
     (let cur = a_current a; rr = (a_policy a = POLICY_RR \<and> requeue) in
      if cur = 0 then (-1, ctx, a)
      else if rr \<and> a_remaining a > 1 then (0, ctx, a\<lparr>a_remaining := a_remaining a - 1\<rparr>)
      else let c = outgoing ctx requeue (a_ticks a) (the (a_procs a cur));
               a = a\<lparr>a_remaining := (if rr then a_quantum a else a_remaining a)\<rparr> in
        if requeue \<and> length (a_ready a) \<ge> 32
        then (0, ctx, a\<lparr>a_procs := (a_procs a)(cur \<mapsto> c\<lparr>state := PROCESS_STATE_RUNNING\<rparr>)\<rparr>)
        else spec_switch ctx (a\<lparr>a_procs := (a_procs a)(cur \<mapsto> c),
               a_ready := a_ready a @ (if requeue then [cur] else [])\<rparr>))"

lemma burst_key: "sjf_key s = burst_key (pcbs s)"
  by (rule ext) (auto simp: sjf_key_def burst_key_def predicted_burst_for_sjf_def split: option.splits)

lemma abs_simps [simp]:
  "a_current (abs_sched s) = current_pcb s" "a_ready (abs_sched s) = ready_list s" "a_procs (abs_sched s) = pcbs s"
  "a_policy (abs_sched s) = scheduling_policy s" "a_quantum (abs_sched s) = quantum_ticks s"
  "a_remaining (abs_sched s) = remaining_ticks s" "a_ticks (abs_sched s) = pit_ticks s"
  "a_preemptive (abs_sched s) = preemption_enabled s" "a_cr3 (abs_sched s) = cr3 s" "a_esp0 (abs_sched s) = t_esp0 (tss s)"
  by (simp_all add: abs_sched_def)

lemma spec_choice_abs: "spec_choice (abs_sched s) = chosen_index s"
  by (simp add: spec_choice_def chosen_index_def burst_key)

lemma queue_ok_frame:
  "queue_ok s \<Longrightarrow> ready_list s' = ready_list s \<Longrightarrow> rq_ok s' = rq_ok s \<Longrightarrow> dom (pcbs s) \<subseteq> dom (pcbs s') \<Longrightarrow> queue_ok s'"
  unfolding queue_ok_def pcbs_valid_def by (metis domIff subsetD)

text \<open>The lines that a switch logs change nothing else.\<close>

lemma log_process_stat_frame [simp]:
  "ready_list (log_process_stat pd ev cid s) = ready_list s" "rq_ok (log_process_stat pd ev cid s) = rq_ok s"
  "pcbs (log_process_stat pd ev cid s) = pcbs s" "current_pcb (log_process_stat pd ev cid s) = current_pcb s"
  "scheduling_policy (log_process_stat pd ev cid s) = scheduling_policy s"
  "quantum_ticks (log_process_stat pd ev cid s) = quantum_ticks s"
  "remaining_ticks (log_process_stat pd ev cid s) = remaining_ticks s"
  "pit_ticks (log_process_stat pd ev cid s) = pit_ticks s" "cr3 (log_process_stat pd ev cid s) = cr3 s"
  "tss (log_process_stat pd ev cid s) = tss s" "next_pid (log_process_stat pd ev cid s) = next_pid s"
  "preemption_enabled (log_process_stat pd ev cid s) = preemption_enabled s"
  unfolding log_process_stat_def serial_line_def by simp_all

lemma pcb_update_Some [simp]: "pcbs s p = Some c \<Longrightarrow> pcb_update p f s = Some (s\<lparr>pcbs := (pcbs s)(p \<mapsto> f c)\<rparr>)"
  by (simp add: pcb_update_def)

lemma enter_process_frame [simp]:
  "ready_list (enter_process cc cn cid s) = ready_list s" "rq_ok (enter_process cc cn cid s) = rq_ok s"
  "pcbs (enter_process cc cn cid s) = pcbs s" "current_pcb (enter_process cc cn cid s) = current_pcb s"
  "pit_ticks (enter_process cc cn cid s) = pit_ticks s"
  unfolding enter_process_def tss_set_kernel_stack_def update_cr3_def by simp_all

lemma enter_process_abs:
  "abs_sched (enter_process cc cn cid s) = (abs_sched s)\<lparr>
     a_remaining := (if scheduling_policy s = 2 then quantum_ticks s else remaining_ticks s),
     a_cr3 := (if pdt cn \<noteq> pdt cc then pdt cn else cr3 s), a_esp0 := kernel_esp0 cn\<rparr>"
  unfolding enter_process_def tss_set_kernel_stack_def update_cr3_def abs_sched_def by simp

lemma abs_pcbs [simp]: "abs_sched (s\<lparr>pcbs := f\<rparr>) = (abs_sched s)\<lparr>a_procs := f\<rparr>"
  by (simp add: abs_sched_def)

lemma switch_refines:
  assumes ok: "queue_ok s" and cur: "current_pcb s \<in> dom (pcbs s)"
  shows "\<exists>r ctx' s'. switch_to_next (current_pcb s) ctx cid s = Some (r, ctx', s') \<and> queue_ok s' \<and>
    current_pcb s' \<in> dom (pcbs s') \<and> spec_switch ctx (abs_sched s) = (r, ctx', abs_sched s')"
proof -
  obtain cc where cc: "pcbs s (current_pcb s) = Some cc" using cur by auto
  show ?thesis
  proof (cases "ready_list s = []")
    case True
    let ?s = "s\<lparr>pcbs := (pcbs s)(current_pcb s \<mapsto> cc\<lparr>state := 1\<rparr>)\<rparr>"
    have "switch_to_next (current_pcb s) ctx cid s = Some (0, ctx, ?s)"
      using pick.pick_empty [OF ok True] cc by (simp add: switch_to_next_def)
    moreover have "spec_switch ctx (abs_sched s) = (0, ctx, abs_sched ?s)"
      using True cc by (simp add: spec_switch_def abs_sched_def)
    moreover have "queue_ok ?s" using ok by (rule queue_ok_frame) auto
    moreover have "current_pcb ?s \<in> dom (pcbs ?s)" by simp
    ultimately show ?thesis by blast
  next
    case False
    obtain s1 where s1: "scheduler_pick_next s = Some (ready_list s ! chosen_index s, s1)" "queue_ok s1" "queue_only s s1"
      "ready_list s1 = take (chosen_index s) (ready_list s) @ drop (Suc (chosen_index s)) (ready_list s)"
      using pick.pick_takes [OF ok False] by blast
    define nxt where "nxt = ready_list s ! chosen_index s"
    have "nxt \<in> set (ready_list s)" using pick.chosen_less [OF ok False] by (simp add: nxt_def del: ready_list_nth)
    then obtain cn where nxt: "nxt \<noteq> 0" "pcbs s nxt = Some cn"
      using ok by (auto simp: queue_ok_def pcbs_valid_def)
    note frame = queue_onlyD [OF s1(3)]
    have ch: "spec_choice (abs_sched s) = chosen_index s" by (rule spec_choice_abs)
    have sp: "spec_switch ctx (abs_sched s) = (1, resumed (incoming (pit_ticks s) cn), (abs_sched s)\<lparr>a_current := nxt,
        a_ready := ready_list s1, a_procs := (pcbs s)(nxt \<mapsto> incoming (pit_ticks s) cn),
        a_remaining := (if scheduling_policy s = 2 then quantum_ticks s else remaining_ticks s),
        a_cr3 := (if pdt cn \<noteq> pdt cc then pdt cn else cr3 s), a_esp0 := kernel_esp0 cn\<rparr>)"
      using False cc nxt(2) ch s1(4) by (simp add: spec_switch_def incoming_def scheduler_init_context_from_pcb_def flip: nxt_def)
    let ?c1 = "cn\<lparr>last_dispatch_tick := pit_ticks s, state := 1\<rparr>"
    let ?t = "s1\<lparr>current_pcb := nxt, pcbs := (pcbs s)(nxt \<mapsto> ?c1)\<rparr>"
    obtain cc' where cc': "pcbs ?t (current_pcb s) = Some cc'" "pdt cc' = pdt cc"
      using cc nxt(2) by (cases "current_pcb s = nxt") auto
    let ?s' = "(enter_process cc' ?c1 cid ?t)\<lparr>pcbs := (pcbs s)(nxt \<mapsto> incoming (pit_ticks s) cn)\<rparr>"
    have "switch_to_next (current_pcb s) ctx cid s = Some (1, resumed (incoming (pit_ticks s) cn), ?s')"
      using s1(1) nxt cc' frame
      by (simp add: switch_to_next_def scheduler_set_current_def incoming_def resumed_def flip: nxt_def)
    moreover have "queue_ok ?s'" using s1(2) by (rule queue_ok_frame) (use frame in auto)
    moreover have "spec_switch ctx (abs_sched s) = (1, resumed (incoming (pit_ticks s) cn), abs_sched ?s')"
      unfolding sp using cc'(2) frame by (simp add: enter_process_abs)
    moreover have "current_pcb ?s' \<in> dom (pcbs ?s')" by simp
    ultimately show ?thesis by blast
  qed
qed

definition sched_ok :: "'a sched_scheme \<Rightarrow> bool" where
  "sched_ok s \<longleftrightarrow> queue_ok s \<and> (current_pcb s \<noteq> 0 \<longrightarrow> current_pcb s \<in> dom (pcbs s))"

lemma save_and_requeue:
  fixes d :: PCB
  assumes ok: "queue_ok s" and cur: "current_pcb s \<noteq> 0" "pcbs s (current_pcb s) = Some c"
    and room: "length (ready_list s) < 32"
  defines "u \<equiv> s\<lparr>pcbs := (pcbs s)(current_pcb s \<mapsto> d)\<rparr>"
  shows "\<exists>t. scheduler_enqueue_ready (current_pcb s) u = Some (0, t) \<and> queue_ok t \<and> current_pcb t = current_pcb s \<and>
    abs_sched t = (abs_sched s)\<lparr>a_procs := (pcbs s)(current_pcb s \<mapsto> d), a_ready := ready_list s @ [current_pcb s]\<rparr>"
proof -
  have "rq_ok u" using ok by (simp add: u_def queue_ok_def)
  then obtain t where t: "scheduler_enqueue_ready (current_pcb s) u = Some (0, t)" "rq_ok t" "queue_only u t"
    "ready_list t = ready_list u @ [current_pcb s]"
    using fifo.enq_appends [of u "current_pcb s"] cur(1) room by (auto simp: u_def)
  note frame = queue_onlyD [OF t(3)]
  have "pcbs_valid t" using ok cur(1) t(4) frame(1) by (auto simp: u_def queue_ok_def pcbs_valid_def)
  then show ?thesis using t frame by (auto simp: u_def queue_ok_def abs_sched_def)
qed

lemma schedule_refines:
  assumes ok: "sched_ok s"
  shows "\<exists>r ctx' s'. scheduler_schedule_from_context (Some ctx) requeue cid s = Some (r, Some ctx', s') \<and> sched_ok s' \<and>
    spec_schedule ctx requeue (abs_sched s) = (r, ctx', abs_sched s')"
proof (cases "current_pcb s = 0")
  case True
  then show ?thesis using ok by (simp add: scheduler_schedule_from_context_def scheduler_get_current_def spec_schedule_def)
next
  case cur: False
  then obtain c where c: "pcbs s (current_pcb s) = Some c" and q: "queue_ok s" using ok by (auto simp: sched_ok_def)
  show ?thesis
  proof (cases "scheduling_policy s = 2 \<and> requeue \<and> remaining_ticks s > 1")
    case True
    let ?s = "s\<lparr>remaining_ticks := remaining_ticks s - 1\<rparr>"
    have "sched_ok ?s" using ok queue_ok_frame [OF q, of ?s] by (simp add: sched_ok_def)
    moreover have "abs_sched ?s = (abs_sched s)\<lparr>a_remaining := remaining_ticks s - 1\<rparr>" by (simp add: abs_sched_def)
    ultimately show ?thesis using True cur
      by (simp add: scheduler_schedule_from_context_def scheduler_get_current_def spec_schedule_def)
  next
    case early: False
    define s0 where "s0 = s\<lparr>remaining_ticks := (if scheduling_policy s = 2 \<and> requeue then quantum_ticks s else remaining_ticks s)\<rparr>"
    let ?d = "outgoing ctx requeue (pit_ticks s) c"
    let ?u = "s0\<lparr>pcbs := (pcbs s)(current_pcb s \<mapsto> ?d)\<rparr>"
    have s0: "current_pcb s0 = current_pcb s" "pcbs s0 = pcbs s" "queue_ok s0" "ready_list s0 = ready_list s" "pit_ticks s0 = pit_ticks s"
      "abs_sched s0 = (abs_sched s)\<lparr>a_remaining := (if scheduling_policy s = 2 \<and> requeue then quantum_ticks s else remaining_ticks s)\<rparr>"
      using queue_ok_frame [OF q, of s0] by (simp_all add: s0_def abs_sched_def)
    let ?switch = "\<lambda>t. do { (r, ctx, t) \<leftarrow> switch_to_next (current_pcb s) ctx cid t; Some (r, Some ctx, t) }"
    have model: "scheduler_schedule_from_context (Some ctx) requeue cid s =
      (if requeue then do { (r, t) \<leftarrow> scheduler_enqueue_ready (current_pcb s) ?u;
         if r < 0 then do { t \<leftarrow> pcb_update (current_pcb s) (\<lambda>c. c\<lparr>state := 1\<rparr>) t; Some (0, Some ctx, t) } else ?switch t }
       else ?switch ?u)"
    proof (cases requeue)
      case True
      have "scheduler_schedule_from_context (Some ctx) requeue cid s = do {
          (full, t) \<leftarrow> do { (r, t) \<leftarrow> scheduler_enqueue_ready (current_pcb s) ?u;
            if r < 0 then do { t \<leftarrow> pcb_update (current_pcb s) (\<lambda>c. c\<lparr>state := 1\<rparr>) t; Some (True, t) } else Some (False, t) };
          if full then Some (0, Some ctx, t) else ?switch t }"
        using True cur c early
        by (cases "scheduling_policy s = 2")
          (simp_all add: scheduler_schedule_from_context_def scheduler_get_current_def outgoing_def s0_def)
      then show ?thesis using True
        by (cases "scheduler_enqueue_ready (current_pcb s) ?u") (auto split: prod.splits)
    next
      case False
      then show ?thesis using cur c
        by (simp add: scheduler_schedule_from_context_def scheduler_get_current_def outgoing_def s0_def)
    qed
    have spec: "spec_schedule ctx requeue (abs_sched s) =
      (if requeue \<and> length (ready_list s) \<ge> 32
       then (0, ctx, (abs_sched s0)\<lparr>a_procs := (pcbs s)(current_pcb s \<mapsto> ?d\<lparr>state := 1\<rparr>)\<rparr>)
       else spec_switch ctx ((abs_sched s0)\<lparr>a_procs := (pcbs s)(current_pcb s \<mapsto> ?d),
               a_ready := ready_list s @ (if requeue then [current_pcb s] else [])\<rparr>))"
      using early cur c s0(6) by (simp add: spec_schedule_def)
    have fin: "\<exists>r ctx' s'. ?switch t = Some (r, Some ctx', s') \<and> sched_ok s' \<and> spec_switch ctx (abs_sched t) = (r, ctx', abs_sched s')"
      if t: "queue_ok t" "current_pcb t = current_pcb s" "pcbs t (current_pcb s) \<noteq> None" for t :: "'a sched_scheme"
    proof -
      obtain r ctx' s' where "switch_to_next (current_pcb s) ctx cid t = Some (r, ctx', s')" "queue_ok s'"
        "current_pcb s' \<in> dom (pcbs s')" "spec_switch ctx (abs_sched t) = (r, ctx', abs_sched s')"
        using switch_refines [of t ctx cid] t by (auto simp: domIff)
      then show ?thesis by (simp add: sched_ok_def)
    qed
    show ?thesis
    proof (cases requeue)
      case False
      have "queue_ok ?u" using s0(3) by (rule queue_ok_frame) (auto simp: s0(2))
      moreover have "(abs_sched s0)\<lparr>a_procs := f, a_ready := ready_list s\<rparr> = (abs_sched s0)\<lparr>a_procs := f\<rparr>" for f
        using s0(4) by (simp add: abs_sched_def)
      ultimately show ?thesis using fin [of ?u] False model spec s0(1) by simp
    next
      case rq: True
      show ?thesis
      proof (cases "length (ready_list s) < 32")
        case True
        then obtain t where "scheduler_enqueue_ready (current_pcb s) ?u = Some (0, t)" "queue_ok t" "current_pcb t = current_pcb s"
          "abs_sched t = (abs_sched s0)\<lparr>a_procs := (pcbs s)(current_pcb s \<mapsto> ?d), a_ready := ready_list s @ [current_pcb s]\<rparr>"
          using save_and_requeue [of s0 c ?d] s0 cur c by auto
        moreover from this(4) have "pcbs t = (pcbs s)(current_pcb s \<mapsto> ?d)" using abs_simps(3) [of t] by simp
        ultimately show ?thesis using fin [of t] rq True model spec by simp
      next
        case False
        let ?v = "s0\<lparr>pcbs := (pcbs s)(current_pcb s \<mapsto> ?d\<lparr>state := 1\<rparr>)\<rparr>"
        have "scheduler_enqueue_ready (current_pcb s) ?u = Some (-1, ?u)"
          using fifo.enq_refuses [of ?u "current_pcb s"] s0 False by (simp add: queue_ok_def)
        moreover have "sched_ok ?v" using queue_ok_frame [OF s0(3), of ?v] s0 by (auto simp: sched_ok_def)
        ultimately show ?thesis using rq False model spec s0 by simp
      qed
    qed
  qed
qed

subsection \<open>Invariants of the abstract scheduler\<close>

text \<open>
  \<open>ready_inv\<close>: the queue holds each process at most once, each with a control block marked READY, and
  not the running one.  \<open>space_inv\<close>: the loaded address space and kernel stack are those of the running
  process.  \<open>running\<close>: the current control block is marked RUNNING.
\<close>

definition ready_entries :: "asched \<Rightarrow> bool" where
  "ready_entries a \<longleftrightarrow> distinct (a_ready a) \<and>
     (\<forall>p \<in> set (a_ready a). p \<noteq> 0 \<and> (\<exists>c. a_procs a p = Some c \<and> state c = PROCESS_STATE_READY))"

definition space_inv :: "asched \<Rightarrow> bool" where
  "space_inv a \<longleftrightarrow> (\<exists>c. a_procs a (a_current a) = Some c \<and> a_cr3 a = pdt c \<and> a_esp0 a = kernel_esp0 c)"

definition running :: "asched \<Rightarrow> bool" where
  "running a \<longleftrightarrow> (\<exists>c. a_procs a (a_current a) = Some c \<and> state c = PROCESS_STATE_RUNNING)"

definition asched_inv :: "asched \<Rightarrow> bool" where
  "asched_inv a \<longleftrightarrow> ready_entries a \<and> a_current a \<notin> set (a_ready a) \<and> space_inv a"

lemma pcb_ops_frame [simp]:
  "pdt (outgoing ctx rq now c) = pdt c" "kernel_esp0 (outgoing ctx rq now c) = kernel_esp0 c" "pid (outgoing ctx rq now c) = pid c"
  "pcb_context (outgoing ctx rq now c) = ctx" "state (outgoing ctx True now c) = 0"
  "pdt (incoming now c) = pdt c" "kernel_esp0 (incoming now c) = kernel_esp0 c" "pid (incoming now c) = pid c"
  "state (incoming now c) = 1"
  "c_cs (pcb_context c) \<noteq> 0 \<Longrightarrow> pcb_context (incoming now c) = pcb_context c"
  by (simp_all add: outgoing_def incoming_def save_context_def scheduler_update_burst_prediction_def
      scheduler_init_context_from_pcb_def)

lemma spec_choice_less: "a_ready a \<noteq> [] \<Longrightarrow> spec_choice a < length (a_ready a)"
  using first_min_arg_min_index [of "a_ready a"] by (auto simp: spec_choice_def first_min_def)

lemma distinct_remove_nth:
  assumes "distinct xs" and "k < length xs"
  shows "distinct (take k xs @ drop (Suc k) xs)" and "set (take k xs @ drop (Suc k) xs) = set xs - {xs ! k}"
proof -
  have xs: "xs = take k xs @ xs ! k # drop (Suc k) xs" using assms(2) by (rule id_take_nth_drop)
  have d: "distinct (take k xs @ xs ! k # drop (Suc k) xs)" using assms(1) xs by simp
  then show "distinct (take k xs @ drop (Suc k) xs)" by simp
  have "set xs = set (take k xs @ xs ! k # drop (Suc k) xs)" using xs by simp
  with d show "set (take k xs @ drop (Suc k) xs) = set xs - {xs ! k}" by auto
qed

lemma spec_switch_inv:
  assumes r: "ready_entries a" and sp: "space_inv a" and sw: "spec_switch ctx a = (r, ctx', a')"
  shows "asched_inv a' \<and> running a' \<and> a_current a' \<in> insert (a_current a) (set (a_ready a))"
proof (cases "a_ready a = []")
  case True
  then show ?thesis using sw sp r
    by (auto simp: spec_switch_def asched_inv_def ready_entries_def space_inv_def running_def)
next
  case False
  let ?k = "spec_choice a" and ?xs = "a_ready a"
  have k: "?k < length ?xs" using False by (rule spec_choice_less)
  then have mem: "?xs ! ?k \<in> set ?xs" by simp
  obtain cn where cn: "a_procs a (?xs ! ?k) = Some cn" using r mem by (auto simp: ready_entries_def)
  obtain c where c: "a_procs a (a_current a) = Some c" "a_cr3 a = pdt c" "a_esp0 a = kernel_esp0 c"
    using sp by (auto simp: space_inv_def)
  have d: "distinct ?xs" using r by (simp add: ready_entries_def)
  have a': "a' = a\<lparr>a_current := ?xs ! ?k, a_ready := take ?k ?xs @ drop (Suc ?k) ?xs,
           a_procs := (a_procs a)(?xs ! ?k \<mapsto> incoming (a_ticks a) cn),
           a_remaining := (if a_policy a = POLICY_RR then a_quantum a else a_remaining a),
           a_cr3 := (if pdt cn \<noteq> pdt c then pdt cn else a_cr3 a), a_esp0 := kernel_esp0 cn\<rparr>"
    using sw False cn c by (auto simp: spec_switch_def)
  have "ready_entries a'" using r distinct_remove_nth [OF d k] unfolding a' by (simp add: ready_entries_def)
  moreover have "space_inv a'" "running a'" unfolding a' using c(2) by (simp_all add: space_inv_def running_def)
  moreover have "a_current a' \<notin> set (a_ready a')" unfolding a' using distinct_remove_nth [OF d k] by simp
  ultimately show ?thesis using mem unfolding asched_inv_def a' by simp
qed

lemma spec_schedule_at:
  assumes inv: "asched_inv a" and cur: "a_current a \<noteq> 0" and run: "b \<Longrightarrow> requeue \<Longrightarrow> running a"
    and sw: "spec_schedule ctx requeue a = (r, ctx', a')"
  shows "asched_inv a' \<and> (b \<longrightarrow> running a') \<and> a_current a' \<in> insert (a_current a) (set (a_ready a))"
proof -
  obtain c where c: "a_procs a (a_current a) = Some c" "a_cr3 a = pdt c" "a_esp0 a = kernel_esp0 c"
    using inv by (auto simp: asched_inv_def space_inv_def)
  show ?thesis
  proof (cases "requeue \<and> (a_policy a = 2 \<and> a_remaining a > 1 \<or> length (a_ready a) \<ge> 32)")
    case True
    then show ?thesis using sw cur run inv c
      by (cases "a_policy a = 2 \<and> a_remaining a > 1")
        (auto simp: spec_schedule_def asched_inv_def ready_entries_def space_inv_def running_def)
  next
    case False
    let ?b = "a\<lparr>a_remaining := (if a_policy a = 2 \<and> requeue then a_quantum a else a_remaining a),
       a_procs := (a_procs a)(a_current a \<mapsto> outgoing ctx requeue (a_ticks a) c),
       a_ready := a_ready a @ (if requeue then [a_current a] else [])\<rparr>"
    have "spec_switch ctx ?b = (r, ctx', a')" using sw False cur c by (auto simp: spec_schedule_def)
    moreover have "ready_entries ?b" using inv cur
      by (cases requeue) (auto simp: asched_inv_def ready_entries_def)
    moreover have "space_inv ?b" using c by (simp add: space_inv_def)
    ultimately show ?thesis using spec_switch_inv [of ?b ctx r ctx' a'] by auto
  qed
qed

lemmas spec_schedule_inv = spec_schedule_at [where b = True, simplified]

lemma spec_schedule_settings:
  assumes "spec_schedule ctx requeue a = (r, ctx', a')"
  shows "a_policy a' = a_policy a" and "a_quantum a' = a_quantum a" and "a_preemptive a' = a_preemptive a" and "a_ticks a' = a_ticks a"
  using assms by (auto simp: spec_schedule_def spec_switch_def split: if_splits)

subsection \<open>Conservation\<close>

lemma mset_remove_nth:
  "k < length xs \<Longrightarrow> add_mset (xs ! k) (mset (take k xs @ drop (Suc k) xs)) = mset xs"
proof -
  assume k: "k < length xs"
  have "mset xs = mset (take k xs @ xs ! k # drop (Suc k) xs)" using id_take_nth_drop [OF k] by (rule arg_cong)
  then show ?thesis by simp
qed

lemma spec_switch_mset:
  assumes "spec_switch ctx a = (r, ctx', a')" and "a_ready a \<noteq> []"
  shows "mset (a_current a' # a_ready a') = mset (a_ready a)" and "r = 1"
  using assms mset_remove_nth [OF spec_choice_less [OF assms(2)]] by (auto simp: spec_switch_def)

lemma spec_schedule_mset:
  assumes "spec_schedule ctx requeue a = (r, ctx', a')" and "a_current a \<noteq> 0"
  shows "requeue \<Longrightarrow> mset (a_current a' # a_ready a') = mset (a_current a # a_ready a)"
    and "\<not> requeue \<Longrightarrow> a_ready a \<noteq> [] \<Longrightarrow> mset (a_current a' # a_ready a') = mset (a_ready a)"
    and "\<not> requeue \<Longrightarrow> a_ready a = [] \<Longrightarrow> r = 0 \<and> ctx' = ctx \<and> a_current a' = a_current a \<and> a_ready a' = []"
proof -
  let ?c = "outgoing ctx requeue (a_ticks a) (the (a_procs a (a_current a)))"
  let ?b = "a\<lparr>a_remaining := (if a_policy a = 2 \<and> requeue then a_quantum a else a_remaining a),
       a_procs := (a_procs a)(a_current a \<mapsto> ?c), a_ready := a_ready a @ (if requeue then [a_current a] else [])\<rparr>"
  show "mset (a_current a' # a_ready a') = mset (a_current a # a_ready a)" if rq: requeue
  proof (cases "a_policy a = 2 \<and> a_remaining a > 1 \<or> length (a_ready a) \<ge> 32")
    case True
    then show ?thesis using assms rq
      by (cases "a_policy a = 2 \<and> a_remaining a > 1") (auto simp: spec_schedule_def)
  next
    case False
    then have "spec_switch ctx ?b = (r, ctx', a')" using assms rq by (auto simp: spec_schedule_def)
    from spec_switch_mset(1) [OF this] rq show ?thesis by simp
  qed
  show "mset (a_current a' # a_ready a') = mset (a_ready a)" if "\<not> requeue" "a_ready a \<noteq> []"
  proof -
    have "spec_switch ctx ?b = (r, ctx', a')" using assms that by (auto simp: spec_schedule_def)
    from spec_switch_mset(1) [OF this] that show ?thesis by simp
  qed
  show "r = 0 \<and> ctx' = ctx \<and> a_current a' = a_current a \<and> a_ready a' = []" if "\<not> requeue" "a_ready a = []"
    using assms that by (auto simp: spec_schedule_def spec_switch_def)
qed

subsection \<open>Waiting\<close>

text \<open>
  A turn of the timer: the tick counter advances and the running process is preempted with the
  context \<open>ctx\<close> its registers had.  \<open>spec_ticks\<close> is a run of them; it returns the context that the last one leaves.
\<close>

primrec spec_ticks :: "process_context list \<Rightarrow> process_context \<Rightarrow> asched \<Rightarrow> process_context \<times> asched" where
  "spec_ticks [] out a = (out, a)"
| "spec_ticks (ctx # ctxs) out a =
     (let (r, out, a) = spec_schedule ctx True (a\<lparr>a_ticks := a_ticks a + 1\<rparr>) in spec_ticks ctxs out a)"

text \<open>How many ticks the process at position \<open>i\<close> of the queue waits under a FIFO policy.\<close>

definition wait_ticks :: "asched \<Rightarrow> nat \<Rightarrow> nat" where
  "wait_ticks a i = (if a_policy a = POLICY_RR
     then max 1 (unat (a_remaining a)) + i * max 1 (unat (a_quantum a)) else Suc i)"

text \<open>The running process can be preempted and its successor is found at the head of the queue.\<close>

definition fifo_ready :: "asched \<Rightarrow> bool" where
  "fifo_ready a \<longleftrightarrow> asched_inv a \<and> running a \<and> a_current a \<noteq> 0 \<and> a_policy a \<noteq> POLICY_SJF \<and> length (a_ready a) < 32"

lemma asched_inv_ticks [simp]: "asched_inv (a\<lparr>a_ticks := n\<rparr>) = asched_inv a" "running (a\<lparr>a_ticks := n\<rparr>) = running a"
  by (simp_all add: asched_inv_def ready_entries_def space_inv_def running_def)

lemma fifo_ready_tick:
  assumes "fifo_ready a" and "spec_schedule ctx True (a\<lparr>a_ticks := n\<rparr>) = (r, out, a')"
    and "a_policy a' = a_policy a"
  shows "fifo_ready a'"
proof -
  let ?a = "a\<lparr>a_ticks := n\<rparr>"
  have inv: "asched_inv a' \<and> running a' \<and> a_current a' \<in> insert (a_current a) (set (a_ready a))"
    using spec_schedule_inv [of ?a True ctx r out a'] assms(1,2) by (simp add: fifo_ready_def)
  have "mset (a_current a' # a_ready a') = mset (a_current a # a_ready a)"
    using spec_schedule_mset(1) [OF assms(2)] assms(1) by (simp add: fifo_ready_def)
  then have "length (a_ready a') = length (a_ready a)" by (metis length_Cons nat.inject size_mset)
  moreover have "a_current a' \<noteq> 0"
    using inv assms(1) by (auto simp: fifo_ready_def asched_inv_def ready_entries_def)
  ultimately show ?thesis using inv assms(1,3) by (simp add: fifo_ready_def)
qed

lemma fifo_switch:
  assumes f: "fifo_ready a" and early: "\<not> (a_policy a = POLICY_RR \<and> a_remaining a > 1)"
    and q: "a_ready a = q # qs" and c: "a_procs a q = Some c"
  shows "\<exists>a'. spec_schedule ctx True (a\<lparr>a_ticks := n\<rparr>) = (1, resumed (incoming n c), a') \<and>
    a_current a' = q \<and> a_ready a' = qs @ [a_current a] \<and> a_policy a' = a_policy a \<and> a_quantum a' = a_quantum a \<and>
    (a_policy a = POLICY_RR \<longrightarrow> a_remaining a' = a_quantum a) \<and>
    (\<forall>p. p \<noteq> a_current a \<and> p \<noteq> q \<longrightarrow> a_procs a' p = a_procs a p)"
proof -
  have "q \<noteq> a_current a" using f q by (auto simp: fifo_ready_def asched_inv_def)
  then show ?thesis using f early q c
    by (auto simp: fifo_ready_def spec_schedule_def spec_switch_def spec_choice_def)
qed

lemma waits_its_turn:
  assumes "fifo_ready a" and "i < length (a_ready a)" and "a_ready a ! i = p"
    and "a_procs a p = Some c" and "c_cs (pcb_context c) \<noteq> 0" and "length ctxs = wait_ticks a i"
  shows "\<exists>a'. spec_ticks ctxs out a = (resumed c, a') \<and> a_current a' = p \<and> fifo_ready a'"
  using assms
proof (induction ctxs arbitrary: a i out)
  case Nil
  then show ?case by (simp add: wait_ticks_def split: if_splits)
next
  case (Cons ctx ctxs)
  let ?t = "a\<lparr>a_ticks := a_ticks a + 1\<rparr>"
  show ?case
  proof (cases "a_policy a = 2 \<and> a_remaining a > 1")
    case True
    let ?a' = "?t\<lparr>a_remaining := a_remaining a - 1\<rparr>"
    have sw: "spec_schedule ctx True ?t = (0, ctx, ?a')"
      using True Cons.prems(1) by (simp add: spec_schedule_def fifo_ready_def)
    have "unat (a_remaining a) > 1" using True by (simp add: word_less_nat_alt)
    then have "unat (a_remaining a - 1) = unat (a_remaining a) - 1" by (subst unat_minus_one) auto
    then have "length ctxs = wait_ticks ?a' i"
      using Cons.prems(6) True \<open>unat (a_remaining a) > 1\<close> by (simp add: wait_ticks_def)
    then show ?thesis using Cons.IH [of ?a' i ctx] Cons.prems fifo_ready_tick [OF Cons.prems(1) sw] sw by simp
  next
    case False
    obtain q qs where q: "a_ready a = q # qs" using Cons.prems(2) by (cases "a_ready a") auto
    obtain cq where cq: "a_procs a q = Some cq"
      using Cons.prems(1) q by (auto simp: fifo_ready_def asched_inv_def ready_entries_def)
    obtain a' where a': "spec_schedule ctx True ?t = (1, resumed (incoming (a_ticks a + 1) cq), a')" "a_current a' = q"
      "a_ready a' = qs @ [a_current a]" "a_policy a' = a_policy a" "a_quantum a' = a_quantum a"
      "a_policy a = 2 \<longrightarrow> a_remaining a' = a_quantum a" "\<forall>p. p \<noteq> a_current a \<and> p \<noteq> q \<longrightarrow> a_procs a' p = a_procs a p"
      using fifo_switch [OF Cons.prems(1) False q cq] by blast
    have f': "fifo_ready a'" by (rule fifo_ready_tick [OF Cons.prems(1) a'(1,4)])
    show ?thesis
    proof (cases i)
      case 0
      then have p: "p = q" "cq = c" using Cons.prems(3,4) q cq by auto
      have "\<not> unat (a_remaining a) > 1" if "a_policy a = 2" using False that by (simp add: word_less_nat_alt)
      then have "ctxs = []" using Cons.prems(6) 0 by (cases "a_policy a = 2") (auto simp: wait_ticks_def max_def split: if_splits)
      then show ?thesis using a'(1,2) p f' Cons.prems(5) by (simp add: resumed_def)
    next
      case (Suc j)
      have j: "j < length qs" "qs ! j = p" using Cons.prems(2,3) q Suc by auto
      have d: "distinct (q # qs)" "a_current a \<notin> set (q # qs)"
        using Cons.prems(1) q by (auto simp: fifo_ready_def asched_inv_def ready_entries_def)
      have "p \<in> set qs" using j by auto
      with d have "p \<noteq> a_current a" "p \<noteq> q" by auto
      then have "a_procs a' p = Some c" using a'(7) Cons.prems(4) by simp
      moreover have "a_ready a' ! j = p" using j a'(3) by (simp add: nth_append)
      moreover have "\<not> unat (a_remaining a) > 1" if "a_policy a = 2" using False that by (simp add: word_less_nat_alt)
      then have "length ctxs = wait_ticks a' j"
        using Cons.prems(6) Suc a'(4-6) by (cases "a_policy a = 2") (auto simp: wait_ticks_def)
      ultimately show ?thesis using Cons.IH [of a' j "resumed (incoming (a_ticks a + 1) cq)"] f' j a'(1,3) Cons.prems(5) by simp
    qed
  qed
qed

subsection \<open>Properties of scheduling\<close>

text \<open>The invariant between interrupts: the queue and the control blocks are consistent and a process runs.\<close>

definition sched_inv :: "'a sched_scheme \<Rightarrow> bool" where
  "sched_inv s \<longleftrightarrow> sched_ok s \<and> asched_inv (abs_sched s) \<and> running (abs_sched s) \<and> current_pcb s \<noteq> 0"

text \<open>
  The same without the state of the running process, unless \<open>b\<close> asks for it: \<open>exec\<close> leaves the process
  that called it marked READY while it runs.
\<close>

definition sched_at :: "bool \<Rightarrow> 'a sched_scheme \<Rightarrow> bool" where
  "sched_at b s \<longleftrightarrow> sched_ok s \<and> asched_inv (abs_sched s) \<and> (b \<longrightarrow> running (abs_sched s)) \<and> current_pcb s \<noteq> 0"

lemma sched_at_True [simp]: "sched_at True s = sched_inv s"
  by (simp add: sched_at_def sched_inv_def)

lemma sched_at_mono: "sched_at b s \<Longrightarrow> sched_at False s" "sched_inv s \<Longrightarrow> sched_at b s"
  by (simp_all add: sched_at_def sched_inv_def)

lemma schedule_at:
  assumes "sched_at b s"
  obtains r ctx' s' where "scheduler_schedule_from_context (Some ctx) requeue cid s = Some (r, Some ctx', s')" "sched_at b s'"
    "spec_schedule ctx requeue (abs_sched s) = (r, ctx', abs_sched s')"
proof -
  have i: "sched_ok s" "asched_inv (abs_sched s)" "b \<longrightarrow> running (abs_sched s)" "current_pcb s \<noteq> 0" using assms by (simp_all add: sched_at_def)
  from schedule_refines [OF i(1), of ctx requeue cid] obtain r ctx' s' where
    s': "scheduler_schedule_from_context (Some ctx) requeue cid s = Some (r, Some ctx', s')" "sched_ok s'"
    "spec_schedule ctx requeue (abs_sched s) = (r, ctx', abs_sched s')" by blast
  have "asched_inv (abs_sched s') \<and> (b \<longrightarrow> running (abs_sched s')) \<and> current_pcb s' \<in> insert (current_pcb s) (set (ready_list s))"
    using spec_schedule_at [OF i(2) _ _ s'(3), of b] i(3,4) by simp
  moreover have "0 \<notin> set (ready_list s)" using i(2) by (auto simp: asched_inv_def ready_entries_def)
  ultimately have "sched_at b s'" using s'(2) i(4) by (auto simp: sched_at_def)
  then show thesis using s'(1,3) by (intro that)
qed

lemma sample_sched_inv [simp]: "sched_inv (sample_state m)" "sched_ok (sample_state m)" "asched_inv (abs_sched (sample_state m))"
  "running (abs_sched (sample_state m))" "current_pcb (sample_state m) = 0x1000"
proof -
  show cur: "current_pcb (sample_state m) = 0x1000" by (simp add: sample_state_def)
  have m: "cr3 (sample_state m) = 0x200000" "t_esp0 (tss (sample_state m)) = 0xC0200001" by (simp_all add: sample_state_def)
  show ok: "sched_ok (sample_state m)" by (simp add: sched_ok_def cur)
  show inv: "asched_inv (abs_sched (sample_state m))"
    by (auto simp: asched_inv_def ready_entries_def space_inv_def cur m sample_pcb_def)
  show run: "running (abs_sched (sample_state m))" by (simp add: running_def cur sample_pcb_def)
  show "sched_inv (sample_state m)" using ok inv run by (simp add: sched_inv_def cur)
qed

text \<open>No switch changes the address space of a process.\<close>

lemma spec_schedule_pdt:
  assumes "spec_schedule ctx requeue a = (r, ctx', a')" and "a_current a \<in> dom (a_procs a)" "set (a_ready a) \<subseteq> dom (a_procs a)"
  shows "map_option pdt (a_procs a' p) = map_option pdt (a_procs a p)"
proof -
  obtain c where c: "a_procs a (a_current a) = Some c" using assms(2) by auto
  have sw: "map_option pdt (a_procs b' p) = map_option pdt (a_procs b p)"
    if "spec_switch ctx b = (r, ctx', b')" "a_current b \<in> dom (a_procs b)" "set (a_ready b) \<subseteq> dom (a_procs b)" for b b'
  proof (cases "a_ready b = []")
    case True
    then show ?thesis using that(1,2) by (auto simp: spec_switch_def)
  next
    case False
    then have "a_ready b ! spec_choice b \<in> dom (a_procs b)" using that(3) nth_mem [OF spec_choice_less [OF False]] by blast
    then show ?thesis using that(1) False by (auto simp: spec_switch_def)
  qed
  show ?thesis
  proof (cases "a_current a = 0 \<or> requeue \<and> (a_policy a = POLICY_RR \<and> a_remaining a > 1 \<or> length (a_ready a) \<ge> 32)")
    case True
    then show ?thesis using assms(1) c by (auto simp: spec_schedule_def split: if_splits)
  next
    case False
    let ?b = "a\<lparr>a_remaining := (if a_policy a = POLICY_RR \<and> requeue then a_quantum a else a_remaining a),
       a_procs := (a_procs a)(a_current a \<mapsto> outgoing ctx requeue (a_ticks a) c),
       a_ready := a_ready a @ (if requeue then [a_current a] else [])\<rparr>"
    have "spec_switch ctx ?b = (r, ctx', a')" using assms(1) False c by (auto simp: spec_schedule_def)
    moreover have "a_current ?b \<in> dom (a_procs ?b)" "set (a_ready ?b) \<subseteq> dom (a_procs ?b)" using assms(3) by auto
    ultimately show ?thesis using sw [of ?b a'] c by (simp split: if_splits)
  qed
qed

lemma spec_schedule_others:
  assumes "spec_schedule ctx requeue a = (r, ctx', a')" and "p \<noteq> a_current a" and "p \<noteq> a_current a'"
  shows "a_procs a' p = a_procs a p"
  using assms by (auto simp: spec_schedule_def spec_switch_def split: if_splits)

lemma spec_schedule_switched:
  assumes "spec_schedule ctx requeue a = (r, ctx', a')" and "r = 1"
  shows "\<exists>n. a_procs a' (a_current a') = Some n \<and> ctx' = resumed n"
    and "a_current a' \<noteq> a_current a \<Longrightarrow> \<exists>c. a_procs a' (a_current a) = Some c \<and> pcb_context c = ctx"
  using assms by (auto simp: spec_schedule_def spec_switch_def split: if_splits)

lemma spec_schedule_stays:
  "spec_schedule ctx requeue a = (r, ctx', a') \<Longrightarrow> r \<noteq> 1 \<Longrightarrow> ctx' = ctx \<and> a_current a' = a_current a"
  by (auto simp: spec_schedule_def spec_switch_def split: if_splits)

text \<open>
  The registers with which a control block goes on: those that were saved, or, for a process that has
  never run (no code segment saved), those that its creation gave it; interrupts enabled.
\<close>

definition resume_context :: "PCB \<Rightarrow> process_context" where
  "resume_context c =
     (if c_cs (pcb_context c) = 0
      then \<lparr>c_ebp = 0, c_edi = 0, c_esi = 0, c_edx = 0, c_ecx = 0, c_ebx = 0, c_eax = 0, c_eip = eip c, c_cs = cs c,
            c_eflags = eflags c OR 0x200, c_user_esp = esp c, c_user_ss = ss c\<rparr>
      else (pcb_context c)\<lparr>c_eflags := c_eflags (pcb_context c) OR 0x200\<rparr>)"

lemma resumed_incoming: "resumed (incoming now c) = resume_context c"
  by (simp add: resumed_def incoming_def resume_context_def scheduler_init_context_from_pcb_def)

lemma spec_schedule_resumes:
  assumes sw: "spec_schedule ctx requeue a = (r, ctx', a')" "r = 1" and q: "set (a_ready a) \<subseteq> dom (a_procs a)"
  shows "a_current a' \<noteq> a_current a \<Longrightarrow> \<exists>n. a_procs a (a_current a') = Some n \<and> ctx' = resume_context n"
    and "a_current a' = a_current a \<Longrightarrow> c_cs ctx \<noteq> 0 \<Longrightarrow> ctx' = ctx\<lparr>c_eflags := c_eflags ctx OR 0x200\<rparr>"
proof -
  let ?c = "outgoing ctx requeue (a_ticks a) (the (a_procs a (a_current a)))"
  let ?b = "a\<lparr>a_remaining := (if a_policy a = POLICY_RR \<and> requeue then a_quantum a else a_remaining a),
    a_procs := (a_procs a)(a_current a \<mapsto> ?c), a_ready := a_ready a @ (if requeue then [a_current a] else [])\<rparr>"
  have b: "spec_switch ctx ?b = (1, ctx', a')" using sw by (auto simp: spec_schedule_def Let_def split: if_splits)
  then have ne: "a_ready ?b \<noteq> []" by (auto simp: spec_switch_def)
  let ?p = "a_ready ?b ! spec_choice ?b"
  have p: "?p \<in> set (a_ready ?b)" using spec_choice_less [OF ne] by (rule nth_mem)
  have e: "a_current a' = ?p" "ctx' = resume_context (the (a_procs ?b ?p))"
    using b ne by (auto simp: spec_switch_def Let_def resumed_incoming)
  show "\<exists>n. a_procs a (a_current a') = Some n \<and> ctx' = resume_context n" if "a_current a' \<noteq> a_current a"
  proof -
    have n: "?p \<noteq> a_current a" using that e(1) by simp
    then have "?p \<in> set (a_ready a)" using p by (auto split: if_splits)
    then obtain n where "a_procs a ?p = Some n" using q by blast
    then show ?thesis using e n by simp
  qed
  show "ctx' = ctx\<lparr>c_eflags := c_eflags ctx OR 0x200\<rparr>" if "a_current a' = a_current a" "c_cs ctx \<noteq> 0"
  proof -
    have "?p = a_current a" using that(1) e(1) by simp
    then show ?thesis using e(2) that(2) by (simp add: resume_context_def)
  qed
qed

lemma sched_ok_ready: "sched_ok s \<Longrightarrow> set (ready_list s) \<subseteq> dom (pcbs s)"
  by (auto simp: sched_ok_def queue_ok_def pcbs_valid_def)

text \<open>
  C5.  Refinement.  On a consistent queue \<open>scheduler_schedule_from_context\<close> never fails, and its
  result, the context it leaves and its effect on the running process, the queue, the control blocks,
  the quantum, the page directory and the kernel stack are those of the abstract scheduler.
\<close>

theorem scheduler_refines_spec:
  assumes "sched_ok s"
  shows "\<exists>r ctx' s'. scheduler_schedule_from_context (Some ctx) requeue cid s = Some (r, Some ctx', s') \<and> sched_ok s' \<and>
    spec_schedule ctx requeue (abs_sched s) = (r, ctx', abs_sched s')"
  using assms by (rule schedule_refines)

theorem scheduler_refines_spec_witness:
  "\<exists>r ctx' s'. scheduler_schedule_from_context (Some (sample_context 9)) True 2 sample_sched = Some (r, Some ctx', s') \<and>
    spec_schedule (sample_context 9) True (abs_sched sample_sched) = (r, ctx', abs_sched s')"
  using scheduler_refines_spec [of sample_sched, OF sample_sched_inv(2)] by blast

text \<open>
  C20.  The invariant is kept by every call, whichever branch it takes: the queue holds each process at
  most once, all of them READY and none of them running; the current process is RUNNING, and the page
  directory and the kernel stack in use are its own.
\<close>

theorem schedule_keeps_invariant:
  assumes "sched_ok s" and "asched_inv (abs_sched s)" and "current_pcb s \<noteq> 0" and "requeue \<Longrightarrow> running (abs_sched s)"
  shows "\<exists>r ctx' s'. scheduler_schedule_from_context (Some ctx) requeue cid s = Some (r, Some ctx', s') \<and> sched_inv s'"
proof -
  obtain r ctx' s' where s': "scheduler_schedule_from_context (Some ctx) requeue cid s = Some (r, Some ctx', s')" "sched_ok s'"
    "spec_schedule ctx requeue (abs_sched s) = (r, ctx', abs_sched s')" using schedule_refines [OF assms(1)] by blast
  have "asched_inv (abs_sched s') \<and> running (abs_sched s') \<and> current_pcb s' \<in> insert (current_pcb s) (set (ready_list s))"
    using spec_schedule_inv [OF assms(2) _ _ s'(3)] assms(3,4) by simp
  moreover have "0 \<notin> set (ready_list s)" using assms(2) by (auto simp: asched_inv_def ready_entries_def)
  ultimately show ?thesis using s'(1,2) assms(3) by (auto simp: sched_inv_def)
qed

theorem schedule_keeps_invariant_witness:
  "\<exists>r ctx' s'. scheduler_schedule_from_context (Some (sample_context 9)) True 2 sample_sched = Some (r, Some ctx', s') \<and> sched_inv s'"
  using schedule_keeps_invariant [of sample_sched True "sample_context 9" 2] by simp

text \<open>
  C21.  No process is lost and none is duplicated.  When the running process is requeued, the processes
  that run or wait are the same before and after; when it is not (it exits), exactly it leaves.
\<close>

theorem schedule_conserves_processes:
  assumes "sched_ok s" and "current_pcb s \<noteq> 0"
  shows "\<exists>r ctx' s'. scheduler_schedule_from_context (Some ctx) requeue cid s = Some (r, Some ctx', s') \<and>
    (requeue \<longrightarrow> mset (current_pcb s' # ready_list s') = mset (current_pcb s # ready_list s)) \<and>
    (\<not> requeue \<and> ready_list s \<noteq> [] \<longrightarrow> mset (current_pcb s' # ready_list s') = mset (ready_list s))"
proof -
  obtain r ctx' s' where s': "scheduler_schedule_from_context (Some ctx) requeue cid s = Some (r, Some ctx', s')"
    "spec_schedule ctx requeue (abs_sched s) = (r, ctx', abs_sched s')" using schedule_refines [OF assms(1)] by blast
  from spec_schedule_mset(1,2) [OF s'(2)] s'(1) assms(2) show ?thesis by simp
qed

theorem schedule_conserves_processes_witness:
  "\<exists>r ctx' s'. scheduler_schedule_from_context (Some (sample_context 9)) True 2 sample_sched = Some (r, Some ctx', s') \<and>
    mset (current_pcb s' # ready_list s') = {#0x1000, 0x2000, 0x3000#}"
  using schedule_conserves_processes [of sample_sched "sample_context 9" True 2] by simp

text \<open>
  C14.  A switch saves and restores registers exactly.  A call changes no control block but those of the
  process that leaves the processor and the one that gets it.  If another process gets it, the frame
  receives the registers that its control block held before the call (for a process that has never run,
  the entry point and stack of its creation and zeros), with interrupts enabled, and the interrupted
  frame is in the control block of the process that left.  A process that is chosen again goes on with
  the interrupted frame; if nothing is switched the frame is as it was.
\<close>

theorem schedule_saves_and_restores:
  assumes "sched_ok s"
  shows "\<exists>r ctx' s'. scheduler_schedule_from_context (Some ctx) requeue cid s = Some (r, Some ctx', s') \<and>
    (\<forall>p. p \<noteq> current_pcb s \<and> p \<noteq> current_pcb s' \<longrightarrow> pcbs s' p = pcbs s p) \<and>
    (if r \<noteq> 1 then ctx' = ctx \<and> current_pcb s' = current_pcb s
     else if current_pcb s' \<noteq> current_pcb s
     then (\<exists>n. pcbs s (current_pcb s') = Some n \<and> ctx' = resume_context n) \<and>
       (\<exists>n. pcbs s' (current_pcb s') = Some n \<and> ctx' = (pcb_context n)\<lparr>c_eflags := c_eflags (pcb_context n) OR 0x200\<rparr>) \<and>
       (\<exists>c. pcbs s' (current_pcb s) = Some c \<and> pcb_context c = ctx)
     else (c_cs ctx \<noteq> 0 \<longrightarrow> ctx' = ctx\<lparr>c_eflags := c_eflags ctx OR 0x200\<rparr>) \<and>
       (\<exists>n. pcbs s' (current_pcb s') = Some n \<and> ctx' = (pcb_context n)\<lparr>c_eflags := c_eflags (pcb_context n) OR 0x200\<rparr>))"
proof -
  obtain r ctx' s' where s': "scheduler_schedule_from_context (Some ctx) requeue cid s = Some (r, Some ctx', s')"
    "spec_schedule ctx requeue (abs_sched s) = (r, ctx', abs_sched s')" using schedule_refines [OF assms(1)] by blast
  have stay: "ctx' = ctx \<and> current_pcb s' = current_pcb s" if "r \<noteq> 1"
    using spec_schedule_stays [OF s'(2) that] by simp
  have "set (a_ready (abs_sched s)) \<subseteq> dom (a_procs (abs_sched s))" using sched_ok_ready [OF assms] by simp
  note res = spec_schedule_resumes [OF s'(2) _ this]
  show ?thesis
    using s' spec_schedule_others [OF s'(2)] spec_schedule_switched [OF s'(2)] stay res
    by (intro exI [of _ r] exI [of _ ctx'] exI [of _ s']) (auto simp: resumed_def)
qed

theorem schedule_saves_and_restores_witness:
  "\<exists>ctx' s'. scheduler_schedule_from_context (Some (sample_context 9)) False 2 sample_sched = Some (1, Some ctx', s') \<and>
    c_eax ctx' = 2 \<and> c_eip ctx' = 0x102 \<and> (\<exists>c. pcbs s' 0x1000 = Some c \<and> pcb_context c = sample_context 9)"
proof -
  obtain r ctx' s' where s': "scheduler_schedule_from_context (Some (sample_context 9)) False 2 sample_sched = Some (r, Some ctx', s')"
    "spec_schedule (sample_context 9) False (abs_sched sample_sched) = (r, ctx', abs_sched s')"
    using schedule_refines [of sample_sched "sample_context 9" False 2, OF sample_sched_inv(2)] by blast
  have p: "a_policy (abs_sched sample_sched) = 0" by (simp add: sample_state_def)
  have "r = 1 \<and> a_current a = 0x2000" if "spec_schedule (sample_context 9) False (abs_sched sample_sched) = (r, ctx', a)" for a
    using that p by (auto simp: spec_schedule_def spec_switch_def spec_choice_def Let_def sample_sched_inv(5))
  from this [OF s'(2)] have "r = 1" "current_pcb s' = 0x2000" by simp_all
  moreover have "pcbs sample_sched 0x2000 = Some (sample_pcb 2 0 5)" by simp
  ultimately show ?thesis
    using schedule_saves_and_restores [of sample_sched, OF sample_sched_inv(2), of "sample_context 9" False 2] s'(1)
    by (auto simp: sample_sched_inv(5) resume_context_def sample_pcb_def sample_context_def)
qed

text \<open>
  C36.  When 32 processes wait, the running process is not preempted: the call returns 0, leaves the
  frame and the queue as they are, and the process stays RUNNING however long it has run.
\<close>

theorem full_queue_no_preemption:
  assumes "sched_ok s" and "current_pcb s \<noteq> 0" and "length (ready_list s) = 32"
  shows "\<exists>s'. scheduler_schedule_from_context (Some ctx) True cid s = Some (0, Some ctx, s') \<and>
    current_pcb s' = current_pcb s \<and> ready_list s' = ready_list s"
proof -
  obtain r ctx' s' where s': "scheduler_schedule_from_context (Some ctx) True cid s = Some (r, Some ctx', s')"
    "spec_schedule ctx True (abs_sched s) = (r, ctx', abs_sched s')" using schedule_refines [OF assms(1)] by blast
  have "r = 0 \<and> ctx' = ctx \<and> a_current a' = current_pcb s \<and> a_ready a' = ready_list s"
    if "spec_schedule ctx True (abs_sched s) = (r, ctx', a')" for a'
    using that assms(2,3) by (auto simp: spec_schedule_def split: if_splits)
  from this [OF s'(2)] s'(1) show ?thesis by auto
qed

theorem full_queue_no_preemption_witness:
  "\<exists>s'. scheduler_schedule_from_context (Some (sample_context 9)) True 2
      (sample_sched\<lparr>ready_queue := replicate 32 0x2000, ready_tail := 31, ready_len := 32\<rparr>) = Some (0, Some (sample_context 9), s') \<and>
    current_pcb s' = 0x1000"
proof -
  let ?s = "sample_sched\<lparr>ready_queue := replicate 32 0x2000, ready_tail := 31, ready_len := 32\<rparr>"
  have ok: "rq_ok ?s" by (simp add: rq_ok_def sample_state_def)
  moreover have "set (ready_list ?s) \<subseteq> {0x2000}" by (auto simp: ready_list_def ready_at_def)
  ultimately have "sched_ok ?s" by (auto simp: sched_ok_def queue_ok_def pcbs_valid_def)
  from full_queue_no_preemption [OF this] show ?thesis by auto
qed

text \<open>
  A process that exits when no other process waits is made RUNNING again and its frame is left as
  it was: the call returns 0 and the caller goes on with the process that asked to end.
\<close>

theorem exit_with_empty_queue_resumes:
  assumes "sched_ok s" and "current_pcb s \<noteq> 0" and "ready_list s = []"
  shows "\<exists>s'. scheduler_schedule_from_context (Some ctx) False cid s = Some (0, Some ctx, s') \<and>
    current_pcb s' = current_pcb s \<and> running (abs_sched s')"
proof -
  obtain r ctx' s' where s': "scheduler_schedule_from_context (Some ctx) False cid s = Some (r, Some ctx', s')"
    "spec_schedule ctx False (abs_sched s) = (r, ctx', abs_sched s')" using schedule_refines [OF assms(1)] by blast
  have "r = 0 \<and> ctx' = ctx \<and> a_current a' = current_pcb s \<and> running a'"
    if "spec_schedule ctx False (abs_sched s) = (r, ctx', a')" for a'
    using that assms(2,3) by (auto simp: spec_schedule_def spec_switch_def running_def)
  from this [OF s'(2)] s'(1) show ?thesis by auto
qed

theorem exit_with_empty_queue_resumes_witness:
  "\<exists>s'. scheduler_schedule_from_context (Some (sample_context 9)) False 5 (sample_sched\<lparr>ready_tail := 31, ready_len := 0\<rparr>)
      = Some (0, Some (sample_context 9), s') \<and> current_pcb s' = 0x1000 \<and> running (abs_sched s')"
proof -
  let ?s = "sample_sched\<lparr>ready_tail := 31, ready_len := 0\<rparr>"
  have l: "ready_list ?s = []" by (simp add: ready_list_def)
  have "sched_ok ?s" by (simp add: sched_ok_def queue_ok_def pcbs_valid_def l) (simp add: rq_ok_def sample_state_def)
  from exit_with_empty_queue_resumes [OF this _ l] show ?thesis by auto
qed

end
