(* ===== verification/Pit.thy ===== *)
theory Pit
  imports Sched_Switch
begin

text \<open>
  The programmable interval timer, \<open>src/interrupts/pit.c\<close>: the divisor that \<open>pit_init\<close> programs, and the
  handler of IRQ 0, which counts the tick and preempts the interrupted user process.  The theorems on
  waiting and resuming of the scheduler are carried over to runs of the handler.
\<close>

subsection \<open>The data\<close>

text \<open>
  \<open>struct pit_irq_frame\<close> and \<open>struct pit_irq_frame_user\<close> of \<open>include/interrupts/pit.h\<close>: the registers that
  \<open>timer_handler.s\<close> pushes and the part the processor pushes; the last two words are there only when
  the interrupt came from user mode, and the handler reads them only then.
\<close>

record pit_irq_frame =
  f_ebp :: u32
  f_edi :: u32
  f_esi :: u32
  f_edx :: u32
  f_ecx :: u32
  f_ebx :: u32
  f_eax :: u32
  f_eip :: u32
  f_cs :: u32
  f_eflags :: u32

record pit_irq_frame_user =
  common :: pit_irq_frame
  f_user_esp :: u32
  f_user_ss :: u32

record pit = sched +
  pit_preemption_probe_logged :: u8

subsection \<open>Operations\<close>

definition pit_init :: "u32 \<Rightarrow> 'a machine_scheme \<Rightarrow> 'a machine_scheme" where
  "pit_init ms s =
     (let ms = (if ms = 0 then 1 else ms);
          divisor = (1193182 * ms) div 1000;
          divisor = (if divisor = 0 then 1 else divisor);
          divisor = (if divisor > 0xFFFF then 0xFFFF else divisor);
          s = outb 0x43 0x36 s;
          s = outb 0x40 (ucast (divisor AND 0xFF)) s
      in outb 0x40 (ucast (drop_bit 8 divisor AND 0xFF)) s)"

definition pit_get_ticks :: "'a sched_scheme \<Rightarrow> u32" where
  "pit_get_ticks s = pit_ticks s"

definition frame_user_to_context :: "pit_irq_frame_user \<Rightarrow> process_context" where
  "frame_user_to_context frame = \<lparr>c_ebp = f_ebp (common frame), c_edi = f_edi (common frame), c_esi = f_esi (common frame),
     c_edx = f_edx (common frame), c_ecx = f_ecx (common frame), c_ebx = f_ebx (common frame), c_eax = f_eax (common frame),
     c_eip = f_eip (common frame), c_cs = f_cs (common frame), c_eflags = f_eflags (common frame),
     c_user_esp = f_user_esp frame, c_user_ss = f_user_ss frame\<rparr>"

definition frame_context_to_user :: "process_context \<Rightarrow> pit_irq_frame_user \<Rightarrow> pit_irq_frame_user" where
  "frame_context_to_user ctx frame = frame\<lparr>common := (common frame)\<lparr>f_ebp := c_ebp ctx, f_edi := c_edi ctx, f_esi := c_esi ctx,
     f_edx := c_edx ctx, f_ecx := c_ecx ctx, f_ebx := c_ebx ctx, f_eax := c_eax ctx, f_eip := c_eip ctx, f_cs := c_cs ctx,
     f_eflags := c_eflags ctx\<rparr>, f_user_esp := c_user_esp ctx, f_user_ss := c_user_ss ctx\<rparr>"

text \<open>The frame is \<open>None\<close> for a null pointer.\<close>

definition timer_interrupt_handler ::
    "pit_irq_frame_user option \<Rightarrow> 'a pit_scheme \<Rightarrow> (pit_irq_frame_user option \<times> 'a pit_scheme) option" where
  "timer_interrupt_handler frame s = do {
     let s = s\<lparr>pit_ticks := pit_ticks s + 1\<rparr>;
     (frame, s) \<leftarrow> (case frame of
         Some user_frame \<Rightarrow>
           (if preemption_enabled s \<noteq> 0 \<and> f_cs (common user_frame) AND 3 = 3 then do {
              let s = (if pit_preemption_probe_logged s = 0
                       then (serial_line ''[PIT] preempting path ativo'' s)\<lparr>pit_preemption_probe_logged := 1\<rparr>
                       else s);
              (r, context, s) \<leftarrow> scheduler_schedule_from_context (Some (frame_user_to_context user_frame)) True STAT_CONTEXT_PIT s;
              context \<leftarrow> context;
              Some (if r > 0 then Some (frame_context_to_user context user_frame) else Some user_frame, s) }
            else Some (Some user_frame, s))
       | None \<Rightarrow> Some (None, s));
     Some (frame, pic_acknowledge 32 s) }"

subsection \<open>The divisor\<close>

definition pit_divisor :: "nat \<Rightarrow> nat" where
  "pit_divisor ms = min 65535 (1193182 * max 1 ms div 1000)"

lemma low_byte: "unat (ucast ((w :: u32) AND 0xFF) :: u8) = unat w mod 256"
proof -
  have m: "(0xFF :: u32) = mask 8" by (simp add: mask_numeral)
  have "unat (w AND mask 8) = unat w mod 256" by (simp add: unat_and_mask)
  then show ?thesis unfolding m by (simp add: unsigned_ucast_eq take_bit_eq_mod)
qed

text \<open>
  For every period below 3600 ms the two bytes that \<open>pit_init\<close> sends to channel 0, low byte first,
  are the divisor of the 1193182 Hz clock for that period, limited to the largest 16-bit divisor.
\<close>

theorem pit_init_programs_period:
  assumes "unat ms < 3600"
  shows "\<exists>lo hi. port_out (pit_init ms s) = port_out s @ [(0x43, 0x36), (0x40, lo), (0x40, hi)] \<and>
    unat lo + 256 * unat hi = pit_divisor (unat ms)"
proof -
  define m where "m = (if ms = 0 then 1 else ms)"
  have m: "unat m = max 1 (unat ms)" by (cases "ms = 0") (auto simp: m_def max_def unat_eq_0 Suc_le_eq)
  have "unat (1193182 * m) = 1193182 * unat m" using assms m by (subst unat_mult_lem [THEN iffD1]) simp_all
  then have q: "unat (1193182 * m div 1000) = 1193182 * unat m div 1000" by (simp add: unat_div)
  define d where "d = (let d = 1193182 * m div 1000; d = (if d = 0 then 1 else d) in if d > 0xFFFF then 0xFFFF else d)"
  have pos: "0 < 1193182 * unat m div 1000" using m by simp
  then have "1193182 * m div 1000 \<noteq> 0" using q by (metis unat_0 less_irrefl)
  then have d: "unat d = pit_divisor (unat ms)"
    using q m by (cases "1193182 * m div 1000 > 0xFFFF") (simp_all add: d_def pit_divisor_def word_less_nat_alt)
  have small: "unat d < 65536" using d by (simp add: pit_divisor_def)
  have "port_out (pit_init ms s) = port_out s @ [(0x43, 0x36), (0x40, ucast (d AND 0xFF)), (0x40, ucast (drop_bit 8 d AND 0xFF))]"
    by (simp add: pit_init_def outb_def d_def m_def)
  moreover have "unat (ucast (d AND 0xFF) :: u8) + 256 * unat (ucast (drop_bit 8 d AND 0xFF) :: u8) = unat d"
    using small by (simp only: low_byte) (simp add: drop_bit_eq_div unat_div)
  ultimately show ?thesis using d by auto
qed

subsection \<open>The handler and the abstract scheduler\<close>

lemma frame_context_roundtrip [simp]:
  "frame_user_to_context (frame_context_to_user ctx frame) = ctx"
  "frame_context_to_user (frame_user_to_context frame) frame = frame"
  by (simp_all add: frame_user_to_context_def frame_context_to_user_def)

lemma sched_frame [simp]:
  "abs_sched (s\<lparr>pit_ticks := n\<rparr>) = (abs_sched s)\<lparr>a_ticks := n\<rparr>" "abs_sched (s\<lparr>serial_log := g\<rparr>) = abs_sched s"
  "abs_sched (s\<lparr>port_out := po\<rparr>) = abs_sched s"
  "sched_ok (s\<lparr>pit_ticks := n\<rparr>) = sched_ok s" "sched_ok (s\<lparr>serial_log := g\<rparr>) = sched_ok s" "sched_ok (s\<lparr>port_out := po\<rparr>) = sched_ok s"
  by (simp_all add: abs_sched_def sched_ok_def queue_ok_def pcbs_valid_def rq_ok_def ready_list_def ready_at_def)

lemma probe_frame [simp]:
  "abs_sched (s\<lparr>pit_preemption_probe_logged := b\<rparr>) = abs_sched s"
  "sched_ok (s\<lparr>pit_preemption_probe_logged := b\<rparr>) = sched_ok s"
  by (simp_all add: abs_sched_def sched_ok_def queue_ok_def pcbs_valid_def rq_ok_def ready_list_def ready_at_def)

definition user_frame :: "pit_irq_frame_user \<Rightarrow> bool" where
  "user_frame f \<longleftrightarrow> f_cs (common f) AND 3 = 3"

lemma timer_refines:
  assumes "sched_ok s" and "preemption_enabled s \<noteq> 0" and "user_frame f"
  shows "\<exists>r f' s'. timer_interrupt_handler (Some f) s = Some (Some f', s') \<and> sched_ok s' \<and>
    spec_schedule (frame_user_to_context f) True ((abs_sched s)\<lparr>a_ticks := pit_ticks s + 1\<rparr>)
      = (r, frame_user_to_context f', abs_sched s')"
proof -
  let ?s = "let s = s\<lparr>pit_ticks := pit_ticks s + 1\<rparr> in if pit_preemption_probe_logged s = 0
     then (serial_line ''[PIT] preempting path ativo'' s)\<lparr>pit_preemption_probe_logged := 1\<rparr> else s"
  have s: "sched_ok ?s" "abs_sched ?s = (abs_sched s)\<lparr>a_ticks := pit_ticks s + 1\<rparr>"
    using assms(1) by (simp_all add: serial_line_def)
  obtain r ctx' s' where r: "scheduler_schedule_from_context (Some (frame_user_to_context f)) True 2 ?s = Some (r, Some ctx', s')"
    "sched_ok s'" "spec_schedule (frame_user_to_context f) True (abs_sched ?s) = (r, ctx', abs_sched s')"
    using schedule_refines [OF s(1)] by blast
  let ?f' = "if r > 0 then frame_context_to_user ctx' f else f"
  have "timer_interrupt_handler (Some f) s = Some (Some ?f', pic_acknowledge 32 s')"
    using r(1) assms(2,3) by (simp add: timer_interrupt_handler_def user_frame_def)
  moreover have "frame_user_to_context ?f' = ctx'" using spec_schedule_stays [OF r(3)] by (cases "r = 1") auto
  ultimately show ?thesis using r(2,3) s(2)
    by (intro exI [of _ r] exI [of _ ?f'] exI [of _ "pic_acknowledge 32 s'"]) (simp add: pic_acknowledge_def outb_def)
qed

text \<open>A run of timer interrupts, each with the frame of the interrupted process; the last frame left is returned.\<close>

primrec timer_run ::
    "pit_irq_frame_user list \<Rightarrow> pit_irq_frame_user \<Rightarrow> 'a pit_scheme \<Rightarrow> (pit_irq_frame_user \<times> 'a pit_scheme) option" where
  "timer_run [] out s = Some (out, s)"
| "timer_run (f # fs) out s = do {
     (out, s) \<leftarrow> timer_interrupt_handler (Some f) s; out \<leftarrow> out; timer_run fs out s }"

lemma timer_run_refines:
  assumes "sched_ok s" and "preemption_enabled s \<noteq> 0" and "list_all user_frame fs"
  shows "\<exists>f' s'. timer_run fs out s = Some (f', s') \<and> sched_ok s' \<and> preemption_enabled s' \<noteq> 0 \<and>
    spec_ticks (map frame_user_to_context fs) (frame_user_to_context out) (abs_sched s) = (frame_user_to_context f', abs_sched s')"
  using assms
proof (induction fs arbitrary: out s)
  case (Cons f fs)
  then obtain r f1 s1 where s1: "timer_interrupt_handler (Some f) s = Some (Some f1, s1)" "sched_ok s1"
    "spec_schedule (frame_user_to_context f) True ((abs_sched s)\<lparr>a_ticks := pit_ticks s + 1\<rparr>) = (r, frame_user_to_context f1, abs_sched s1)"
    using timer_refines [of s f] by auto
  have "preemption_enabled s1 \<noteq> 0" using spec_schedule_settings(3) [OF s1(3)] Cons.prems(2) by simp
  then show ?case using Cons.IH [of s1 f1] Cons.prems(3) s1 by simp
qed simp

text \<open>The context with interrupts enabled, which a switched-in process starts from.\<close>

definition with_IF :: "process_context \<Rightarrow> process_context" where
  "with_IF ctx = ctx\<lparr>c_eflags := c_eflags ctx OR 0x200\<rparr>"

definition rotation :: "'a sched_scheme \<Rightarrow> nat" where
  "rotation s = (if scheduling_policy s = POLICY_RR then max 1 (unat (quantum_ticks s)) else 1)"

text \<open>
  C17.  A preempted process resumes where it was.  Under FCFS and round robin, with a free place in the
  queue, a process interrupted by the timer when its quantum is over runs again after every waiting
  process has had its turn, and at that very tick the interrupt frame holds all twelve registers of
  the interruption, the interrupt flag set, whatever the other processes did in between.
\<close>

theorem preempted_process_resumes:
  assumes inv: "sched_inv s" and pre: "preemption_enabled s \<noteq> 0" and pol: "scheduling_policy s \<noteq> POLICY_SJF"
    and room: "length (ready_list s) < 32" and due: "scheduling_policy s = POLICY_RR \<Longrightarrow> remaining_ticks s \<le> 1"
    and fs: "list_all user_frame (f # fs)" and len: "length fs = length (ready_list s) * rotation s"
  shows "\<exists>f' s'. timer_run (f # fs) out s = Some (f', s') \<and> current_pcb s' = current_pcb s \<and>
    frame_user_to_context f' = with_IF (frame_user_to_context f)"
proof -
  let ?ctx = "frame_user_to_context f" and ?a = "abs_sched s" and ?p = "current_pcb s"
  have fr: "fifo_ready ?a" using inv pol room by (simp add: sched_inv_def fifo_ready_def)
  have early: "\<not> (a_policy ?a = 2 \<and> a_remaining ?a > 1)" using due by auto
  have "f_cs (common f) \<noteq> 0" using fs by (auto simp: user_frame_def)
  then have cs: "c_cs ?ctx \<noteq> 0" by (simp add: frame_user_to_context_def)
  obtain c where c: "pcbs s ?p = Some c" using inv by (auto simp: sched_inv_def sched_ok_def)
  obtain f' s' where run: "timer_run (f # fs) out s = Some (f', s')"
    "spec_ticks (map frame_user_to_context (f # fs)) (frame_user_to_context out) ?a = (frame_user_to_context f', abs_sched s')"
    using timer_run_refines [OF _ pre fs] inv unfolding sched_inv_def by blast
  have spec: "a_current a' = ?p \<and> g = with_IF ?ctx"
    if ticks: "spec_ticks (map frame_user_to_context (f # fs)) (frame_user_to_context out) ?a = (g, a')" for g a'
  proof (cases "ready_list s")
    case Nil
    then have "fs = []" using len by simp
    then show ?thesis using ticks Nil fr early c cs
      by (auto simp: spec_schedule_def spec_switch_def spec_choice_def fifo_ready_def resumed_def with_IF_def)
  next
    case (Cons q qs)
    obtain cq where cq: "pcbs s q = Some cq"
      using inv Cons by (auto simp: sched_inv_def asched_inv_def ready_entries_def)
    obtain a1 where a1: "spec_schedule ?ctx True (?a\<lparr>a_ticks := pit_ticks s + 1\<rparr>) = (1, resumed (incoming (pit_ticks s + 1) cq), a1)"
      "a_ready a1 = qs @ [?p]" "a_policy a1 = a_policy ?a" "a_quantum a1 = a_quantum ?a" "a_policy ?a = 2 \<longrightarrow> a_remaining a1 = a_quantum ?a"
      using fifo_switch [OF fr early, of q qs cq ?ctx "pit_ticks s + 1"] Cons cq by auto
    have f1: "fifo_ready a1" by (rule fifo_ready_tick [OF fr a1(1,3)])
    obtain c1 where c1: "a_procs a1 ?p = Some c1" "pcb_context c1 = ?ctx"
      using a1(1) Cons inv fr early c cq
      by (auto simp: spec_schedule_def spec_switch_def spec_choice_def fifo_ready_def sched_inv_def asched_inv_def)
    have "length (map frame_user_to_context fs) = wait_ticks a1 (length qs)"
      using len Cons a1(3-5) by (auto simp: wait_ticks_def rotation_def)
    then show ?thesis
      using waits_its_turn [OF f1, of "length qs" ?p c1 "map frame_user_to_context fs" "resumed (incoming (pit_ticks s + 1) cq)"] a1(1,2) c1 cs ticks by (auto simp: resumed_def with_IF_def)
  qed
  show ?thesis using run(1) spec [OF run(2)] by auto
qed

subsection \<open>Witnesses and further properties\<close>

text \<open>The sample state of the scheduler with the timer's own field, and the frame of an interrupted user program.\<close>

definition sample_pit :: pit where
  "sample_pit = sample_state \<lparr>pit_preemption_probe_logged = 0\<rparr>"

definition sample_frame :: "u32 \<Rightarrow> pit_irq_frame_user" where
  "sample_frame n = \<lparr>common = \<lparr>f_ebp = 0, f_edi = 0, f_esi = 0, f_edx = 0, f_ecx = 0, f_ebx = 0, f_eax = n, f_eip = 0x100,
     f_cs = 0x1B, f_eflags = 2\<rparr>, f_user_esp = 0x2000, f_user_ss = 0x23\<rparr>"

lemma sample_pit_facts [simp]:
  "sched_inv sample_pit" "sched_ok sample_pit" "ready_list sample_pit = [0x2000, 0x3000]" "current_pcb sample_pit = 0x1000"
  "preemption_enabled sample_pit = 1" "scheduling_policy sample_pit = 0" "pit_ticks sample_pit = 7" "port_out sample_pit = []"
  "user_frame (sample_frame n)"
  by (simp_all add: sample_pit_def sample_frame_def user_frame_def) (simp_all add: sample_state_def)

theorem preempted_process_resumes_witness:
  "\<exists>f' s'. timer_run [sample_frame 1, sample_frame 2, sample_frame 3] (sample_frame 0) sample_pit = Some (f', s') \<and>
    current_pcb s' = 0x1000 \<and> frame_user_to_context f' = with_IF (frame_user_to_context (sample_frame 1))"
  using preempted_process_resumes [of sample_pit "sample_frame 1" "[sample_frame 2, sample_frame 3]" "sample_frame 0"]
  by (simp add: rotation_def)

theorem pit_init_programs_period_witness:
  "\<exists>lo hi. port_out (pit_init 10 sample_pit) = [(0x43, 0x36), (0x40, lo), (0x40, hi)] \<and> unat lo + 256 * unat hi = 11931"
  using pit_init_programs_period [of 10 sample_pit] by (simp add: pit_divisor_def)

text \<open>
  From 3600 ms on the product of the period and the clock frequency exceeds 32 bits: for 3600 ms the
  divisor that is programmed is 487, a period of 0.4 ms, instead of the limit 65535.
\<close>

theorem pit_init_overflows:
  "port_out (pit_init 3600 s) = port_out s @ [(0x43, 0x36), (0x40, 0xE7), (0x40, 0x01)]"
  by (simp add: pit_init_def outb_def)

text \<open>
  C22.  The process at position \<open>i\<close> of the queue runs after exactly as many timer interrupts of user code
  as its place asks for: \<open>i + 1\<close> under FCFS, and under round robin the rest of the current quantum and
  one quantum for each process before it.  At that tick the interrupt frame holds its saved registers.
\<close>

theorem timer_serves_in_order:
  assumes "sched_inv s" and "preemption_enabled s \<noteq> 0" and "scheduling_policy s \<noteq> POLICY_SJF" and "length (ready_list s) < 32"
    and "i < length (ready_list s)" and "pcbs s (ready_list s ! i) = Some c" and "c_cs (pcb_context c) \<noteq> 0"
    and "list_all user_frame fs"
    and "length fs = (if scheduling_policy s = POLICY_RR
       then max 1 (unat (remaining_ticks s)) + i * max 1 (unat (quantum_ticks s)) else i + 1)"
  shows "\<exists>f' s'. timer_run fs out s = Some (f', s') \<and> current_pcb s' = ready_list s ! i \<and>
    frame_user_to_context f' = with_IF (pcb_context c)"
proof -
  have f: "fifo_ready (abs_sched s)" using assms by (simp add: sched_inv_def fifo_ready_def)
  obtain f' s' where run: "timer_run fs out s = Some (f', s')"
    "spec_ticks (map frame_user_to_context fs) (frame_user_to_context out) (abs_sched s) = (frame_user_to_context f', abs_sched s')"
    using timer_run_refines [OF _ assms(2,8)] assms(1) unfolding sched_inv_def by blast
  have "length (map frame_user_to_context fs) = wait_ticks (abs_sched s) i" using assms(9) by (simp add: wait_ticks_def)
  from waits_its_turn [OF f _ _ _ assms(7) this, of "ready_list s ! i" "frame_user_to_context out"] assms(5,6) run
  show ?thesis by (auto simp: resumed_def with_IF_def)
qed

theorem timer_serves_in_order_witness:
  "\<exists>f' s'. timer_run [sample_frame 1, sample_frame 2] (sample_frame 0) sample_pit = Some (f', s') \<and> current_pcb s' = 0x3000 \<and>
    frame_user_to_context f' = with_IF (sample_context 3)"
proof -
  have p: "pcbs sample_pit (ready_list sample_pit ! 1) = Some (sample_pcb 3 0 2)"
    using sample_sched_facts(4) [of "\<lparr>pit_preemption_probe_logged = 0\<rparr>"] by (simp add: sample_pit_def del: ready_list_nth)
  show ?thesis
    using timer_serves_in_order [of sample_pit 1 _ "[sample_frame 1, sample_frame 2]" "sample_frame 0", OF _ _ _ _ _ p]
    by (simp add: sample_pcb_def sample_context_def del: ready_list_nth)
qed

text \<open>
  A timer interrupt that finds kernel code, or arrives while preemption is off, only counts the
  tick and acknowledges the interrupt; the interrupted frame is not touched.
\<close>

theorem timer_leaves_kernel_alone:
  assumes "preemption_enabled s = 0 \<or> \<not> user_frame f"
  shows "timer_interrupt_handler (Some f) s =
    Some (Some f, s\<lparr>pit_ticks := pit_ticks s + 1, port_out := port_out s @ [(0x20, 0x20)]\<rparr>)"
  using assms by (auto simp: timer_interrupt_handler_def user_frame_def pic_acknowledge_def outb_def)

theorem timer_leaves_kernel_alone_witness:
  "timer_interrupt_handler (Some ((sample_frame 1)\<lparr>common := (common (sample_frame 1))\<lparr>f_cs := 8\<rparr>\<rparr>)) sample_pit =
    Some (Some ((sample_frame 1)\<lparr>common := (common (sample_frame 1))\<lparr>f_cs := 8\<rparr>\<rparr>), sample_pit\<lparr>pit_ticks := 8, port_out := [(0x20, 0x20)]\<rparr>)"
  using timer_leaves_kernel_alone [of sample_pit "(sample_frame 1)\<lparr>common := (common (sample_frame 1))\<lparr>f_cs := 8\<rparr>\<rparr>"]
  by (simp add: user_frame_def)

end
