(* ===== verification/Serial.thy ===== *)
theory Serial
  imports Machine
begin

text \<open>
  The serial port, \<open>src/io/serial_ports.c\<close>, down to the bytes that reach the I/O ports.  The line status
  register is read through \<open>inb\<close> and belongs to the device: it is the argument \<open>lsr\<close>, the value of the
  \<open>k\<close>-th read of it.  The other theories use \<open>serial_line\<close> for \<open>serial_write\<close>; the theorem on
  \<open>serial_write\<close> here shows that, on a port whose transmitter becomes ready again and again, the routine
  returns and the device transmits exactly that line.
\<close>

subsection \<open>The code\<close>

abbreviation (input) SERIAL_COM1_BASE :: u16 where "SERIAL_COM1_BASE \<equiv> 0x3F8"

definition serial_configure_baud_rate :: "u16 \<Rightarrow> u16 \<Rightarrow> 'a machine_scheme \<Rightarrow> 'a machine_scheme" where
  "serial_configure_baud_rate com divisor s =
     (let s = outb (com + 3) 0x80 s;
          s = outb com (ucast (drop_bit 8 divisor AND 0xFF)) s
      in outb com (ucast (divisor AND 0xFF)) s)"

definition serial_configure_line :: "u16 \<Rightarrow> 'a machine_scheme \<Rightarrow> 'a machine_scheme" where
  "serial_configure_line com s = outb (com + 3) 0x03 s"

definition serial_configure_buffer :: "u16 \<Rightarrow> 'a machine_scheme \<Rightarrow> 'a machine_scheme" where
  "serial_configure_buffer com s = outb (com + 2) 0xC7 s"

definition serial_configure_modem :: "u16 \<Rightarrow> 'a machine_scheme \<Rightarrow> 'a machine_scheme" where
  "serial_configure_modem com s = outb (com + 4) 0x03 s"

definition serial_is_transmit_fifo_empty :: "(nat \<Rightarrow> u8) \<Rightarrow> nat \<Rightarrow> u8" where
  "serial_is_transmit_fifo_empty lsr k = lsr k AND 0x20"

text \<open>The waiting loop, from the \<open>k\<close>-th read on: the number of reads done when it ends.\<close>

partial_function (option) serial_wait :: "(nat \<Rightarrow> u8) \<Rightarrow> nat \<Rightarrow> nat option" where
  "serial_wait lsr k =
     (if serial_is_transmit_fifo_empty lsr k = 0 then serial_wait lsr (Suc k) else Some (Suc k))"

primrec serial_send ::
    "(nat \<Rightarrow> u8) \<Rightarrow> u16 \<Rightarrow> string \<Rightarrow> nat \<Rightarrow> 'a machine_scheme \<Rightarrow> (nat \<times> 'a machine_scheme) option" where
  "serial_send lsr com [] k s = Some (k, s)"
| "serial_send lsr com (l # ls) k s = do {
     k \<leftarrow> serial_wait lsr k;
     serial_send lsr com ls k (outb com (of_nat (of_char l)) s) }"

definition serial_write ::
    "(nat \<Rightarrow> u8) \<Rightarrow> u16 \<Rightarrow> string \<Rightarrow> nat \<Rightarrow> 'a machine_scheme \<Rightarrow> (nat \<times> 'a machine_scheme) option" where
  "serial_write lsr com log k s = do {
     k \<leftarrow> serial_wait lsr k;
     let s = serial_configure_baud_rate com 2 s;
     let s = serial_configure_line com s;
     let s = serial_configure_buffer com s;
     let s = serial_configure_modem com s;
     (k, s) \<leftarrow> serial_send lsr com log k s;
     Some (k, outb com 10 s) }"

text \<open>\<open>serial_write_hex\<close>: the loop fills \<open>buffer\<close> from its end.\<close>

definition hex_chars :: string where "hex_chars = ''0123456789ABCDEF''"

definition hex_buffer :: "u32 \<Rightarrow> string" where
  "hex_buffer num = fst (foldl (\<lambda>(buffer, num) i.
     (buffer[7 - i := hex_chars ! unat (num AND 0xF)], drop_bit 4 num)) (replicate 8 (CHR 0x00), num) [0..<8])"

definition serial_write_hex :: "u32 \<Rightarrow> 'a machine_scheme \<Rightarrow> 'a machine_scheme" where
  "serial_write_hex num s = serial_line (hex_buffer num) s"

subsection \<open>What the device transmits\<close>

text \<open>
  A 16550 receiving bytes on its ports: bit 7 of the line control register selects the divisor latch on
  the data port; otherwise a byte on the data port is transmitted.
\<close>

fun uart_sent :: "u16 \<Rightarrow> bool \<Rightarrow> (u16 \<times> u8) list \<Rightarrow> string" where
  "uart_sent com dlab [] = []"
| "uart_sent com dlab ((p, b) # w) =
     (if p = com + 3 then uart_sent com (bit b 7) w
      else if p = com \<and> \<not> dlab then char_of (unat b) # uart_sent com dlab w
      else uart_sent com dlab w)"

definition uart_ready :: "(nat \<Rightarrow> u8) \<Rightarrow> bool" where
  "uart_ready lsr \<longleftrightarrow> (\<forall>k. \<exists>j \<ge> k. bit (lsr j) 5)"

lemma bit5: "(b :: u8) AND 0x20 = 0 \<longleftrightarrow> \<not> bit b 5"
  using and_exp_eq_0_iff_not_bit [of b 5] by simp

lemma char_of_newline: "char_of (10 :: nat) = CHR 0x0A"
  by code_simp

lemma serial_wait_returns:
  assumes "k \<le> j" and "bit (lsr j) 5"
  shows "\<exists>k' > k. serial_wait lsr k = Some k'"
  using assms
proof (induction "j - k" arbitrary: k)
  case 0
  then show ?case by (simp add: serial_wait.simps [of lsr k] serial_is_transmit_fifo_empty_def bit5)
next
  case (Suc n)
  show ?case
  proof (cases "bit (lsr k) 5")
    case True
    then show ?thesis by (simp add: serial_wait.simps [of lsr k] serial_is_transmit_fifo_empty_def bit5)
  next
    case False
    have "Suc k \<le> j" "n = j - Suc k" using Suc.hyps(2) by simp_all
    then obtain k' where "k' > Suc k" "serial_wait lsr (Suc k) = Some k'" using Suc.hyps(1) Suc.prems(2) by blast
    with False show ?thesis
      by (intro exI [of _ k']) (simp add: serial_wait.simps [of lsr k] serial_is_transmit_fifo_empty_def bit5)
  qed
qed

lemma serial_wait_ready: "uart_ready lsr \<Longrightarrow> \<exists>k'. serial_wait lsr k = Some k'"
  unfolding uart_ready_def using serial_wait_returns by metis

lemma serial_send_ready:
  assumes "uart_ready lsr"
  shows "\<exists>k'. serial_send lsr com ls k s = Some (k', s\<lparr>port_out := port_out s @ map (\<lambda>l. (com, of_nat (of_char l))) ls\<rparr>)"
proof (induction ls arbitrary: k s)
  case (Cons l ls)
  obtain k1 where "serial_wait lsr k = Some k1" using serial_wait_ready [OF assms] by blast
  then show ?case using Cons [of k1 "outb com (of_nat (of_char l)) s"] by (simp add: outb_def)
qed simp

lemma uart_sent_append_data:
  "uart_sent com False (map (\<lambda>l. (com, of_nat (of_char l))) ls @ w) = ls @ uart_sent com False w"
proof (induction ls)
  case (Cons l ls)
  have "(of_char l :: nat) < 256" by simp
  then have "unat (of_nat (of_char l) :: u8) = of_char l" by (simp add: unat_of_nat)
  then show ?case using Cons by simp
qed simp

text \<open>
  \<open>serial_write\<close> returns when the transmitter becomes ready again and again, and what the device
  then transmits is the message followed by a newline: the divisor bytes of the configuration are not
  part of the text, and no byte is lost or repeated.
\<close>

theorem serial_write_transmits:
  assumes "uart_ready lsr"
  shows "\<exists>k' w. serial_write lsr com log k s = Some (k', s\<lparr>port_out := port_out s @ w\<rparr>) \<and>
    uart_sent com dlab w = log @ [CHR 0x0A]"
proof -
  obtain k1 where k1: "serial_wait lsr k = Some k1" using serial_wait_ready [OF assms] by blast
  let ?c = "[(com + 3, 0x80), (com, 0), (com, 2), (com + 3, 3), (com + 2, 0xC7), (com + 4, 3 :: u8)]"
  let ?d = "map (\<lambda>l. (com, of_nat (of_char l))) log"
  obtain k2 where k2: "serial_send lsr com log k1 (s\<lparr>port_out := port_out s @ ?c\<rparr>) = Some (k2, s\<lparr>port_out := port_out s @ ?c @ ?d\<rparr>)"
    using serial_send_ready [OF assms, of com log k1 "s\<lparr>port_out := port_out s @ ?c\<rparr>"] by auto
  have "serial_write lsr com log k s = Some (k2, s\<lparr>port_out := port_out s @ ?c @ ?d @ [(com, 10)]\<rparr>)"
    using k1 k2 by (simp add: serial_write_def serial_configure_baud_rate_def serial_configure_line_def
        serial_configure_buffer_def serial_configure_modem_def outb_def)
  moreover have "uart_sent com dlab (?c @ ?d @ [(com, 10)]) = log @ [CHR 0x0A]"
    using uart_sent_append_data [of com log "[(com, 10)]"] by (simp add: char_of_newline)
  ultimately show ?thesis by blast
qed

theorem serial_write_transmits_witness:
  "\<exists>k' w. serial_write (\<lambda>k. if k mod 3 = 2 then 0x60 else 0) SERIAL_COM1_BASE ''ok'' 0
       \<lparr>port_out = [], serial_log = [], cr3 = 0, stale = {}\<rparr> = Some (k', \<lparr>port_out = w, serial_log = [], cr3 = 0, stale = {}\<rparr>) \<and>
     uart_sent SERIAL_COM1_BASE False w = ''ok'' @ [CHR 0x0A]"
proof -
  let ?l = "\<lambda>k :: nat. if k mod 3 = 2 then 0x60 else 0 :: u8"
  have "bit (?l (3 * k + 2)) 5" for k by (simp add: mod_Suc)
  moreover have "k \<le> 3 * k + 2" for k :: nat by simp
  ultimately have "uart_ready ?l" unfolding uart_ready_def by blast
  from serial_write_transmits [OF this, of SERIAL_COM1_BASE "''ok''" 0 "\<lparr>port_out = [], serial_log = [], cr3 = 0, stale = {}\<rparr>" False]
  show ?thesis by simp
qed

definition hex_digit_value :: "char \<Rightarrow> nat" where
  "hex_digit_value c = (let n = of_char c in if n < 65 then n - 48 else n - 55)"

definition hex_value :: "string \<Rightarrow> nat" where
  "hex_value ds = foldl (\<lambda>n c. 16 * n + hex_digit_value c) 0 ds"

lemma hex_chars_value: "n < 16 \<Longrightarrow> hex_digit_value (hex_chars ! n) = n"
proof -
  assume "n < 16"
  then have "n \<in> set [0..<16]" by simp
  then show ?thesis by (simp add: upt_rec hex_chars_def hex_digit_value_def) (elim disjE; simp)
qed

lemma unat_nibble: "unat (drop_bit k num AND (0xF :: u32)) = unat num div 2 ^ k mod 16"
proof -
  have m: "(0xF :: u32) = mask 4" by (simp add: mask_numeral)
  have "unat (drop_bit k num) = unat num div 2 ^ k"
    unfolding unsigned_drop_bit_eq using unsigned_less [of num, where ?'a = nat] by (simp add: drop_bit_eq_div take_bit_nat_eq_self)
  then show ?thesis unfolding m unat_and_mask by simp
qed

lemma hex_buffer_eq: "hex_buffer num = map (\<lambda>i. hex_chars ! unat (drop_bit (4 * i) num AND 0xF)) (rev [0..<8])"
  by (simp add: hex_buffer_def upt_rec eval_nat_numeral)

lemma hex_value_digits:
  assumes "i \<le> 8"
  shows "hex_value (map (\<lambda>i. hex_chars ! unat (drop_bit (4 * i) num AND (0xF :: u32))) (rev [i..<8])) = unat num div 16 ^ i"
  using assms
proof (induction "8 - i" arbitrary: i)
  case 0
  then have "i = 8" by simp
  then show ?case using unsigned_less [of num, where ?'a = nat] by (simp add: hex_value_def)
next
  case (Suc n)
  then have i: "i < 8" "n = 8 - Suc i" by simp_all
  let ?h = "\<lambda>i. hex_chars ! unat (drop_bit (4 * i) num AND (0xF :: u32))"
  have d: "unat (drop_bit (4 * i) num AND (0xF :: u32)) = unat num div 16 ^ i mod 16"
    unfolding unat_nibble by (simp add: power_mult)
  have "hex_value (map ?h (rev [i..<8])) = 16 * hex_value (map ?h (rev [Suc i..<8])) + hex_digit_value (?h i)"
    using i(1) by (simp add: upt_conv_Cons hex_value_def)
  also have "\<dots> = 16 * (unat num div 16 ^ Suc i) + unat num div 16 ^ i mod 16"
    using Suc.hyps(1) [OF i(2)] i(1) by (simp add: d hex_chars_value)
  also have "\<dots> = unat num div 16 ^ i"
    by (simp add: div_mult2_eq mult.commute [of 16])
  finally show ?case .
qed

text \<open>
  \<open>serial_write_hex\<close> prints exactly eight hexadecimal digits that read back as the number.
\<close>

theorem serial_write_hex_digits:
  "\<exists>ds. serial_write_hex num s = serial_line ds s \<and> length ds = 8 \<and> set ds \<subseteq> set ''0123456789ABCDEF'' \<and> hex_value ds = unat num"
proof -
  have "unat (drop_bit (4 * i) num AND (0xF :: u32)) < 16" for i unfolding unat_nibble by simp
  moreover have "length hex_chars = 16" by (simp add: hex_chars_def)
  ultimately have "set (hex_buffer num) \<subseteq> set hex_chars" unfolding hex_buffer_eq by auto
  moreover have "hex_value (hex_buffer num) = unat num" using hex_value_digits [of 0 num] unfolding hex_buffer_eq by simp
  ultimately show ?thesis
    by (intro exI [of _ "hex_buffer num"]) (simp add: serial_write_hex_def hex_buffer_eq flip: hex_chars_def)
qed

end
