(* ===== verification/Console.thy ===== *)
theory Console
  imports Pit Serial
begin

text \<open>
  The text screen (\<open>src/io/io.c\<close>), the keyboard (\<open>src/interrupts/keyboard.c\<close>) and the common handler of
  the interrupts other than the timer (\<open>src/interrupts/interrupt_handler.c\<close>).  The frame buffer is the
  memory from \<open>0xC00B8000\<close> on, by byte offset; the screen shows the first 4000 bytes of it.  A byte written
  past the screen is a byte of \<open>fb\<close> like any other: the addresses behind the screen are mapped and the
  processor does not fault there.  The scan code
  that \<open>inb\<close> reads from port \<open>0x60\<close> comes from the device and is an argument.
\<close>

subsection \<open>The screen\<close>

record console = pit +
  fb :: "u32 \<Rightarrow> u8"
  cursor_pos :: u16

definition fb_write_cell :: "u32 \<Rightarrow> u8 \<Rightarrow> u8 \<Rightarrow> u8 \<Rightarrow> 'a console_scheme \<Rightarrow> 'a console_scheme" where
  "fb_write_cell posicaoChar c fg bg s =
     (let s = s\<lparr>fb := (fb s)(posicaoChar := c)\<rparr>
      in s\<lparr>fb := (fb s)(posicaoChar + 1 := push_bit 4 (fg AND 0x0F) OR (bg AND 0x0F))\<rparr>)"

definition fb_move_cursor :: "u16 \<Rightarrow> 'a machine_scheme \<Rightarrow> 'a machine_scheme" where
  "fb_move_cursor pos s =
     (let s = outb 0x3D4 14 s;
          s = outb 0x3D5 (ucast (drop_bit 8 pos AND 0x00FF)) s;
          s = outb 0x3D4 15 s
      in outb 0x3D5 (ucast (pos AND 0x00FF)) s)"

text \<open>The loop of \<open>fb_write\<close> over the characters from index \<open>i\<close> on, with \<open>pos_char\<close> and \<open>pos_cursor\<close>.\<close>

primrec fb_write_loop :: "u8 list \<Rightarrow> u32 \<Rightarrow> u32 \<Rightarrow> u16 \<Rightarrow> 'a console_scheme \<Rightarrow> 'a console_scheme" where
  "fb_write_loop [] i pos_char pos_cursor s = s"
| "fb_write_loop (c # rest) i pos_char pos_cursor s =
     (if c = 10 then
        (let gap_ate_final = (80 - i mod 80) * 2
         in fb_write_loop rest (i + 1) (pos_char + gap_ate_final) (pos_cursor + ucast gap_ate_final) s)
      else
        (let s = fb_write_cell pos_char c 10 15 s;
             s = fb_move_cursor (pos_cursor + 1) s
         in fb_write_loop rest (i + 1) (pos_char + 2) (pos_cursor + 1) s))"

definition fb_write :: "u8 list \<Rightarrow> 'a console_scheme \<Rightarrow> 'a console_scheme" where
  "fb_write buf s = fb_write_loop buf 0 0 0 (fb_move_cursor 0 s)"

definition fb_clear :: "'a console_scheme \<Rightarrow> 'a console_scheme" where
  "fb_clear s = fb_move_cursor 0 (foldl (\<lambda>s i. fb_write_cell (of_nat (2 * i)) 32 0 0 s) s [0..<2000])"

subsection \<open>The keyboard\<close>

text \<open>The table of scan codes: 58 initialisers, the rest zero.\<close>

definition scancode_to_ascii :: "u8 list" where
  "scancode_to_ascii =
    [0, 27, 49, 50, 51, 52, 53, 54, 55, 56, 57, 48, 45, 61, 8,
     9, 113, 119, 101, 114, 116, 121, 117, 105, 111, 112, 91, 93, 10, 0,
     97, 115, 100, 102, 103, 104, 106, 107, 108, 59, 39, 96, 0, 92, 122,
     120, 99, 118, 98, 110, 109, 44, 46, 47, 0, 42, 0, 32] @ replicate 70 0"

definition keyboard_handler :: "u8 \<Rightarrow> 'a console_scheme \<Rightarrow> 'a console_scheme option" where
  "keyboard_handler scan_code s =
     (if scan_code AND 0x80 \<noteq> 0 then Some s
      else do {
        ascii \<leftarrow> arr_get scancode_to_ascii (ucast scan_code);
        if ascii \<noteq> 0 then do {
          let s = (if ascii = 10 then s\<lparr>cursor_pos := cursor_pos s + (80 - cursor_pos s mod 80)\<rparr>
                   else if ascii = 8 then
                     (if cursor_pos s > 0
                      then (let s = s\<lparr>cursor_pos := cursor_pos s - 1\<rparr> in fb_write_cell (ucast (cursor_pos s) * 2) 32 0 0 s)
                      else s)
                   else
                     (let pos_char = ucast (cursor_pos s) * 2;
                          s = fb_write_cell pos_char ascii 10 15 s
                      in s\<lparr>cursor_pos := cursor_pos s + 1\<rparr>));
          Some (fb_move_cursor (cursor_pos s) s) }
        else Some s })"

text \<open>The message is UTF-8 in the source.\<close>

definition interrupt_message :: string where
  "interrupt_message = ''[SYS - INTERRUPTS] Interrup'' @ [CHR 0xC3, CHR 0xA7, CHR 0xC3, CHR 0xA3] @ ''o recebida: ''"

definition interrupt_handler :: "u32 \<Rightarrow> u8 \<Rightarrow> 'a console_scheme \<Rightarrow> 'a console_scheme option" where
  "interrupt_handler interrupt scan_code s = do {
     let s = serial_line interrupt_message s;
     let s = serial_write_hex interrupt s;
     s \<leftarrow> (if interrupt = 0x21 then keyboard_handler scan_code s else Some s);
     Some (pic_acknowledge interrupt s) }"

subsection \<open>Properties\<close>

lemma fb_write_cell_fb [simp]:
  "fb (fb_write_cell p c fg bg s) = (fb s)(p := c, p + 1 := push_bit 4 (fg AND 0x0F) OR (bg AND 0x0F))"
  "cursor_pos (fb_write_cell p c fg bg s) = cursor_pos s" "port_out (fb_write_cell p c fg bg s) = port_out s"
  by (simp_all add: fb_write_cell_def)

lemma fb_move_cursor_frame [simp]:
  "fb (fb_move_cursor p s) = fb s" "cursor_pos (fb_move_cursor p s) = cursor_pos s"
  by (simp_all add: fb_move_cursor_def outb_def)

lemma port_out_move_cursor:
  "port_out (fb_move_cursor p s) = port_out s @
     [(0x3D4, 14), (0x3D5, ucast (drop_bit 8 p AND 0x00FF)), (0x3D4, 15), (0x3D5, ucast (p AND 0x00FF))]"
  by (simp add: fb_move_cursor_def outb_def)

lemma fb_clear_fold:
  assumes "n \<le> 2000"
  shows "fb (foldl (\<lambda>s i. fb_write_cell (of_nat (2 * i)) 32 0 0 s) s [0..<n]) =
    (\<lambda>a. if unat a < 2 * n then (if even (unat a) then 32 else 0) else fb s a)"
  using assms
proof (induction n)
  case (Suc n)
  have "unat (of_nat (2 * n) :: u32) = 2 * n" "unat (of_nat (2 * n + 1) :: u32) = 2 * n + 1"
    using Suc.prems unfolding unat_of_nat by (simp_all add: take_bit_nat_eq_self)
  then have e: "unat (of_nat (2 * n) :: u32) = 2 * n" "unat (of_nat (2 * n) + 1 :: u32) = 2 * n + 1"
    by (simp_all only: of_nat_add of_nat_1)
  have u: "a = of_nat (2 * n) \<longleftrightarrow> unat a = 2 * n" "a = of_nat (2 * n) + 1 \<longleftrightarrow> unat a = 2 * n + 1" for a :: u32
    using e by (metis word_unat_eq_iff)+
  show ?case using Suc by (auto simp: fun_eq_iff u simp del: of_nat_mult)
qed simp

text \<open>
  \<open>fb_clear\<close> writes blanks to all 2000 cells of the screen, touches no byte outside of it and puts the
  hardware cursor at cell 0.
\<close>

theorem fb_clear_blanks:
  "fb (fb_clear s) = (\<lambda>a. if unat a < 4000 then (if even (unat a) then 32 else 0) else fb s a) \<and>
   port_out (fb_clear s) = port_out s @ [(0x3D4, 14), (0x3D5, 0), (0x3D4, 15), (0x3D5, 0)]"
proof -
  have "port_out (foldl (\<lambda>s i. fb_write_cell (of_nat (2 * i)) 32 0 0 s) s is) = port_out s" for "is"
    by (induction "is" arbitrary: s) (simp_all del: of_nat_mult)
  then show ?thesis unfolding fb_clear_def using fb_clear_fold [of 2000 s] by (simp add: port_out_move_cursor)
qed

text \<open>The key codes: 17 bytes of them are control or unused.\<close>

definition printable_key :: "u8 \<Rightarrow> bool" where
  "printable_key scan \<longleftrightarrow> unat scan < 128 \<and> scancode_to_ascii ! unat scan \<notin> {0, 8, 10}"

lemma key_pressed: "unat (scan :: u8) < 128 \<Longrightarrow> scan AND 0x80 = 0"
proof -
  assume "unat scan < 128"
  then have "\<not> bit (unat scan) 7" by (simp add: bit_iff_odd)
  then show ?thesis using and_exp_eq_0_iff_not_bit [of scan 7] by (simp add: bit_unsigned_iff)
qed

lemma length_scancode [simp]: "length scancode_to_ascii = 128"
  by (simp add: scancode_to_ascii_def)

lemma scancode_get: "unat (scan :: u8) < 128 \<Longrightarrow> arr_get scancode_to_ascii (ucast scan) = Some (scancode_to_ascii ! unat scan)"
proof -
  assume s: "unat scan < 128"
  then have "unat (ucast scan :: u32) = unat scan" by (simp add: unsigned_ucast_eq take_bit_nat_eq_self)
  with s show ?thesis by simp
qed

lemma key_codes: "scancode_to_ascii ! 14 = 8" "scancode_to_ascii ! 28 = 10" "scancode_to_ascii ! 30 = 97"
  by (simp_all add: scancode_to_ascii_def)

text \<open>
  Typing and erasing.  A printable key puts its character in the cell of the cursor and advances
  the cursor, on the screen and in the display controller; the backspace key right after it moves both
  back to where they were and leaves a blank there.
\<close>

theorem key_then_backspace:
  assumes "printable_key scan" and "cursor_pos s \<noteq> 0xFFFF"
  shows "\<exists>s1 s2. keyboard_handler scan s = Some s1 \<and>
    fb s1 (ucast (cursor_pos s) * 2) = scancode_to_ascii ! unat scan \<and> cursor_pos s1 = cursor_pos s + 1 \<and>
    keyboard_handler 0x0E s1 = Some s2 \<and> cursor_pos s2 = cursor_pos s \<and>
    fb s2 = (fb s)(ucast (cursor_pos s) * 2 := 32, ucast (cursor_pos s) * 2 + 1 := 0)"
proof -
  let ?p = "ucast (cursor_pos s) * 2 :: u32" and ?c = "scancode_to_ascii ! unat scan"
  have scan: "unat scan < 128" "?c \<noteq> 0" "?c \<noteq> 8" "?c \<noteq> 10" using assms(1) by (auto simp: printable_key_def)
  have ne: "?p \<noteq> ?p + 1" by simp
  let ?t = "(fb_write_cell ?p ?c 10 15 s)\<lparr>cursor_pos := cursor_pos s + 1\<rparr>"
  have 1: "keyboard_handler scan s = Some (fb_move_cursor (cursor_pos s + 1) ?t)"
    using scan by (simp add: keyboard_handler_def key_pressed scancode_get)
  have "cursor_pos s + 1 \<noteq> 0"
  proof
    assume "cursor_pos s + 1 = 0"
    then have "cursor_pos s = 0 - 1" by (simp only: eq_diff_eq)
    with assms(2) show False by simp
  qed
  then have pos: "cursor_pos s + 1 > 0" by (simp add: word_gt_0)
  have 2: "keyboard_handler 0x0E (fb_move_cursor (cursor_pos s + 1) ?t) =
     Some (fb_move_cursor (cursor_pos s) (fb_write_cell ?p 32 0 0 ((fb_move_cursor (cursor_pos s + 1) ?t)\<lparr>cursor_pos := cursor_pos s\<rparr>)))"
    using pos scancode_get [of "0x0E"] by (simp add: keyboard_handler_def key_codes)
  show ?thesis using 1 2 ne by auto
qed

definition sample_console :: console where
  "sample_console = sample_state \<lparr>pit_preemption_probe_logged = 0, fb = (\<lambda>_. 0), cursor_pos = 1000\<rparr>"

lemma sample_console_facts [simp]: "cursor_pos sample_console = 1000" "fb sample_console = (\<lambda>_. 0)" "port_out sample_console = []"
  by (simp_all add: sample_console_def sample_state_def)

theorem key_then_backspace_witness:
  "\<exists>s1 s2. keyboard_handler 30 sample_console = Some s1 \<and> fb s1 2000 = 97 \<and> cursor_pos s1 = 1001 \<and>
    keyboard_handler 0x0E s1 = Some s2 \<and> cursor_pos s2 = 1000 \<and> fb s2 = (\<lambda>_. 0)(2000 := 32, 2001 := 0)"
  using key_then_backspace [of 30 sample_console] by (auto simp: printable_key_def key_codes)

definition eois :: "(u16 \<times> u8) list \<Rightarrow> (u16 \<times> u8) list" where
  "eois w = filter (\<lambda>(p, b). p \<in> {0x20, 0xA0}) w"

lemma eois_append [simp]: "eois (v @ w) = eois v @ eois w"
  by (simp add: eois_def)

lemma keyboard_handler_total: "\<exists>s'. keyboard_handler scan s = Some s' \<and> eois (port_out s') = eois (port_out s)"
proof (cases "scan AND 0x80 = 0")
  case True
  then have "\<not> bit (unat scan) 7" using and_exp_eq_0_iff_not_bit [of scan 7] by (simp add: bit_unsigned_iff)
  moreover have "unat scan < 256" using unsigned_less [of scan, where ?'a = nat] by simp
  moreover have "unat scan div 128 = 1" if "\<not> unat scan < 128" "unat scan < 256" using that by (intro div_nat_eqI) simp_all
  ultimately have "unat scan < 128" by (cases "unat scan < 128") (auto simp: bit_iff_odd)
  then have "arr_get scancode_to_ascii (ucast scan) = Some (scancode_to_ascii ! unat scan)" by (rule scancode_get)
  then show ?thesis using True
    by (auto simp: keyboard_handler_def port_out_move_cursor) (simp_all add: eois_def)
qed (simp add: keyboard_handler_def)

text \<open>
  Every interrupt that reaches the common handler is acknowledged exactly once, and nothing else is
  sent to an interrupt controller; a key release (bit 7 of the scan code) changes nothing on the screen.
\<close>

theorem interrupt_acknowledged_once:
  assumes "32 \<le> unat interrupt" and "unat interrupt < 40"
  shows "\<exists>s'. interrupt_handler interrupt scan s = Some s' \<and> eois (port_out s') = eois (port_out s) @ [(0x20, 0x20)] \<and>
    (scan AND 0x80 \<noteq> 0 \<or> interrupt \<noteq> 0x21 \<longrightarrow> fb s' = fb s \<and> cursor_pos s' = cursor_pos s)"
proof -
  define u where "u = serial_write_hex interrupt (serial_line interrupt_message s)"
  have u: "port_out u = port_out s" "fb u = fb s" "cursor_pos u = cursor_pos s" by (simp_all add: u_def serial_write_hex_def serial_line_def)
  obtain t where t: "keyboard_handler scan u = Some t" "eois (port_out t) = eois (port_out u)"
    using keyboard_handler_total [of scan u] by blast
  define v where "v = (if interrupt = 0x21 then t else u)"
  have "pic_acknowledge interrupt v = outb 0x20 0x20 v"
    using assms by (simp add: pic_acknowledge_def word_less_nat_alt)
  moreover have "interrupt_handler interrupt scan s = Some (pic_acknowledge interrupt v)"
    unfolding interrupt_handler_def Let_def u_def [symmetric] using t(1) by (simp add: v_def)
  ultimately have "interrupt_handler interrupt scan s = Some (outb 0x20 0x20 v)" by simp
  moreover have "eois (port_out (outb 0x20 0x20 v)) = eois (port_out s) @ [(0x20, 0x20)]"
    using t(2) u by (simp add: outb_def v_def) (simp add: eois_def)
  moreover have "t = u" if "scan AND 0x80 \<noteq> 0" using t(1) that by (simp add: keyboard_handler_def)
  ultimately show ?thesis using u by (auto simp: outb_def v_def)
qed

theorem interrupt_acknowledged_once_witness:
  "\<exists>s'. interrupt_handler 33 0x9E sample_console = Some s' \<and> eois (port_out s') = [(0x20, 0x20)] \<and> cursor_pos s' = 1000"
  using interrupt_acknowledged_once [of 33 "0x9E" sample_console] by (auto simp: eois_def)

text \<open>
  What an interrupt writes to the frame buffer: bytes of a cell up to the cursor, nothing else.  The
  cursor has 16 bits, so that they are among the 128 KB from \<open>0xC00B8000\<close> on, the memory of the display
  adapter and the empty addresses behind it, below the kernel image; they are on the screen if the
  cursor is.
\<close>

lemma fb_write_cell_changed:
  assumes "fb (fb_write_cell (ucast (p :: u16) * 2) c fg bg s) a \<noteq> fb s a"
  shows "unat a div 2 = unat p"
proof -
  have l: "unat p < 65536" using unsigned_less [of p, where ?'a = nat] by simp
  then have p: "unat (ucast p :: u32) = unat p" by (simp add: unsigned_ucast_eq take_bit_nat_eq_self)
  have "a = ucast p * 2 \<or> a = ucast p * 2 + 1" using assms by (auto split: if_splits)
  then have "unat a = unat p * 2 \<or> unat a = unat p * 2 + 1" using p l by (auto simp: unat_word_ariths)
  then show ?thesis by auto
qed

lemma keyboard_handler_changed:
  assumes "keyboard_handler scan s = Some s'" and "fb s' a \<noteq> fb s a"
  shows "unat a div 2 \<le> unat (cursor_pos s)"
proof -
  have dec: "unat (cursor_pos s - 1) \<le> unat (cursor_pos s)" if "cursor_pos s > 0"
    using that by (simp add: word_gt_0 unat_minus_one)
  show ?thesis
    using assms fb_write_cell_changed [of "cursor_pos s" _ 10 15 s a] dec
      fb_write_cell_changed [of "cursor_pos s - 1" 32 0 0 "s\<lparr>cursor_pos := cursor_pos s - 1\<rparr>" a]
    by (auto simp: keyboard_handler_def bind_eq_Some_conv simp del: fb_write_cell_fb(1) split: if_splits)
qed

lemma interrupt_handler_changed:
  assumes "interrupt_handler n scan s = Some s'" and "fb s' a \<noteq> fb s a"
  shows "unat a div 2 \<le> unat (cursor_pos s)"
proof -
  define u where "u = serial_write_hex n (serial_line interrupt_message s)"
  have u: "fb u = fb s" "cursor_pos u = cursor_pos s" by (simp_all add: u_def serial_write_hex_def serial_line_def)
  have "fb (pic_acknowledge n v) = fb v" for v :: "'a console_scheme" by (simp add: pic_acknowledge_def outb_def)
  then show ?thesis using assms keyboard_handler_changed [of scan u _ a]
    unfolding interrupt_handler_def Let_def u_def [symmetric] by (auto simp: u bind_eq_Some_conv split: if_splits)
qed

text \<open>
  The cursor of the keyboard is not limited to the screen: with the cursor after the last cell a
  printable key is written to the bytes 4000 and 4001 of the frame buffer, behind the screen.
\<close>

theorem key_written_off_screen:
  assumes "printable_key scan" and "cursor_pos s = 2000"
  shows "\<exists>s'. keyboard_handler scan s = Some s' \<and> fb s' 4000 = scancode_to_ascii ! unat scan \<and> fb s' 4001 = 0xAF \<and> cursor_pos s' = 2001"
proof -
  have scan: "unat scan < 128" "scancode_to_ascii ! unat scan \<notin> {0, 8, 10}" using assms(1) by (auto simp: printable_key_def)
  then show ?thesis using assms(2) by (simp add: keyboard_handler_def key_pressed scancode_get)
qed

theorem key_written_off_screen_witness:
  "\<exists>s'. keyboard_handler 30 (sample_console\<lparr>cursor_pos := 2000\<rparr>) = Some s' \<and> fb s' 4000 = 97 \<and> cursor_pos s' = 2001"
  using key_written_off_screen [of 30 "sample_console\<lparr>cursor_pos := 2000\<rparr>"] by (auto simp: printable_key_def key_codes)

text \<open>
  A newline in \<open>fb_write\<close> moves the hardware cursor by bytes, not by cells: after \<open>a\<close>, a newline and
  \<open>b\<close> the character \<open>b\<close> is in cell 80, the first of the second line, and the cursor is put at cell 160.
\<close>

theorem fb_write_newline_cursor:
  "fb (fb_write [97, 10, 98] s) 160 = 98 \<and>
   (\<exists>w. port_out (fb_write [97, 10, 98] s) = w @ [(0x3D4, 14), (0x3D5, 0), (0x3D4, 15), (0x3D5, 160)])"
  by (simp add: fb_write_def port_out_move_cursor)

end
