(* ===== verification/Module_Loader.thy ===== *)
theory Module_Loader
  imports Console
begin

text \<open>
  The table of boot modules, \<open>src/kernel/module_loader.c\<close>: what the boot loader loaded, copied into a
  table of eight entries with command lines of at most 63 characters, and the search by path that
  \<open>exec\<close> uses.  The list of modules of the multiboot information is an argument; a command line there is
  a C string, without its final zero, or \<open>None\<close> for a null pointer.
\<close>

subsection \<open>The code\<close>

record multiboot_module =
  mb_start :: u32
  mb_end :: u32
  mb_cmdline :: "string option"

record loaded_module =
  mod_start :: u32
  mod_end :: u32
  cmdline :: string

record modules = console +
  loaded_modules :: "loaded_module list"
  loaded_modules_count :: u32

abbreviation (input) MODULE_LOADER_MAX_MODULES :: u32 where "MODULE_LOADER_MAX_MODULES \<equiv> 8"
abbreviation (input) MODULE_CMDLINE_MAX_LEN :: nat where "MODULE_CMDLINE_MAX_LEN \<equiv> 63"
abbreviation (input) NUL :: char where "NUL \<equiv> CHR 0x00"

text \<open>The loop of \<open>copy_cmdline\<close> from index \<open>i\<close> on, with the characters of the source that are left.\<close>

function copy_cmdline_loop :: "nat \<Rightarrow> string \<Rightarrow> string \<Rightarrow> string" where
  "copy_cmdline_loop i src dst =
     (if i < MODULE_CMDLINE_MAX_LEN \<and> src \<noteq> []
      then copy_cmdline_loop (Suc i) (tl src) (dst[i := hd src])
      else dst[i := NUL])"
  by pat_completeness auto
termination
  by (relation "measure (\<lambda>(i, src, dst). 63 - i)") auto

declare copy_cmdline_loop.simps [simp del]

definition copy_cmdline :: "string \<Rightarrow> string option \<Rightarrow> string" where
  "copy_cmdline dst src = (case src of None \<Rightarrow> dst[0 := NUL] | Some str \<Rightarrow> copy_cmdline_loop 0 str dst)"

text \<open>The C string in a character array.\<close>

definition c_string :: "string \<Rightarrow> string" where
  "c_string buf = takeWhile (\<lambda>c. c \<noteq> NUL) buf"

fun path_matches_cmdline :: "string \<Rightarrow> string \<Rightarrow> bool" where
  "path_matches_cmdline [] [] = True"
| "path_matches_cmdline [] (c # cmd) = (c = CHR '' '')"
| "path_matches_cmdline (p # path) [] = False"
| "path_matches_cmdline (p # path) (c # cmd) =
     (if c = CHR '' '' then False else if p \<noteq> c then False else path_matches_cmdline path cmd)"

text \<open>\<open>run_module\<close> calls the first byte of the module: the address control goes to, if any.\<close>

definition run_module :: "multiboot_module option \<Rightarrow> u32 option" where
  "run_module m = (case m of None \<Rightarrow> None | Some m \<Rightarrow> Some (mb_start m))"

definition get_module_list :: "multiboot_module list \<Rightarrow> u32 \<Rightarrow> 'a console_scheme \<Rightarrow> multiboot_module list option \<times> 'a console_scheme" where
  "get_module_list mods mods_count s =
     (if mods_count = 0 then (None, s)
      else
        (let s = fb_clear s;
             s = fb_write [69, 120, 105, 115, 116, 101, 32, 109, 0xC3, 0xB3, 100, 117, 108, 111, 115] s
         in (Some mods, s)))"

definition module_loader_set_modules :: "multiboot_module list option \<Rightarrow> u32 \<Rightarrow> 'a modules_scheme \<Rightarrow> 'a modules_scheme option" where
  "module_loader_set_modules mods cnt s =
     (case mods of None \<Rightarrow> Some (s\<lparr>loaded_modules_count := 0\<rparr>)
      | Some ms \<Rightarrow>
        (if cnt = 0 then Some (s\<lparr>loaded_modules_count := 0\<rparr>)
         else do {
           let cnt = (if cnt > MODULE_LOADER_MAX_MODULES then MODULE_LOADER_MAX_MODULES else cnt);
           let s = s\<lparr>loaded_modules_count := cnt\<rparr>;
           for_range 0 (unat cnt) (\<lambda>i s. do {
             m \<leftarrow> arr_get ms (of_nat i);
             e \<leftarrow> arr_get (loaded_modules s) (of_nat i);
             t \<leftarrow> arr_set (loaded_modules s) (of_nat i)
                   \<lparr>mod_start = mb_start m, mod_end = mb_end m, cmdline = copy_cmdline (cmdline e) (mb_cmdline m)\<rparr>;
             Some (s\<lparr>loaded_modules := t\<rparr>) }) s }))"

text \<open>The result is the pair that the code stores through its pointer arguments, \<open>None\<close> for -1.\<close>

function find_module_loop :: "string \<Rightarrow> u32 \<Rightarrow> 'a modules_scheme \<Rightarrow> (u32 \<times> u32) option option" where
  "find_module_loop path i s =
     (if i < loaded_modules_count s then do {
        m \<leftarrow> arr_get (loaded_modules s) i;
        if path_matches_cmdline path (c_string (cmdline m)) then Some (Some (mod_start m, mod_end m))
        else find_module_loop path (i + 1) s }
      else Some None)"
  by pat_completeness auto
termination
  by (relation "measure (\<lambda>(path, i, s). unat (loaded_modules_count s - i))")
    (auto simp: word_less_nat_alt, unat_arith)

declare find_module_loop.simps [simp del]

definition module_loader_find_module_by_path :: "string option \<Rightarrow> 'a modules_scheme \<Rightarrow> (u32 \<times> u32) option option" where
  "module_loader_find_module_by_path path s = (case path of None \<Rightarrow> Some None | Some p \<Rightarrow> find_module_loop p 0 s)"

subsection \<open>Lemmas\<close>

lemma path_matches_first_word: "path_matches_cmdline path cmd \<longleftrightarrow> path = takeWhile (\<lambda>c. c \<noteq> CHR '' '') cmd"
  by (induction path cmd rule: path_matches_cmdline.induct) auto

lemma copy_cmdline_loop_eq:
  assumes "i \<le> 63" and "length dst = 64"
  shows "copy_cmdline_loop i src dst = take i dst @ take (63 - i) src @ [NUL] @ drop (Suc (i + min (63 - i) (length src))) dst"
  using assms
proof (induction i src dst rule: copy_cmdline_loop.induct)
  case (1 i src dst)
  show ?case
  proof (cases "i < 63 \<and> src \<noteq> []")
    case True
    then obtain c cr where src: "src = c # cr" by (cases src) auto
    have "copy_cmdline_loop (Suc i) cr (dst[i := c]) = take (Suc i) (dst[i := c]) @ take (63 - Suc i) cr @ [NUL] @
        drop (Suc (Suc i + min (63 - Suc i) (length cr))) (dst[i := c])"
      using 1 True src by simp
    moreover have "take (Suc i) (dst[i := c]) = take i dst @ [c]" using True 1 by (simp add: take_Suc_conv_app_nth)
    moreover have "63 - i = Suc (63 - Suc i)" using True by arith
    ultimately show ?thesis using True src by (subst copy_cmdline_loop.simps) simp
  next
    case False
    then have "i = 63 \<or> src = []" using 1 by auto
    moreover have "dst[i := NUL] = take i dst @ [NUL] @ drop (Suc i) dst" using 1 by (simp add: upd_conv_take_nth_drop)
    ultimately show ?thesis using False by (subst copy_cmdline_loop.simps) auto
  qed
qed

text \<open>What the copy of a command line holds: its first 63 characters.\<close>

lemma c_string_append_NUL: "NUL \<notin> set str \<Longrightarrow> c_string (str @ NUL # rest) = str"
  by (induction str) (auto simp: c_string_def)

lemma copy_cmdline_string:
  assumes "length dst = 64" and "\<And>str. src = Some str \<Longrightarrow> NUL \<notin> set str"
  shows "c_string (copy_cmdline dst src) = take 63 (case src of None \<Rightarrow> [] | Some str \<Rightarrow> str)" and "length (copy_cmdline dst src) = 64"
    and "NUL \<in> set (copy_cmdline dst src)"
proof -
  obtain str rest where c: "copy_cmdline dst src = take 63 str @ NUL # rest" "str = (case src of None \<Rightarrow> [] | Some str \<Rightarrow> str)"
    using assms(1) by (cases src; cases dst) (auto simp: copy_cmdline_def copy_cmdline_loop_eq)
  moreover have "NUL \<notin> set (take 63 str)" using assms(2) c(2) by (cases src) (auto dest: in_set_takeD)
  ultimately show "c_string (copy_cmdline dst src) = take 63 (case src of None \<Rightarrow> [] | Some str \<Rightarrow> str)" "NUL \<in> set (copy_cmdline dst src)"
    by (simp_all add: c_string_append_NUL)
  show "length (copy_cmdline dst src) = 64"
    using assms(1) by (cases src) (simp_all add: copy_cmdline_def copy_cmdline_loop_eq)
qed

text \<open>The command line that the table keeps of a module, and the first word of it.\<close>

definition kept_cmdline :: "multiboot_module \<Rightarrow> string" where
  "kept_cmdline m = take 63 (case mb_cmdline m of None \<Rightarrow> [] | Some str \<Rightarrow> str)"

definition path_of_module :: "multiboot_module \<Rightarrow> string" where
  "path_of_module m = takeWhile (\<lambda>c. c \<noteq> CHR '' '') (kept_cmdline m)"

definition mods_ok :: "multiboot_module list \<Rightarrow> bool" where
  "mods_ok ms \<longleftrightarrow> (\<forall>m \<in> set ms. \<forall>str. mb_cmdline m = Some str \<longrightarrow> NUL \<notin> set str)"

definition modules_ok :: "'a modules_scheme \<Rightarrow> bool" where
  "modules_ok s \<longleftrightarrow> length (loaded_modules s) = 8 \<and> unat (loaded_modules_count s) \<le> 8 \<and>
     (\<forall>e \<in> set (loaded_modules s). length (cmdline e) = 64)"

definition entry_of :: "multiboot_module \<Rightarrow> loaded_module \<Rightarrow> bool" where
  "entry_of m e \<longleftrightarrow> mod_start e = mb_start m \<and> mod_end e = mb_end m \<and> c_string (cmdline e) = kept_cmdline m \<and> NUL \<in> set (cmdline e)"

lemma set_modules_table:
  assumes ok: "modules_ok s" and len: "length ms = unat cnt" and ms: "mods_ok ms" and pos: "cnt \<noteq> 0"
  shows "\<exists>s'. module_loader_set_modules (Some ms) cnt s = Some s' \<and> modules_ok s' \<and> unat (loaded_modules_count s') = min 8 (unat cnt) \<and>
    (\<forall>i < min 8 (unat cnt). entry_of (ms ! i) (loaded_modules s' ! i))"
proof -
  define n where "n = (if cnt > 8 then 8 else cnt)"
  have n: "unat n = min 8 (unat cnt)" by (simp add: n_def word_less_nat_alt)
  let ?body = "\<lambda>i s. do {
             m \<leftarrow> arr_get ms (of_nat i);
             e \<leftarrow> arr_get (loaded_modules s) (of_nat i);
             t \<leftarrow> arr_set (loaded_modules s) (of_nat i)
                   \<lparr>mod_start = mb_start m, mod_end = mb_end m, cmdline = copy_cmdline (cmdline e) (mb_cmdline m)\<rparr>;
             Some (s\<lparr>loaded_modules := t\<rparr>) }"
  let ?P = "\<lambda>k t. modules_ok t \<and> loaded_modules_count t = n \<and> (\<forall>i < k. entry_of (ms ! i) (loaded_modules t ! i))"
  have "\<exists>s'. for_range 0 (unat n) ?body (s\<lparr>loaded_modules_count := n\<rparr>) = Some s' \<and> ?P (unat n) s'"
  proof (rule for_range_rule)
    fix i t assume i: "i < unat n" and P: "?P i t"
    have i8: "i < 8" "i < length ms" "unat (of_nat i :: u32) = i" using i n len by (simp_all add: unat_of_nat)
    have lt: "length (loaded_modules t) = 8" using P by (simp add: modules_ok_def)
    let ?m = "ms ! i" and ?e = "loaded_modules t ! i"
    let ?e' = "\<lparr>mod_start = mb_start ?m, mod_end = mb_end ?m, cmdline = copy_cmdline (cmdline ?e) (mb_cmdline ?m)\<rparr>"
    have c: "length (cmdline ?e) = 64" using P i8 lt by (auto simp: modules_ok_def)
    have m: "\<And>str. mb_cmdline ?m = Some str \<Longrightarrow> NUL \<notin> set str" using ms i8(2) by (auto simp: mods_ok_def)
    note cp = copy_cmdline_string [OF c m]
    have "entry_of ?m ?e'" using cp by (simp add: entry_of_def kept_cmdline_def)
    moreover have "modules_ok (t\<lparr>loaded_modules := (loaded_modules t)[i := ?e']\<rparr>)"
      using P cp(2) i8 lt set_update_subset_insert [of "loaded_modules t" i ?e'] by (auto simp: modules_ok_def)
    moreover have "?body i t = Some (t\<lparr>loaded_modules := (loaded_modules t)[i := ?e']\<rparr>)"
      using i8 lt by simp
    ultimately show "\<exists>t'. ?body i t = Some t' \<and> ?P (Suc i) t'"
      using P i8 lt by (auto simp: less_Suc_eq)
  qed (use ok n in \<open>auto simp: modules_ok_def\<close>)
  then show ?thesis using pos n by (auto simp: module_loader_set_modules_def n_def)
qed

lemma find_module_loop_first:
  assumes "unat (loaded_modules_count s) \<le> length (loaded_modules s)" and "i \<le> loaded_modules_count s"
  shows "find_module_loop path i s = Some (map_option (\<lambda>e. (mod_start e, mod_end e))
    (find (\<lambda>e. path_matches_cmdline path (c_string (cmdline e))) (drop (unat i) (take (unat (loaded_modules_count s)) (loaded_modules s)))))"
  using assms
proof (induction path i s rule: find_module_loop.induct)
  case (1 path i s)
  let ?xs = "take (unat (loaded_modules_count s)) (loaded_modules s)"
  have len: "length ?xs = unat (loaded_modules_count s)" "unat (loaded_modules_count s) \<le> length (loaded_modules s)"
    using 1 by auto
  show ?case
  proof (cases "i < loaded_modules_count s")
    case True
    then have iu: "unat i < unat (loaded_modules_count s)" by (simp add: word_less_nat_alt)
    have "drop (unat i) ?xs = ?xs ! unat i # drop (Suc (unat i)) ?xs" using iu len by (intro Cons_nth_drop_Suc [symmetric]) simp
    moreover have "arr_get (loaded_modules s) i = Some (?xs ! unat i)" using iu len by simp
    moreover have "unat (i + 1) = Suc (unat i)" using True by (rule unat_Suc_less)
    moreover have "i + 1 \<le> loaded_modules_count s" using True by (simp add: inc_le)
    ultimately show ?thesis using 1 True by (subst find_module_loop.simps) simp
  next
    case False
    then have "i = loaded_modules_count s" using 1 by simp
    then show ?thesis using False len by (subst find_module_loop.simps) simp
  qed
qed

lemma find_entries:
  "list_all2 entry_of ms es \<Longrightarrow> map_option (\<lambda>e. (mod_start e, mod_end e)) (find (\<lambda>e. path_matches_cmdline path (c_string (cmdline e))) es) =
    map_option (\<lambda>m. (mb_start m, mb_end m)) (find (\<lambda>m. path_of_module m = path) ms)"
  by (induction rule: list_all2_induct) (auto simp: entry_of_def path_matches_first_word path_of_module_def)

text \<open>
  C37.  Looking up a path after the table was filled finds the first of the first eight modules whose
  command line, cut at 63 characters, starts with the path as its first word, and gives the bounds of
  that module; with no such module the result is -1.  The table and its strings stay inside their
  arrays whatever the number of modules and the length of their command lines.
\<close>

theorem find_module_after_set:
  assumes "modules_ok s" and "length ms = unat cnt" and "mods_ok ms" and "cnt \<noteq> 0"
  shows "\<exists>s'. module_loader_set_modules (Some ms) cnt s = Some s' \<and> modules_ok s' \<and>
    (\<forall>path. module_loader_find_module_by_path (Some path) s' =
       Some (map_option (\<lambda>m. (mb_start m, mb_end m)) (find (\<lambda>m. path_of_module m = path) (take 8 ms))))"
proof -
  obtain s' where s': "module_loader_set_modules (Some ms) cnt s = Some s'" "modules_ok s'"
    "unat (loaded_modules_count s') = min 8 (unat cnt)" "\<forall>i < min 8 (unat cnt). entry_of (ms ! i) (loaded_modules s' ! i)"
    using set_modules_table [OF assms] by blast
  have "length (loaded_modules s') = 8" using s'(2) by (simp add: modules_ok_def)
  then have "list_all2 entry_of (take 8 ms) (take (unat (loaded_modules_count s')) (loaded_modules s'))"
    using s'(3,4) assms(2) by (auto simp: list_all2_conv_all_nth)
  from find_entries [OF this] find_module_loop_first [of s' 0] s'(2)
  have "module_loader_find_module_by_path (Some path) s' =
     Some (map_option (\<lambda>m. (mb_start m, mb_end m)) (find (\<lambda>m. path_of_module m = path) (take 8 ms)))" for path
    by (simp add: module_loader_find_module_by_path_def modules_ok_def)
  with s' show ?thesis by blast
qed

definition sample_modules :: modules where
  "sample_modules = sample_state \<lparr>pit_preemption_probe_logged = 0, fb = (\<lambda>_. 0), cursor_pos = 1000,
     loaded_modules = replicate 8 \<lparr>mod_start = 0, mod_end = 0, cmdline = replicate 64 NUL\<rparr>, loaded_modules_count = 0\<rparr>"

theorem find_module_after_set_witness:
  "\<exists>s'. module_loader_set_modules (Some [\<lparr>mb_start = 0x200000, mb_end = 0x200100, mb_cmdline = Some ''/init arg''\<rparr>,
       \<lparr>mb_start = 0x201000, mb_end = 0x201400, mb_cmdline = Some ''/task''\<rparr>]) 2 sample_modules = Some s' \<and>
     module_loader_find_module_by_path (Some ''/task'') s' = Some (Some (0x201000, 0x201400)) \<and>
     module_loader_find_module_by_path (Some ''/init arg'') s' = Some None"
proof -
  let ?ms = "[\<lparr>mb_start = 0x200000, mb_end = 0x200100, mb_cmdline = Some ''/init arg''\<rparr>,
       \<lparr>mb_start = 0x201000, mb_end = 0x201400, mb_cmdline = Some ''/task''\<rparr>]"
  have "modules_ok sample_modules" by (auto simp: modules_ok_def sample_modules_def sample_state_def)
  moreover have "mods_ok ?ms" by (simp add: mods_ok_def)
  ultimately show ?thesis
    using find_module_after_set [of sample_modules ?ms 2] by (auto simp: path_of_module_def kept_cmdline_def)
qed

end
