(* ===== verification/Process.thy ===== *)
theory Process
  imports Module_Loader
begin

text \<open>
  Creation of processes, \<open>src/process/process.c\<close>.  A control block lives at the address that \<open>kmalloc\<close>
  returns; \<open>pcbs\<close> gives its contents from then until it is released.  All its fields are assigned
  before any is read, so that it starts as \<open>new_pcb\<close>.  The kernel runs on the boot page directory here,
  whose first entry maps the low 4 MB at their physical addresses: the binary of a module is read
  through the page walk \<open>translate\<close>.
\<close>

definition new_pcb :: PCB where
  "new_pcb = \<lparr>pid = 0, ppid = 0, pdt = 0, eip = 0, esp = 0, eflags = 0, cs = 0, ss = 0, kernel_stack_base = 0, kernel_esp0 = 0,
     state = 0, burst_time = 0, predicted_burst = 0, last_dispatch_tick = 0,
     pcb_context = \<lparr>c_ebp = 0, c_edi = 0, c_esi = 0, c_edx = 0, c_ecx = 0, c_ebx = 0, c_eax = 0, c_eip = 0, c_cs = 0, c_eflags = 0,
       c_user_esp = 0, c_user_ss = 0\<rparr>\<rparr>"

abbreviation (input) USER_CODE_SEGMENT_SELECTOR :: u32 where "USER_CODE_SEGMENT_SELECTOR \<equiv> 0x1B"
abbreviation (input) USER_DATA_SEGMENT_SELECTOR :: u32 where "USER_DATA_SEGMENT_SELECTOR \<equiv> 0x23"
abbreviation (input) PROCESS_KERNEL_STACK_SIZE :: u32 where "PROCESS_KERNEL_STACK_SIZE \<equiv> 4096"

text \<open>\<open>sizeof(struct PCB)\<close>: 14 words and the 12 words of the context.\<close>

abbreviation (input) sizeof_PCB :: u32 where "sizeof_PCB \<equiv> 104"

text \<open>\<open>kmalloc\<close> and \<open>kfree\<close> of a control block.\<close>

definition kmalloc_pcb :: "'a sched_scheme \<Rightarrow> (u32 \<times> 'a sched_scheme) option" where
  "kmalloc_pcb s = do {
     (p, s) \<leftarrow> kmalloc sizeof_PCB s;
     Some (p, if p = 0 then s else s\<lparr>pcbs := (pcbs s)(p \<mapsto> new_pcb)\<rparr>) }"

definition kfree_pcb :: "u32 \<Rightarrow> 'a sched_scheme \<Rightarrow> 'a sched_scheme option" where
  "kfree_pcb p s = kfree p (s\<lparr>pcbs := (pcbs s)(p := None)\<rparr>)"

text \<open>The loop that clears \<open>n\<close> bytes of the kernel heap; each byte has to be mapped.\<close>

definition kheap_clear :: "u32 \<Rightarrow> nat \<Rightarrow> 'a paging_scheme \<Rightarrow> 'a paging_scheme option" where
  "kheap_clear p n s = for_range 0 n (\<lambda>i s. if kmapped (p + of_nat i) s then Some s else None) s"

definition alloc_page_table :: "'a paging_scheme \<Rightarrow> (u32 \<times> 'a paging_scheme) option" where
  "alloc_page_table s = do {
     (pt_phys, s) \<leftarrow> pfa_alloc s;
     s \<leftarrow> paging_temp_map pt_phys s;
     s \<leftarrow> win_zero32 s;
     s \<leftarrow> paging_temp_unmap s;
     Some (pt_phys, s) }"

definition alloc_page_frames :: "u32 \<Rightarrow> 'a paging_scheme \<Rightarrow> 'a paging_scheme option" where
  "alloc_page_frames pt_phys s = do {
     (frame_0, s) \<leftarrow> pfa_alloc s;
     (frame_1, s) \<leftarrow> pfa_alloc s;
     let s = serial_line ''[process] alloc_page_frames: frame_0='' s;
     let s = serial_write_hex frame_0 s;
     let s = serial_line ''[process] alloc_page_frames: frame_1='' s;
     let s = serial_write_hex frame_1 s;
     s \<leftarrow> paging_temp_map pt_phys s;
     s \<leftarrow> win_write32 0 (frame_0 OR PTE_PRESENT OR PTE_WRITABLE OR PTE_USER) s;
     s \<leftarrow> win_write32 1 (frame_1 OR PTE_PRESENT OR PTE_WRITABLE OR PTE_USER) s;
     paging_temp_unmap s }"

text \<open>A byte read through the boot page directory.\<close>

definition kread8 :: "u32 \<Rightarrow> 'a paging_scheme \<Rightarrow> u8 option" where
  "kread8 a s = do { pa \<leftarrow> translate s a; Some (pmem s (pa AND 0xFFFFF000) (pa AND 0xFFF)) }"

definition copy_module :: "u32 \<Rightarrow> u32 \<Rightarrow> u32 \<Rightarrow> 'a paging_scheme \<Rightarrow> 'a paging_scheme option" where
  "copy_module page_frame_1 mstart mend s = do {
     let size = mend - mstart;
     let s = serial_line ''[process] copy_module: tamanho='' s;
     let s = serial_write_hex size s;
     let size = (if size > PAGE_SIZE then PAGE_SIZE else size);
     s \<leftarrow> paging_temp_map page_frame_1 s;
     s \<leftarrow> for_range 0 (unat size) (\<lambda>i s. do { b \<leftarrow> kread8 (mstart + of_nat i) s; win_write8 (of_nat i) b s }) s;
     s \<leftarrow> for_range (unat size) 4096 (\<lambda>i. win_write8 (of_nat i) 0) s;
     s \<leftarrow> paging_temp_unmap s;
     Some (serial_line ''[process] copy_module: copia concluida'' s) }"

definition alloc_stack :: "u32 \<Rightarrow> 'a paging_scheme \<Rightarrow> 'a paging_scheme option" where
  "alloc_stack pdt_phys s = do {
     let stack_vaddr = 0xBFFFF000;
     let pd_index = drop_bit 22 stack_vaddr;
     let pt_index = drop_bit 12 stack_vaddr AND 0x3FF;
     let s = serial_line ''[process] alloc_stack: pd_index='' s;
     let s = serial_write_hex pd_index s;
     let s = serial_line ''[process] alloc_stack: pt_index='' s;
     let s = serial_write_hex pt_index s;
     (pt_phys, s) \<leftarrow> alloc_page_table s;
     (stack_frame, s) \<leftarrow> pfa_alloc s;
     s \<leftarrow> paging_temp_map pt_phys s;
     s \<leftarrow> win_write32 pt_index (stack_frame OR PTE_PRESENT OR PTE_WRITABLE OR PTE_USER) s;
     s \<leftarrow> paging_temp_unmap s;
     let s = serial_line ''[process] alloc_stack: stack_frame='' s;
     let s = serial_write_hex stack_frame s;
     s \<leftarrow> paging_temp_map pdt_phys s;
     s \<leftarrow> win_write32 pd_index (pt_phys OR PTE_PRESENT OR PTE_WRITABLE OR PTE_USER) s;
     s \<leftarrow> paging_temp_unmap s;
     Some (serial_line ''[process] alloc_stack: concluido'' s) }"

definition alloc_kernel_stack :: "u32 \<Rightarrow> 'a sched_scheme \<Rightarrow> (int \<times> 'a sched_scheme) option" where
  "alloc_kernel_stack p s =
     (if p = 0 then Some (-1, s)
      else do {
        (kstack, s) \<leftarrow> kmalloc PROCESS_KERNEL_STACK_SIZE s;
        if kstack = 0 then Some (-1, s)
        else do {
          s \<leftarrow> kheap_clear kstack 4096 s;
          s \<leftarrow> pcb_update p (\<lambda>c. c\<lparr>kernel_stack_base := kstack, kernel_esp0 := kstack + PROCESS_KERNEL_STACK_SIZE - 4\<rparr>) s;
          Some (0, s) } })"

definition create_pcb :: "'a sched_scheme \<Rightarrow> (u32 \<times> 'a sched_scheme) option" where
  "create_pcb s = do {
     let s = serial_line ''[process] create_pcb: inicio'' s;
     (pcb, s) \<leftarrow> kmalloc_pcb s;
     if pcb = 0 then Some (0, s)
     else do {
       let s = serial_line ''[process] PCB alocado em:'' s;
       let s = serial_write_hex pcb s;
       let (pd, s) = scheduler_allocate_pid s;
       s \<leftarrow> pcb_update pcb (\<lambda>c. c\<lparr>pid := pd, ppid := 0\<rparr>) s;
       (pdt_phys, s) \<leftarrow> alloc_page_table s;
       if pdt_phys = 0 then do { s \<leftarrow> kfree_pcb pcb s; Some (0, s) }
       else do {
         s \<leftarrow> pcb_update pcb (\<lambda>c. c\<lparr>pdt := pdt_phys\<rparr>) s;
         let s = serial_line ''[process] PDT alocada em:'' s;
         let s = serial_write_hex pdt_phys s;
         s \<leftarrow> paging_temp_map pdt_phys s;
         kpde \<leftarrow> arr_get (page_directory s) KERNEL_PD_INDEX;
         s \<leftarrow> win_write32 KERNEL_PD_INDEX kpde s;
         s \<leftarrow> paging_temp_unmap s;
         let s = serial_line ''[process] PDE do kernel copiada (index 768)'' s;
         s \<leftarrow> pcb_update pcb (\<lambda>c. c\<lparr>eip := 0, esp := 0, eflags := 0x200, cs := USER_CODE_SEGMENT_SELECTOR,
                ss := USER_DATA_SEGMENT_SELECTOR, kernel_stack_base := 0, kernel_esp0 := 0, state := PROCESS_STATE_READY,
                burst_time := 0, predicted_burst := 1, last_dispatch_tick := 0, pcb_context := pcb_context new_pcb\<rparr>) s;
         (r, s) \<leftarrow> alloc_kernel_stack pcb s;
         if r < 0 then do {
           s \<leftarrow> pfa_free pdt_phys s;
           s \<leftarrow> kfree_pcb pcb s;
           Some (0, s) }
         else Some (pcb, serial_line ''[process] create_pcb: concluido'' s) } } }"

definition create_pcb_grub_modules :: "u32 \<Rightarrow> u32 \<Rightarrow> 'a sched_scheme \<Rightarrow> (u32 \<times> 'a sched_scheme) option" where
  "create_pcb_grub_modules mstart mend s = do {
     let s = serial_line ''[process] create_pcb_grub_modules: inicio'' s;
     (pcb, s) \<leftarrow> create_pcb s;
     if pcb = 0 then Some (0, s)
     else do {
       c \<leftarrow> pcbs s pcb;
       let pdt_phys = pdt c;
       (pt_phys, s) \<leftarrow> alloc_page_table s;
       s \<leftarrow> paging_temp_map pdt_phys s;
       s \<leftarrow> win_write32 0 (pt_phys OR PTE_PRESENT OR PTE_WRITABLE OR PTE_USER) s;
       s \<leftarrow> paging_temp_unmap s;
       let s = serial_line ''[process] PT alocada para PDT[0]:'' s;
       let s = serial_write_hex pt_phys s;
       s \<leftarrow> alloc_page_frames pt_phys s;
       s \<leftarrow> paging_temp_map pt_phys s;
       w \<leftarrow> win_read32 0 s;
       let page_frame_1 = w AND 0xFFFFF000;
       s \<leftarrow> paging_temp_unmap s;
       s \<leftarrow> copy_module page_frame_1 mstart mend s;
       s \<leftarrow> alloc_stack pdt_phys s;
       s \<leftarrow> pcb_update pcb (\<lambda>c. c\<lparr>esp := 0xBFFFFFFB\<rparr>) s;
       Some (pcb, serial_line ''[process] create_pcb_grub_modules: concluido'' s) } }"

text \<open>
  \<open>enter_user_mode\<close> (\<open>user_mode.s\<close>) loads the data segment registers and leaves the kernel through
  \<open>iret\<close> with the five values it is given.
\<close>

record user_entry =
  u_ss :: u32
  u_esp :: u32
  u_eflags :: u32
  u_cs :: u32
  u_eip :: u32

text \<open>The entry into user mode, or \<open>None\<close> when the function returns to its caller.\<close>

definition run_user_mode_module :: "u32 \<Rightarrow> 'a sched_scheme \<Rightarrow> (user_entry option \<times> 'a sched_scheme) option" where
  "run_user_mode_module pcb s =
     (if pcb = 0 then Some (None, s)
      else do {
        c \<leftarrow> pcbs s pcb;
        let s = serial_line ''[process] run_user_mode_module: trocando cr3'' s;
        let s = serial_write_hex (pdt c) s;
        let s = update_cr3 (pdt c) s;
        let s = tss_set_kernel_stack (kernel_esp0 c) s;
        s \<leftarrow> scheduler_set_current pcb s;
        s \<leftarrow> pcb_update pcb (\<lambda>c. c\<lparr>state := PROCESS_STATE_RUNNING\<rparr>) s;
        let s = serial_line ''[process] run_user_mode_module: entrando em user mode'' s;
        c \<leftarrow> pcbs s pcb;
        let s = s\<lparr>seg_data := ucast (ss c)\<rparr>;
        Some (Some \<lparr>u_ss = ss c, u_esp = esp c, u_eflags = eflags c, u_cs = cs c, u_eip = eip c\<rparr>, s) })"

end
