(* ===== verification/User_Space.thy ===== *)
theory User_Space
  imports Paging
begin

text \<open>
  The address spaces of user processes, the first half of \<open>src/syscall/syscall.c\<close>: page directories and
  page tables are frames of physical memory that the kernel reaches only through the window of
  temporary mappings.  A space is built from a module (\<open>build_new_image\<close>, for \<open>exec\<close>), cloned
  (\<open>clone_user_space\<close>, for \<open>fork\<close>) and destroyed.  User memory is read through the page walk from \<open>cr3\<close>.
\<close>

subsection \<open>User memory\<close>

text \<open>
  The page walk from a page directory in physical memory, as the kernel reads through it: present entries
  only, whatever their user and writable bits.  The kernel half (entry 768) is not part of user memory:
  the bytes of the kernel image are not modelled, and reading them has no result here.
\<close>

definition user_walk :: "u32 \<Rightarrow> u32 \<Rightarrow> 'a paging_scheme \<Rightarrow> u32 option" where
  "user_walk pdt_phys v s =
     (let pde = get32 (pmem s (pdt_phys AND 0xFFFFF000)) (4 * drop_bit 22 v) in
      if pde AND PTE_PRESENT = 0 \<or> drop_bit 22 v = KERNEL_PD_INDEX then None
      else if pde AND 0x80 \<noteq> 0 then Some ((pde AND 0xFFC00000) OR (v AND 0x3FFFFF))
      else
        (let pte = get32 (pmem s (pde AND 0xFFFFF000)) (4 * (drop_bit 12 v AND 0x3FF)) in
         if pte AND PTE_PRESENT = 0 then None else Some ((pte AND 0xFFFFF000) OR (v AND 0xFFF))))"

definition user_read8 :: "u32 \<Rightarrow> 'a paging_scheme \<Rightarrow> u8 option" where
  "user_read8 v s = map_option (\<lambda>pa. pmem s (pa AND 0xFFFFF000) (pa AND 0xFFF)) (user_walk (cr3 s) v s)"

definition min_u32 :: "u32 \<Rightarrow> u32 \<Rightarrow> u32" where
  "min_u32 a b = (if a < b then a else b)"

text \<open>
  \<open>copy_user_string\<close>: the loop from index \<open>i\<close> on.  The kernel buffer is the text stored so far; the
  result is the buffer up to its first zero byte.
\<close>

function copy_user_string_loop :: "u32 \<Rightarrow> u32 \<Rightarrow> u32 \<Rightarrow> u8 list \<Rightarrow> 'a paging_scheme \<Rightarrow> u8 list option" where
  "copy_user_string_loop user_ptr i max_len buf s =
     (if i < max_len then do {
        c \<leftarrow> user_read8 (user_ptr + i) s;
        let buf = buf @ [c];
        if c = 0 then Some buf
        else copy_user_string_loop user_ptr (i + 1) max_len buf s }
      else Some (buf[unat (max_len - 1) := 0]))"
  by pat_completeness auto
termination
  by (relation "measure (\<lambda>(u, i, m, buf, s). unat (m - i))") (auto simp: word_less_nat_alt, unat_arith)

declare copy_user_string_loop.simps [simp del]

text \<open>\<open>None\<close> inside is the result -1; the kernel buffer is never null.\<close>

definition copy_user_string :: "u32 \<Rightarrow> u32 \<Rightarrow> 'a paging_scheme \<Rightarrow> u8 list option option" where
  "copy_user_string user_ptr max_len s =
     (if user_ptr = 0 \<or> max_len = 0 then Some None
      else map_option Some (copy_user_string_loop user_ptr 0 max_len [] s))"

subsection \<open>Address spaces\<close>

definition alloc_zeroed_frame :: "'a paging_scheme \<Rightarrow> (u32 \<times> 'a paging_scheme) option" where
  "alloc_zeroed_frame s = do {
     (frame, s) \<leftarrow> pfa_alloc s;
     if frame = 0 then Some (0, s)
     else do {
       s \<leftarrow> paging_temp_map frame s;
       s \<leftarrow> win_zero8 s;
       s \<leftarrow> paging_temp_unmap s;
       Some (frame, s) } }"

text \<open>
  The three-step accesses \<open>paging_temp_map\<close>, one word, \<open>paging_temp_unmap\<close> that occur throughout.
\<close>

definition frame_read32 :: "u32 \<Rightarrow> u32 \<Rightarrow> 'a paging_scheme \<Rightarrow> (u32 \<times> 'a paging_scheme) option" where
  "frame_read32 frame i s = do {
     s \<leftarrow> paging_temp_map frame s;
     w \<leftarrow> win_read32 i s;
     s \<leftarrow> paging_temp_unmap s;
     Some (w, s) }"

definition frame_write32 :: "u32 \<Rightarrow> u32 \<Rightarrow> u32 \<Rightarrow> 'a paging_scheme \<Rightarrow> 'a paging_scheme option" where
  "frame_write32 frame i w s = do {
     s \<leftarrow> paging_temp_map frame s;
     s \<leftarrow> win_write32 i w s;
     paging_temp_unmap s }"

definition map_user_page :: "u32 \<Rightarrow> u32 \<Rightarrow> u32 \<Rightarrow> 'a paging_scheme \<Rightarrow> (int \<times> 'a paging_scheme) option" where
  "map_user_page pdt_phys vaddr frame_phys s = do {
     let pd_index = drop_bit 22 vaddr;
     let pt_index = drop_bit 12 vaddr AND 0x3FF;
     (pde, s) \<leftarrow> frame_read32 pdt_phys pd_index s;
     (pt_phys, s) \<leftarrow> (if pde AND PTE_PRESENT = 0 then do {
         (pt_phys, s) \<leftarrow> alloc_zeroed_frame s;
         if pt_phys = 0 then Some (0, s)
         else do {
           s \<leftarrow> frame_write32 pdt_phys pd_index (pt_phys OR PTE_PRESENT OR PTE_WRITABLE OR PTE_USER) s;
           Some (pt_phys, s) } }
       else Some (pde AND 0xFFFFF000, s));
     if pde AND PTE_PRESENT = 0 \<and> pt_phys = 0 then Some (-1, s)
     else do {
       s \<leftarrow> frame_write32 pt_phys pt_index ((frame_phys AND 0xFFFFF000) OR PTE_PRESENT OR PTE_WRITABLE OR PTE_USER) s;
       Some (0, s) } }"

definition create_user_pdt :: "'a paging_scheme \<Rightarrow> (u32 \<times> 'a paging_scheme) option" where
  "create_user_pdt s = do {
     (pdt_phys, s) \<leftarrow> alloc_zeroed_frame s;
     if pdt_phys = 0 then Some (0, s)
     else do {
       s \<leftarrow> paging_temp_map pdt_phys s;
       kpde \<leftarrow> arr_get (page_directory s) KERNEL_PD_INDEX;
       s \<leftarrow> win_write32 KERNEL_PD_INDEX kpde s;
       s \<leftarrow> paging_temp_unmap s;
       Some (pdt_phys, s) } }"

text \<open>The two loops over the 128-byte bounce buffer.\<close>

definition bounce_read :: "u32 \<Rightarrow> u32 \<Rightarrow> 'a paging_scheme \<Rightarrow> u8 list option" where
  "bounce_read off chunk s = for_range 0 (unat chunk) (\<lambda>i bounce. do {
     b \<leftarrow> win_read8 (off + of_nat i) s;
     arr_set bounce (of_nat i) b }) (replicate 128 0)"

definition bounce_write :: "u32 \<Rightarrow> u32 \<Rightarrow> u8 list \<Rightarrow> 'a paging_scheme \<Rightarrow> 'a paging_scheme option" where
  "bounce_write off chunk bounce s = for_range 0 (unat chunk) (\<lambda>i s. do {
     b \<leftarrow> arr_get bounce (of_nat i);
     win_write8 (off + of_nat i) b s }) s"

lemma min_u32_pos: "0 < min_u32 a b \<longleftrightarrow> 0 < a \<and> 0 < b" and min_u32_le: "min_u32 a b \<le> a" "min_u32 a b \<le> b"
  by (auto simp: min_u32_def)

lemma loop_progress:
  fixes copied limit chunk :: u32
  assumes "copied < limit" and "0 < chunk" and "chunk \<le> limit - copied"
  shows "unat (copied + chunk) = unat copied + unat chunk" and "unat copied + unat chunk \<le> unat limit"
    and "unat (limit - (copied + chunk)) < unat (limit - copied)"
  using assms by unat_arith+

function copy_frame_page_loop :: "u32 \<Rightarrow> u32 \<Rightarrow> u32 \<Rightarrow> 'a paging_scheme \<Rightarrow> 'a paging_scheme option" where
  "copy_frame_page_loop src dst copied s =
     (if copied < PAGE_SIZE then do {
        let chunk = min_u32 (PAGE_SIZE - copied) 128;
        s \<leftarrow> paging_temp_map src s;
        bounce \<leftarrow> bounce_read copied chunk s;
        s \<leftarrow> paging_temp_unmap s;
        s \<leftarrow> paging_temp_map dst s;
        s \<leftarrow> bounce_write copied chunk bounce s;
        s \<leftarrow> paging_temp_unmap s;
        copy_frame_page_loop src dst (copied + chunk) s }
      else Some s)"
  by pat_completeness auto
termination
proof (relation "measure (\<lambda>(src, dst, copied, s). unat (4096 - copied))", goal_cases)
  case (2 src dst copied s)
  then show ?case using loop_progress(3) [of copied 4096 "min_u32 (4096 - copied) 128"] min_u32_le [of "4096 - copied" 128] min_u32_pos [of "4096 - copied" 128]
    by (simp add: word_gt_0)
qed simp

declare copy_frame_page_loop.simps [simp del]

definition copy_frame_page :: "u32 \<Rightarrow> u32 \<Rightarrow> 'a paging_scheme \<Rightarrow> (int \<times> 'a paging_scheme) option" where
  "copy_frame_page src_frame_phys dst_frame_phys s = do {
     s \<leftarrow> copy_frame_page_loop src_frame_phys dst_frame_phys 0 s;
     Some (0, s) }"

definition destroy_user_space :: "u32 \<Rightarrow> 'a paging_scheme \<Rightarrow> 'a paging_scheme option" where
  "destroy_user_space pdt_phys s =
     (if pdt_phys = 0 then Some s
      else do {
        s \<leftarrow> for_range 0 1024 (\<lambda>pd_index s.
          if of_nat pd_index = KERNEL_PD_INDEX then Some s
          else do {
            (pde, s) \<leftarrow> frame_read32 pdt_phys (of_nat pd_index) s;
            if pde AND PTE_PRESENT = 0 then Some s
            else do {
              let pt_phys = pde AND 0xFFFFF000;
              s \<leftarrow> paging_temp_map pt_phys s;
              s \<leftarrow> for_range 0 1024 (\<lambda>pt_index s. do {
                pte \<leftarrow> win_read32 (of_nat pt_index) s;
                if pte AND PTE_PRESENT \<noteq> 0 then pfa_free (pte AND 0xFFFFF000) s else Some s }) s;
              s \<leftarrow> paging_temp_unmap s;
              s \<leftarrow> pfa_free pt_phys s;
              frame_write32 pdt_phys (of_nat pd_index) 0 s } }) s;
        pfa_free pdt_phys s })"

text \<open>
  \<open>clone_user_space\<close>.  The loop over the entries of one page table and the loop over the page directory;
  the flag is \<open>False\<close> when memory ran out and the half-built space was destroyed.
\<close>

function clone_table_loop :: "u32 \<Rightarrow> u32 \<Rightarrow> u32 \<Rightarrow> nat \<Rightarrow> 'a paging_scheme \<Rightarrow> (bool \<times> 'a paging_scheme) option" where
  "clone_table_loop child_pdt parent_pt child_pt pt_index s =
     (if pt_index < 1024 then do {
        (parent_pte, s) \<leftarrow> frame_read32 parent_pt (of_nat pt_index) s;
        if parent_pte AND PTE_PRESENT = 0 then clone_table_loop child_pdt parent_pt child_pt (Suc pt_index) s
        else do {
          let parent_frame = parent_pte AND 0xFFFFF000;
          (child_frame, s) \<leftarrow> pfa_alloc s;
          if child_frame = 0 then do { s \<leftarrow> destroy_user_space child_pdt s; Some (False, s) }
          else do {
            (r, s) \<leftarrow> copy_frame_page parent_frame child_frame s;
            if r < 0 then do {
              s \<leftarrow> pfa_free child_frame s;
              s \<leftarrow> destroy_user_space child_pdt s;
              Some (False, s) }
            else do {
              s \<leftarrow> frame_write32 child_pt (of_nat pt_index) (child_frame OR (parent_pte AND 0xFFF)) s;
              clone_table_loop child_pdt parent_pt child_pt (Suc pt_index) s } } } }
      else Some (True, s))"
  by pat_completeness auto
termination
  by (relation "measure (\<lambda>(a, b, c, pt_index, s). 1024 - pt_index)") auto

declare clone_table_loop.simps [simp del]

function clone_directory_loop :: "u32 \<Rightarrow> u32 \<Rightarrow> nat \<Rightarrow> 'a paging_scheme \<Rightarrow> (bool \<times> 'a paging_scheme) option" where
  "clone_directory_loop parent_pdt child_pdt pd_index s =
     (if pd_index < 768 then do {
        (parent_pde, s) \<leftarrow> frame_read32 parent_pdt (of_nat pd_index) s;
        if parent_pde AND PTE_PRESENT = 0 then clone_directory_loop parent_pdt child_pdt (Suc pd_index) s
        else do {
          let parent_pt_phys = parent_pde AND 0xFFFFF000;
          (child_pt_phys, s) \<leftarrow> alloc_zeroed_frame s;
          if child_pt_phys = 0 then do { s \<leftarrow> destroy_user_space child_pdt s; Some (False, s) }
          else do {
            s \<leftarrow> frame_write32 child_pdt (of_nat pd_index) (child_pt_phys OR (parent_pde AND 0xFFF)) s;
            (ok, s) \<leftarrow> clone_table_loop child_pdt parent_pt_phys child_pt_phys 0 s;
            if \<not> ok then Some (False, s)
            else clone_directory_loop parent_pdt child_pdt (Suc pd_index) s } } }
      else Some (True, s))"
  by pat_completeness auto
termination
  by (relation "measure (\<lambda>(a, b, pd_index, s). 768 - pd_index)") auto

declare clone_directory_loop.simps [simp del]

definition clone_user_space :: "u32 \<Rightarrow> 'a paging_scheme \<Rightarrow> (u32 \<times> 'a paging_scheme) option" where
  "clone_user_space parent_pdt_phys s = do {
     (child_pdt_phys, s) \<leftarrow> create_user_pdt s;
     if child_pdt_phys = 0 then Some (0, s)
     else do {
       (ok, s) \<leftarrow> clone_directory_loop parent_pdt_phys child_pdt_phys 0 s;
       Some (if ok then child_pdt_phys else 0, s) } }"

subsection \<open>Building an image\<close>

function copy_phys_loop :: "u32 \<Rightarrow> u32 \<Rightarrow> u32 \<Rightarrow> u32 \<Rightarrow> 'a paging_scheme \<Rightarrow> 'a paging_scheme option" where
  "copy_phys_loop dst_frame_phys src_phys_start nbytes copied s =
     (if copied < nbytes then do {
        let src_phys = src_phys_start + copied;
        let src_page = src_phys AND 0xFFFFF000;
        let src_off = src_phys AND 0xFFF;
        let chunk = min_u32 (min_u32 (nbytes - copied) (PAGE_SIZE - src_off)) 128;
        s \<leftarrow> paging_temp_map src_page s;
        bounce \<leftarrow> bounce_read src_off chunk s;
        s \<leftarrow> paging_temp_unmap s;
        s \<leftarrow> paging_temp_map dst_frame_phys s;
        s \<leftarrow> bounce_write copied chunk bounce s;
        s \<leftarrow> paging_temp_unmap s;
        copy_phys_loop dst_frame_phys src_phys_start nbytes (copied + chunk) s }
      else Some s)"
  by pat_completeness auto
termination
proof (relation "measure (\<lambda>(dst, src, nbytes, copied, s). unat (nbytes - copied))", goal_cases)
  case (2 dst src nbytes copied s)
  let ?o = "(src + copied) AND 0xFFF" and ?c = "min_u32 (min_u32 (nbytes - copied) (4096 - ((src + copied) AND 0xFFF))) 128"
  have "?o < 4096" by (rule le_less_trans [OF word_and_le1]) simp
  then have "0 < 4096 - ?o" by (simp add: word_gt_0)
  moreover have "0 < nbytes - copied" using 2(1) by (simp add: word_gt_0)
  ultimately have "0 < ?c" by (simp add: min_u32_pos)
  moreover have "?c \<le> nbytes - copied" using min_u32_le by (meson order_trans)
  ultimately show ?case using loop_progress(3) [OF 2(1)] 2 by simp
qed simp

declare copy_phys_loop.simps [simp del]

definition copy_phys_region_to_frame :: "u32 \<Rightarrow> u32 \<Rightarrow> u32 \<Rightarrow> 'a paging_scheme \<Rightarrow> (int \<times> 'a paging_scheme) option" where
  "copy_phys_region_to_frame dst_frame_phys src_phys_start nbytes s =
     (if nbytes > PAGE_SIZE then Some (-1, s)
      else do {
        s \<leftarrow> paging_temp_map dst_frame_phys s;
        s \<leftarrow> win_zero8 s;
        s \<leftarrow> paging_temp_unmap s;
        s \<leftarrow> copy_phys_loop dst_frame_phys src_phys_start nbytes 0 s;
        Some (0, s) })"

abbreviation (input) USER_TEXT_BASE :: u32 where "USER_TEXT_BASE \<equiv> 0"
abbreviation (input) USER_STACK_PAGE_VADDR :: u32 where "USER_STACK_PAGE_VADDR \<equiv> 0xBFFFF000"
abbreviation (input) USER_STACK_TOP :: u32 where "USER_STACK_TOP \<equiv> 0xC0000000"

text \<open>The result is the user stack pointer, \<open>None\<close> inside for -1.\<close>

definition setup_user_stack :: "u32 \<Rightarrow> 'a paging_scheme \<Rightarrow> (u32 option \<times> 'a paging_scheme) option" where
  "setup_user_stack pdt_phys s = do {
     (stack_frame, s) \<leftarrow> pfa_alloc s;
     if stack_frame = 0 then Some (None, s)
     else do {
       (r, s) \<leftarrow> map_user_page pdt_phys USER_STACK_PAGE_VADDR stack_frame s;
       if r < 0 then do { s \<leftarrow> pfa_free stack_frame s; Some (None, s) }
       else do {
         s \<leftarrow> paging_temp_map stack_frame s;
         s \<leftarrow> win_zero8 s;
         s \<leftarrow> win_write32 ((PAGE_SIZE - 8) div 4) 0 s;
         s \<leftarrow> win_write32 ((PAGE_SIZE - 8) div 4 + 1) 0 s;
         s \<leftarrow> paging_temp_unmap s;
         Some (Some (USER_STACK_TOP - 8), s) } } }"

text \<open>The loading loop of \<open>build_new_image\<close>; \<open>False\<close> when it failed and the space was destroyed.\<close>

function load_loop :: "u32 \<Rightarrow> u32 \<Rightarrow> u32 \<Rightarrow> u32 \<Rightarrow> 'a paging_scheme \<Rightarrow> (bool \<times> 'a paging_scheme) option" where
  "load_loop pdt_phys mstart module_size loaded s =
     (if loaded < module_size then do {
        let vaddr = USER_TEXT_BASE + loaded;
        (frame, s) \<leftarrow> pfa_alloc s;
        let copy_size = min_u32 PAGE_SIZE (module_size - loaded);
        if frame = 0 then do { s \<leftarrow> destroy_user_space pdt_phys s; Some (False, s) }
        else do {
          (r, s) \<leftarrow> map_user_page pdt_phys vaddr frame s;
          if r < 0 then do {
            s \<leftarrow> pfa_free frame s;
            s \<leftarrow> destroy_user_space pdt_phys s;
            Some (False, s) }
          else do {
            (r, s) \<leftarrow> copy_phys_region_to_frame frame (mstart + loaded) copy_size s;
            if r < 0 then do { s \<leftarrow> destroy_user_space pdt_phys s; Some (False, s) }
            else load_loop pdt_phys mstart module_size (loaded + copy_size) s } } }
      else Some (True, s))"
  by pat_completeness auto
termination
proof (relation "measure (\<lambda>(pdt, mstart, n, loaded, s). unat (n - loaded))", goal_cases)
  case (2 pdt_phys mstart module_size loaded s)
  let ?c = "min_u32 4096 (module_size - loaded)"
  have "0 < module_size - loaded" using 2(1) by (simp add: word_gt_0)
  then have "0 < ?c" by (simp add: min_u32_pos)
  moreover have "?c \<le> module_size - loaded" by (rule min_u32_le(2))
  ultimately show ?case using loop_progress(3) [OF 2(1)] 2 by simp
qed simp

declare load_loop.simps [simp del]

text \<open>The page directory, the entry point and the user stack pointer; \<open>None\<close> inside for -1.\<close>

definition build_new_image :: "u32 \<Rightarrow> u32 \<Rightarrow> 'a paging_scheme \<Rightarrow> ((u32 \<times> u32 \<times> u32) option \<times> 'a paging_scheme) option" where
  "build_new_image mstart mend s =
     (if mend \<le> mstart then Some (None, s)
      else do {
        (pdt_phys, s) \<leftarrow> create_user_pdt s;
        if pdt_phys = 0 then Some (None, s)
        else do {
          let module_size = mend - mstart;
          (ok, s) \<leftarrow> load_loop pdt_phys mstart module_size 0 s;
          if \<not> ok then Some (None, s)
          else do {
            (user_esp, s) \<leftarrow> setup_user_stack pdt_phys s;
            case user_esp of
              None \<Rightarrow> do { s \<leftarrow> destroy_user_space pdt_phys s; Some (None, s) }
            | Some user_esp \<Rightarrow> Some (Some (pdt_phys, USER_TEXT_BASE, user_esp), s) } } })"

end
