(* ===== verification/Address_Space.thy ===== *)
theory Address_Space
  imports User_Space
begin

text \<open>
  Reasoning about the address spaces of \<open>User_Space\<close>.  First the accesses through the window of temporary
  mappings are reduced to reads and writes of physical memory, and the copying loops to a copy of the
  page; then a space in memory is described by its entries (\<open>pde_at\<close>, \<open>pte_at\<close>), the frames it owns and
  the invariant \<open>space_ok\<close>; the last part proves what each operation does to it: \<open>destroy_user_space\<close> frees
  exactly the frames of the space, and a space under construction (\<open>building\<close>) accounts for every frame
  taken from the allocator since the construction began, so that a failure can give them all back.
\<close>

subsection \<open>Accesses through the window\<close>

abbreviation pg :: "u32 \<Rightarrow> u32" where "pg a \<equiv> a AND 0xFFFFF000"

definition window_closed :: "'a paging_scheme \<Rightarrow> bool" where
  "window_closed s \<longleftrightarrow> length (kernel_page_table s) = 1024 \<and> kernel_page_table s ! 1023 = 0 \<and> 0xC03FF \<notin> stale s"

lemma window_closed_upd [simp]:
  "window_closed (s\<lparr>pmem := m\<rparr>) = window_closed s" "window_closed (s\<lparr>bitmap := b\<rparr>) = window_closed s"
  by (simp_all add: window_closed_def)

lemma close_window [simp]:
  "window_closed s \<Longrightarrow> s\<lparr>kernel_page_table := (kernel_page_table s)[1023 := 0], stale := stale s - {0xC03FF}\<rparr> = s"
  by (simp add: window_closed_def list_update_same_conv)

definition opened :: "u32 \<Rightarrow> 'a paging_scheme \<Rightarrow> 'a paging_scheme" where
  "opened f s = s\<lparr>kernel_page_table := (kernel_page_table s)[1023 := pg f OR 3]\<rparr>"

lemma open_window:
  assumes "window_closed s"
  shows "paging_temp_map f s = Some (opened f s)" "window (opened f s) = Some (pg f)"
    "pmem (opened f s) = pmem s"
    "paging_temp_unmap ((opened f s)\<lparr>pmem := m\<rparr>) = Some (s\<lparr>pmem := m\<rparr>)"
    "paging_temp_unmap ((opened f s)\<lparr>pmem := m, bitmap := b\<rparr>) = Some (s\<lparr>pmem := m, bitmap := b\<rparr>)"
    "paging_temp_unmap (opened f s) = Some s"
proof -
  have l: "length (kernel_page_table s) = 1024" and z: "(kernel_page_table s)[1023 := 0] = kernel_page_table s"
    and st: "stale s - {0xC03FF} = stale s" "0xC03FF \<notin> stale s"
    using assms by (simp_all add: window_closed_def list_update_same_conv)
  show "paging_temp_map f s = Some (opened f s)" using temp_map_eq [OF l, of f] st by (simp add: opened_def)
  show "window (opened f s) = Some (pg f)" using l st by (intro window_temp_map) (simp_all add: opened_def)
  show "pmem (opened f s) = pmem s" by (simp add: opened_def)
  show "paging_temp_unmap ((opened f s)\<lparr>pmem := m\<rparr>) = Some (s\<lparr>pmem := m\<rparr>)"
    using z st l by (simp add: opened_def temp_unmap_eq)
  show "paging_temp_unmap ((opened f s)\<lparr>pmem := m, bitmap := b\<rparr>) = Some (s\<lparr>pmem := m, bitmap := b\<rparr>)"
    using z st l by (simp add: opened_def temp_unmap_eq)
  show "paging_temp_unmap (opened f s) = Some s"
    using z st l by (simp add: opened_def temp_unmap_eq)
qed

definition set_page :: "u32 \<Rightarrow> page \<Rightarrow> 'a paging_scheme \<Rightarrow> 'a paging_scheme" where
  "set_page f p s = s\<lparr>pmem := (pmem s)(f := p)\<rparr>"

lemma set_page_simps [simp]:
  "pmem (set_page f p s) = (pmem s)(f := p)" "window_closed (set_page f p s) = window_closed s"
  "pfa_ok (set_page f p s) = pfa_ok s" "avail_frames (set_page f p s) = avail_frames s"
  "managed_frames (set_page f p s) = managed_frames s" "page_directory (set_page f p s) = page_directory s"
  "set_page f p (set_page f q s) = set_page f p s"
  by (simp_all add: set_page_def pfa_ok_def avail_frames_def managed_frames_def free_frames_def)

lemma pmem_upd_avail [simp]:
  "avail_frames (s\<lparr>pmem := m\<rparr>) = avail_frames s" "managed_frames (s\<lparr>pmem := m\<rparr>) = managed_frames s"
  "pfa_ok (s\<lparr>pmem := m\<rparr>) = pfa_ok s"
  for s :: "'a paging_scheme"
  by (simp_all add: avail_frames_def managed_frames_def free_frames_def pfa_ok_def)

lemma frame_access:
  assumes "window_closed s" and "i < 1024"
  shows "frame_read32 f i s = Some (get32 (pmem s (pg f)) (4 * i), s)"
    and "frame_write32 f i w s = Some (set_page (pg f) (put32 (pmem s (pg f)) (4 * i) w) s)"
  using assms by (simp_all add: frame_read32_def frame_write32_def open_window win_ops set_page_def)

lemma clear_frame:
  assumes "window_closed s"
  shows "do { s \<leftarrow> paging_temp_map f s; s \<leftarrow> win_zero8 s; s \<leftarrow> paging_temp_unmap s; k s } =
    k (set_page (pg f) (zero_page (pmem s (pg f))) s)"
  using assms by (simp add: open_window win_zero8_eq set_page_def)

lemma managed_aligned:
  assumes "pfa_ok s" and "unat f mod 4096 = 0"
  shows "f \<in> managed_frames s \<longleftrightarrow> unat (start_frame s) \<le> unat f div 4096 \<and> unat f div 4096 < unat (total_frames s)"
proof
  assume "f \<in> managed_frames s"
  then obtain n where n: "f = of_nat n * 4096" "unat (start_frame s) \<le> n" "n < unat (total_frames s)"
    by (auto simp: managed_frames_def)
  then have "unat f = n * 4096" using assms(1) by (simp add: unat_frame_addr pfa_ok_def)
  with n show "unat (start_frame s) \<le> unat f div 4096 \<and> unat f div 4096 < unat (total_frames s)" by simp
next
  assume r: "unat (start_frame s) \<le> unat f div 4096 \<and> unat f div 4096 < unat (total_frames s)"
  then have "unat (of_nat (unat f div 4096) * 4096 :: u32) = unat f"
    using assms by (subst unat_frame_addr) (auto simp: pfa_ok_def)
  then have "f = of_nat (unat f div 4096) * 4096" by (simp add: word_unat_eq_iff)
  with r show "f \<in> managed_frames s" unfolding managed_frames_def by (intro image_eqI) auto
qed

lemma pfa_free_aligned:
  assumes "pfa_ok s" and "unat f mod 4096 = 0"
  obtains bm where "pfa_free f s = Some (s\<lparr>bitmap := bm\<rparr>)" "pfa_ok (s\<lparr>bitmap := bm\<rparr>)"
    "avail_frames (s\<lparr>bitmap := bm\<rparr>) = avail_frames s \<union> ({f} \<inter> managed_frames s)"
    "managed_frames (s\<lparr>bitmap := bm\<rparr>) = managed_frames s"
proof (cases "f \<in> managed_frames s")
  case True
  from frames.release_avail [OF assms(1) True] pfa_free_unmark [OF assms(1), of f] True managed_aligned [OF assms]
    that [of "bm_unmark (bitmap s) (unat f div 4096)"] show thesis by auto
next
  case False
  from pfa_free_unmark [OF assms(1), of f] False managed_aligned [OF assms] that [of "bitmap s"] assms(1) show thesis by auto
qed

lemma pg_aligned [simp]: "unat (pg f) mod 4096 = 0"
  by (simp add: unat_page_mask)

lemma pg_pg [simp]: "pg (pg f) = pg f"
  by (simp add: and.assoc)

subsection \<open>Copying between frames\<close>

definition blit :: "u32 \<Rightarrow> u32 \<Rightarrow> u32 \<Rightarrow> page \<Rightarrow> page \<Rightarrow> page" where
  "blit src_off dst_off n p q = (\<lambda>off. if dst_off \<le> off \<and> unat off < unat dst_off + unat n
     then p (off - dst_off + src_off) else q off)"

lemma of_nat_off:
  assumes "i < unat n" and "unat (off :: u32) + unat (n :: u32) \<le> 4096"
  shows "unat (of_nat i :: u32) = i" "unat (off + of_nat i) = unat off + i" "off + of_nat i < 4096"
proof -
  have i: "i < 4096" using assms by simp
  show a: "unat (of_nat i :: u32) = i" using i by (simp add: unat_of_nat)
  have "unat off + i < 4096" using assms by linarith
  then show b: "unat (off + of_nat i) = unat off + i"
    by (subst unat_add_lem [THEN iffD1]) (simp_all add: a)
  show "off + of_nat i < 4096" using b assms by (simp add: word_less_nat_alt)
qed

lemma bounce_read_eq:
  assumes "window s = Some f" and "unat off + unat n \<le> 4096" and "unat n \<le> 128"
  shows "bounce_read off n s = Some (map (\<lambda>i. if i < unat n then pmem s f (off + of_nat i) else 0) [0..<128])"
proof -
  note upt_rec_numeral [simp del]
  define g where "g k = map (\<lambda>i. if i < k then pmem s f (off + of_nat i) else 0) [0..<128]" for k
  have "bounce_read off n s = Some (g (unat n))"
    unfolding bounce_read_def
  proof (rule for_range_eqI [where g = g])
    fix i assume i: "i < unat n"
    note o = of_nat_off [OF i assms(2)]
    have "(g i)[i := pmem s f (off + of_nat i)] = g (Suc i)"
      by (rule nth_equalityI) (auto simp: g_def nth_list_update less_Suc_eq)
    then show "do { b \<leftarrow> win_read8 (off + of_nat i) s; arr_set (g i) (of_nat i) b } = Some (g (Suc i))"
      using i assms(1,3) o by (simp add: win_ops g_def arr_set_def)
  next
    show "replicate 128 0 = g 0" by (rule nth_equalityI) (simp_all add: g_def)
  qed simp
  then show ?thesis by (simp add: g_def)
qed

lemma bounce_write_eq:
  assumes "window s = Some f" and "unat off + unat n \<le> 4096" and "unat n \<le> length bounce"
  shows "bounce_write off n bounce s =
    Some (s\<lparr>pmem := (pmem s)(f := blit 0 off n (\<lambda>i. bounce ! unat i) (pmem s f))\<rparr>)"
proof -
  define g where "g k = s\<lparr>pmem := (pmem s)(f := (\<lambda>o'. if off \<le> o' \<and> unat o' < unat off + k
    then bounce ! unat (o' - off) else pmem s f o'))\<rparr>" for k
  have "bounce_write off n bounce s = Some (g (unat n))"
    unfolding bounce_write_def
  proof (rule for_range_eqI [where g = g])
    fix i assume i: "i < unat n"
    note o = of_nat_off [OF i assms(2)]
    have w: "window (g i) = Some f" using assms(1) by (simp add: g_def)
    have "(pmem (g i) f)(off + of_nat i := bounce ! i) = pmem (g (Suc i)) f"
    proof
      fix o'
      have "off \<le> off + of_nat i" using o by (simp add: word_le_nat_alt)
      moreover have "unat o' = unat off + i \<longleftrightarrow> o' = off + of_nat i"
        using o by (simp add: word_unat_eq_iff)
      moreover have "unat (off + of_nat i - off) = i" using o by simp
      ultimately show "((pmem (g i) f)(off + of_nat i := bounce ! i)) o' = pmem (g (Suc i)) f o'"
        unfolding g_def by (cases "o' = off + of_nat i") (simp_all add: less_Suc_eq)
    qed
    then show "do { b \<leftarrow> arr_get bounce (of_nat i); win_write8 (off + of_nat i) b (g i) } = Some (g (Suc i))"
      using i assms(3) o w by (simp add: win_ops arr_get_def) (simp add: g_def)
  next
    have "(off \<le> o' \<and> unat o' < unat off) = False" for o' by (simp add: word_le_nat_alt)
    then show "s = g 0" unfolding g_def add_0_right by (simp only:) simp
  qed simp
  then show ?thesis unfolding g_def blit_def add_0_right .
qed

lemma copy_chunk:
  assumes "window_closed s" and "unat so + unat n \<le> 4096" and "unat d + unat n \<le> 4096" and "unat n \<le> 128"
  shows "do { s \<leftarrow> paging_temp_map src s; bounce \<leftarrow> bounce_read so n s; s \<leftarrow> paging_temp_unmap s;
      s \<leftarrow> paging_temp_map dst s; s \<leftarrow> bounce_write d n bounce s; s \<leftarrow> paging_temp_unmap s; k s } =
    k (set_page (pg dst) (blit so d n (pmem s (pg src)) (pmem s (pg dst))) s)"
proof -
  note upt_rec_numeral [simp del]
  let ?b = "map (\<lambda>i. if i < unat n then pmem s (pg src) (so + of_nat i) else 0) [0..<128]"
  have "blit 0 d n (\<lambda>i. ?b ! unat i) q = blit so d n (pmem s (pg src)) q" for q
  proof
    fix off
    have "off - d = word_of_nat (unat off - unat d)" "unat (off - d) = unat off - unat d" if "d \<le> off"
      using that by (simp_all add: unat_sub flip: unat_sub)
    then show "blit 0 d n (\<lambda>i. ?b ! unat i) q off = blit so d n (pmem s (pg src)) q off"
      using assms(4) by (auto simp: blit_def add.commute)
  qed
  then show ?thesis
    using bounce_read_eq [OF open_window(2) [OF assms(1)] assms(2,4), of src, unfolded open_window(3) [OF assms(1)]] assms
      bounce_write_eq [OF open_window(2) [OF assms(1)] assms(3), of ?b dst]
    by (simp add: open_window set_page_def)
qed

lemma min_u32_nat: "unat (min_u32 a b) = min (unat a) (unat b)"
  by (simp add: min_u32_def word_less_nat_alt)

lemma copy_frame_page_loop_eq:
  assumes "window_closed s" and "pg src \<noteq> pg dst" and "c \<le> 4096"
  shows "copy_frame_page_loop src dst c s = Some (set_page (pg dst)
    (\<lambda>off. if c \<le> off \<and> off < 4096 then pmem s (pg src) off else pmem s (pg dst) off) s)"
  using assms
proof (induction "unat (4096 - c)" arbitrary: c s rule: less_induct)
  case less
  let ?n = "min_u32 (4096 - c) 128"
  show ?case
  proof (cases "c < 4096")
    case True
    then have d: "unat (4096 - c) = 4096 - unat c" by (simp add: unat_sub)
    have c: "unat c < 4096" using True by (simp add: word_less_nat_alt)
    have n: "unat ?n = min (4096 - unat c) 128" by (simp add: min_u32_nat d)
    have fit: "unat c + unat ?n \<le> 4096" "unat ?n \<le> 128" using n c by auto
    let ?s = "set_page (pg dst) (blit c c ?n (pmem s (pg src)) (pmem s (pg dst))) s"
    have cn: "unat (c + ?n) = unat c + unat ?n"
      using fit by (subst unat_add_lem [THEN iffD1]) simp_all
    have IH: "copy_frame_page_loop src dst (c + ?n) ?s = Some (set_page (pg dst)
      (\<lambda>off. if c + ?n \<le> off \<and> off < 4096 then pmem ?s (pg src) off else pmem ?s (pg dst) off) ?s)"
      using loop_progress(3) [OF True, of ?n] cn fit n c d less.prems
      by (intro less.hyps) (auto simp: word_less_nat_alt word_le_nat_alt min_u32_le)
    have "copy_frame_page_loop src dst c s = copy_frame_page_loop src dst (c + ?n) ?s"
      using True copy_chunk [OF less.prems(1) fit(1) fit(1) fit(2), of src dst]
      by (subst copy_frame_page_loop.simps) simp
    moreover have "(\<lambda>off. if c + ?n \<le> off \<and> off < 4096 then pmem ?s (pg src) off else pmem ?s (pg dst) off) =
      (\<lambda>off. if c \<le> off \<and> off < 4096 then pmem s (pg src) off else pmem s (pg dst) off)"
      using less.prems(2) cn fit by (auto simp: blit_def fun_eq_iff word_le_nat_alt word_less_nat_alt)
    ultimately show ?thesis using IH by simp
  next
    case False
    with less.prems(3) have "c = 4096" by simp
    moreover have "(4096 \<le> off \<and> off < 4096) = False" for off :: u32 by auto
    ultimately show ?thesis by (subst copy_frame_page_loop.simps) (simp only: set_page_def, simp)
  qed
qed


text \<open>The bytes of the page copied are those of the source, whatever its size in chunks.\<close>

lemma copy_frame_page_eq:
  assumes "window_closed s" and "pg src \<noteq> pg dst"
  shows "copy_frame_page src dst s = Some (0, set_page (pg dst)
    (\<lambda>off. if off < 4096 then pmem s (pg src) off else pmem s (pg dst) off) s)"
  using copy_frame_page_loop_eq [OF assms, of 0] by (simp add: copy_frame_page_def)

definition phys_byte :: "(u32 \<Rightarrow> page) \<Rightarrow> u32 \<Rightarrow> u8" where
  "phys_byte m a = m (pg a) (a AND 0xFFF)"

lemma unat_offset: "unat (a AND 0xFFF :: u32) = unat a mod 4096"
  using unat_and_mask [of a 12] by (simp add: mask_numeral)

lemma within_page:
  assumes "unat (a AND 0xFFF) + unat k < 4096"
  shows "pg (a + k) = pg a" "(a + k) AND 0xFFF = (a AND 0xFFF) + (k :: u32)"
proof -
  define q r where qr: "q = unat a div 4096" "r = unat a mod 4096"
  have a: "unat a = q * 4096 + r" by (simp add: qr)
  have "unat a < 4096 * 1048576" using unsigned_less [of a, where ?'a = nat] by simp
  then have q: "q < 1048576" by (simp add: less_mult_imp_div_less qr)
  have m: "r + unat k < 4096" using assms by (simp add: unat_offset qr)
  have "q * 4096 + r + unat k < 4294967296" using q m by linarith
  then have "unat a + unat k < 2 ^ 32" unfolding a by simp
  then have ak: "unat (a + k) = unat a + unat k" by (subst unat_add_lem [THEN iffD1]) simp_all
  have "unat a + unat k = (r + unat k) + q * 4096" using a by simp
  then have "(unat a + unat k) div 4096 = q" "(unat a + unat k) mod 4096 = r + unat k"
    using m by (simp_all only: div_mult_self1 mod_mult_self1) simp_all
  then have "(unat a + unat k) div 4096 = unat a div 4096" "(unat a + unat k) mod 4096 = unat a mod 4096 + unat k"
    by (simp_all add: qr)
  then show "pg (a + k) = pg a" by (simp add: word_unat_eq_iff unat_page_mask ak)
  have "unat ((a AND 0xFFF) + k) = unat a mod 4096 + unat k"
    using m by (subst unat_add_lem [THEN iffD1]) (simp_all add: unat_offset qr)
  with \<open>(unat a + unat k) mod 4096 = unat a mod 4096 + unat k\<close> show "(a + k) AND 0xFFF = (a AND 0xFFF) + k"
    by (simp add: word_unat_eq_iff unat_offset ak)
qed

lemma copy_phys_loop_eq:
  assumes "window_closed s" and "\<And>off. off < size' \<Longrightarrow> pg (src + off) \<noteq> pg dst" and "c \<le> size'" and "size' \<le> 4096"
  shows "copy_phys_loop dst src size' c s = Some (set_page (pg dst)
    (\<lambda>off. if c \<le> off \<and> off < size' then phys_byte (pmem s) (src + off) else pmem s (pg dst) off) s)"
  using assms
proof (induction "unat (size' - c)" arbitrary: c s rule: less_induct)
  case less
  let ?o = "(src + c) AND 0xFFF"
  let ?n = "min_u32 (min_u32 (size' - c) (4096 - ?o)) 128"
  show ?case
  proof (cases "c < size'")
    case True
    have c: "unat c < unat size'" "unat size' \<le> 4096" using True less.prems(4) by (simp_all add: word_less_nat_alt word_le_nat_alt)
    have o: "unat ?o < 4096" by (simp add: unat_offset)
    then have d: "unat (size' - c) = unat size' - unat c" "unat (4096 - ?o) = 4096 - unat ?o"
      using True by (simp_all add: unat_sub word_le_nat_alt word_less_nat_alt)
    have n: "unat ?n = min (min (unat size' - unat c) (4096 - unat ?o)) 128" by (simp add: min_u32_nat d)
    have fit: "unat ?o + unat ?n \<le> 4096" "unat c + unat ?n \<le> unat size'" "unat ?n \<le> 128" "0 < unat ?n" using n c o by auto
    then have fit': "unat c + unat ?n \<le> 4096" using c(2) by linarith
    let ?s = "set_page (pg dst) (blit ?o c ?n (pmem s (pg (src + c))) (pmem s (pg dst))) s"
    have cn: "unat (c + ?n) = unat c + unat ?n"
      using fit' by (subst unat_add_lem [THEN iffD1]) simp_all
    have IH: "copy_phys_loop dst src size' (c + ?n) ?s = Some (set_page (pg dst)
      (\<lambda>off. if c + ?n \<le> off \<and> off < size' then phys_byte (pmem ?s) (src + off) else pmem ?s (pg dst) off) ?s)"
    proof (rule less.hyps)
      show "unat (size' - (c + ?n)) < unat (size' - c)"
        using fit cn d c by (subst unat_sub) (simp_all add: word_le_nat_alt)
      show "c + ?n \<le> size'" using fit cn by (simp add: word_le_nat_alt)
    qed (use less.prems in simp_all)
    have "copy_phys_loop dst src size' c s = copy_phys_loop dst src size' (c + ?n) ?s"
      using True copy_chunk [OF less.prems(1) fit(1) fit' fit(3), of "pg (src + c)" dst]
      by (subst copy_phys_loop.simps) simp
    moreover have "(if c + ?n \<le> off \<and> off < size' then phys_byte (pmem ?s) (src + off) else pmem ?s (pg dst) off) =
      (if c \<le> off \<and> off < size' then phys_byte (pmem s) (src + off) else pmem s (pg dst) off)" for off
    proof (cases "c \<le> off \<and> unat off < unat c + unat ?n")
      case in_chunk: True
      then have u: "unat (off - c) = unat off - unat c" "unat c \<le> unat off" by (simp_all add: unat_sub word_le_nat_alt)
      then have lt: "unat ?o + unat (off - c) < 4096" using in_chunk fit(1) by linarith
      have e: "src + c + (off - c) = src + off" by simp
      from within_page [OF lt, unfolded e]
      have "phys_byte (pmem s) (src + off) = pmem s (pg (src + c)) (off - c + ?o)"
        by (simp add: phys_byte_def add.commute)
      moreover have "off < size'" "\<not> c + ?n \<le> off" using in_chunk fit(2) cn by (simp_all add: word_less_nat_alt word_le_nat_alt)
      ultimately show ?thesis using in_chunk by (simp add: blit_def)
    next
      case False
      then have "c + ?n \<le> off \<longleftrightarrow> c \<le> off" using cn fit by (auto simp: word_le_nat_alt)
      moreover have "off < size' \<Longrightarrow> phys_byte (pmem ?s) (src + off) = phys_byte (pmem s) (src + off)"
        using less.prems(2) by (simp add: phys_byte_def)
      ultimately show ?thesis using False by (auto simp: blit_def)
    qed
    ultimately show ?thesis using IH by simp
  next
    case False
    with less.prems(3) have "c = size'" by simp
    moreover have "(size' \<le> off \<and> off < size') = False" for off by auto
    ultimately show ?thesis by (subst copy_phys_loop.simps) (simp only: set_page_def, simp)
  qed
qed

lemma copy_phys_region_to_frame_eq:
  assumes "window_closed s" and "\<And>off. off < n \<Longrightarrow> pg (src + off) \<noteq> pg dst" and "n \<le> 4096"
  shows "copy_phys_region_to_frame dst src n s = Some (0, set_page (pg dst)
    (\<lambda>off. if off < n then phys_byte (pmem s) (src + off) else if off < 4096 then 0 else pmem s (pg dst) off) s)"
proof -
  let ?s = "set_page (pg dst) (zero_page (pmem s (pg dst))) s"
  have "copy_phys_loop dst src n 0 ?s = Some (set_page (pg dst)
    (\<lambda>off. if 0 \<le> off \<and> off < n then phys_byte (pmem ?s) (src + off) else pmem ?s (pg dst) off) ?s)"
    by (rule copy_phys_loop_eq) (use assms in simp_all)
  moreover have "phys_byte (pmem ?s) (src + off) = phys_byte (pmem s) (src + off)" if "off < n" for off
    using assms(2) [OF that] by (simp add: phys_byte_def)
  ultimately show ?thesis
    using clear_frame [OF assms(1), of dst "\<lambda>s. do { s \<leftarrow> copy_phys_loop dst src n 0 s; Some (0, s) }"] assms(3)
    by (simp add: copy_phys_region_to_frame_def not_less zero_page_def cong: if_cong)
qed

subsection \<open>Spaces in memory\<close>

definition entry :: "page \<Rightarrow> nat \<Rightarrow> u32" where
  "entry p i = get32 p (4 * of_nat i)"

definition present :: "u32 \<Rightarrow> bool" where
  "present e \<longleftrightarrow> e AND PTE_PRESENT \<noteq> 0"

abbreviation user :: "nat \<Rightarrow> bool" where
  "user i \<equiv> i < 1024 \<and> i \<noteq> 768"

definition pde_at :: "(u32 \<Rightarrow> page) \<Rightarrow> u32 \<Rightarrow> nat \<Rightarrow> u32" where
  "pde_at m d i = entry (m (pg d)) i"

definition pte_at :: "(u32 \<Rightarrow> page) \<Rightarrow> u32 \<Rightarrow> nat \<Rightarrow> nat \<Rightarrow> u32" where
  "pte_at m d i j = (if present (pde_at m d i) then entry (m (pg (pde_at m d i))) j else 0)"

definition dir_slots :: "(u32 \<Rightarrow> page) \<Rightarrow> u32 \<Rightarrow> nat set" where
  "dir_slots m d = {i. user i \<and> present (pde_at m d i)}"

definition page_slots :: "(u32 \<Rightarrow> page) \<Rightarrow> u32 \<Rightarrow> (nat \<times> nat) set" where
  "page_slots m d = {(i, j). user i \<and> j < 1024 \<and> present (pte_at m d i j)}"

definition tables :: "(u32 \<Rightarrow> page) \<Rightarrow> u32 \<Rightarrow> u32 set" where
  "tables m d = (\<lambda>i. pg (pde_at m d i)) ` dir_slots m d"

definition pages :: "(u32 \<Rightarrow> page) \<Rightarrow> u32 \<Rightarrow> u32 set" where
  "pages m d = (\<lambda>(i, j). pg (pte_at m d i j)) ` page_slots m d"

definition owned :: "(u32 \<Rightarrow> page) \<Rightarrow> u32 \<Rightarrow> u32 set" where
  "owned m d = insert (pg d) (tables m d \<union> pages m d)"

definition space_ok :: "(u32 \<Rightarrow> page) \<Rightarrow> u32 \<Rightarrow> bool" where
  "space_ok m d \<longleftrightarrow> pg d = d \<and> d \<notin> tables m d \<and> d \<notin> pages m d \<and> tables m d \<inter> pages m d = {} \<and>
     (\<forall>i \<in> dir_slots m d. pde_at m d i AND 0x80 = 0) \<and>
     inj_on (\<lambda>i. pg (pde_at m d i)) (dir_slots m d) \<and>
     inj_on (\<lambda>(i, j). pg (pte_at m d i j)) (page_slots m d)"

lemma not_present_0 [simp]: "\<not> present 0"
  by (simp add: present_def)

lemma entry_put32:
  assumes "i < 1024" and "j < 1024"
  shows "entry (put32 p (4 * of_nat i) v) j = (if i = j then v else entry p j)"
proof -
  have lt: "(of_nat i :: u32) < 1024" "(of_nat j :: u32) < 1024"
    using assms by (simp_all add: word_less_nat_alt unat_of_nat)
  moreover have "(of_nat i :: u32) = of_nat j \<Longrightarrow> i = j"
    using assms by (simp add: word_unat_eq_iff unat_of_nat)
  ultimately show ?thesis
    using get32_put32_other [OF lt, of p v] by (auto simp: entry_def get32_put32)
qed

lemma entry_zero_page: "i < 1024 \<Longrightarrow> entry (zero_page p) i = 0"
  by (simp add: entry_def get32_zero_page word_less_nat_alt unat_of_nat)

lemma space_same:
  assumes "\<And>i. user i \<Longrightarrow> pde_at m' d i = pde_at m d i" and "\<And>i j. user i \<Longrightarrow> j < 1024 \<Longrightarrow> pte_at m' d i j = pte_at m d i j"
  shows "dir_slots m' d = dir_slots m d" and "page_slots m' d = page_slots m d" and "tables m' d = tables m d"
    and "pages m' d = pages m d" and "owned m' d = owned m d" and "space_ok m' d = space_ok m d"
proof -
  show ds: "dir_slots m' d = dir_slots m d" using assms by (auto simp: dir_slots_def)
  show ps: "page_slots m' d = page_slots m d" using assms by (auto simp: page_slots_def)
  have p: "pde_at m' d i = pde_at m d i" if "i \<in> dir_slots m d" for i
    using that assms(1) by (auto simp: dir_slots_def)
  have q: "(\<lambda>(i, j). pg (pte_at m' d i j)) x = (\<lambda>(i, j). pg (pte_at m d i j)) x" if "x \<in> page_slots m d" for x
    using that assms(2) by (auto simp: page_slots_def)
  show t: "tables m' d = tables m d" unfolding tables_def ds using p by simp
  show g: "pages m' d = pages m d" unfolding pages_def ps using q by (intro image_cong) auto
  show "owned m' d = owned m d" by (simp add: owned_def t g)
  show "space_ok m' d = space_ok m d"
    unfolding space_ok_def t g ds ps using p q by (simp cong: inj_on_cong)
qed

lemma space_cong:
  assumes "m' (pg d) = m (pg d)" and "\<forall>f \<in> tables m d. m' f = m f"
  shows "pde_at m' d i = pde_at m d i" and "user i \<Longrightarrow> pte_at m' d i j = pte_at m d i j"
    and "owned m' d = owned m d" and "space_ok m' d = space_ok m d"
proof -
  show p: "pde_at m' d i = pde_at m d i" for i by (simp add: pde_at_def assms(1))
  show q: "pte_at m' d i j = pte_at m d i j" if "user i" for i j
    using that assms(2) by (auto simp: pte_at_def p tables_def dir_slots_def)
  show "owned m' d = owned m d" "space_ok m' d = space_ok m d"
    by (rule space_same, use p q in simp_all)+
qed

lemma space_okD:
  assumes "space_ok m d"
  shows "pg d = d" "d \<notin> tables m d" "d \<notin> pages m d" "tables m d \<inter> pages m d = {}"
    and "i \<in> dir_slots m d \<Longrightarrow> pde_at m d i AND 0x80 = 0"
    and "inj_on (\<lambda>i. pg (pde_at m d i)) (dir_slots m d)"
    and "inj_on (\<lambda>(i, j). pg (pte_at m d i j)) (page_slots m d)"
  using assms unfolding space_ok_def by blast+

lemma table_of_slot: "i \<in> dir_slots m d \<Longrightarrow> pg (pde_at m d i) \<in> tables m d"
  by (simp add: tables_def)

text \<open>A new, empty table for entry \<open>i\<close> of the directory.\<close>

lemma add_table:
  assumes ok: "space_ok m d" and i: "user i" "\<not> present (pde_at m d i)"
    and t: "t \<notin> owned m d" "\<forall>j < 1024. entry (m t) j = 0"
    and e: "present e" "pg e = t" "e AND 0x80 = 0"
    and m': "m' = m(d := put32 (m d) (4 * of_nat i) e)"
  shows "\<And>k. k < 1024 \<Longrightarrow> pde_at m' d k = (if k = i then e else pde_at m d k)"
    and "\<And>k j. user k \<Longrightarrow> j < 1024 \<Longrightarrow> pte_at m' d k j = pte_at m d k j"
    and "owned m' d = insert t (owned m d)" and "space_ok m' d" and "pages m' d = pages m d"
proof -
  note D = space_okD [OF ok]
  have td: "t \<noteq> d" using t(1) D(1) by (auto simp: owned_def)
  show p: "pde_at m' d k = (if k = i then e else pde_at m d k)" if "k < 1024" for k
    using that i(1) by (auto simp: pde_at_def m' D(1) entry_put32)
  show q: "pte_at m' d k j = pte_at m d k j" if "user k" "j < 1024" for k j
  proof -
    have "pg (pde_at m d k) \<noteq> d" if "present (pde_at m d k)"
      using D(2) \<open>user k\<close> that table_of_slot [of k m d] by (auto simp: dir_slots_def)
    moreover have "pde_at m' d k = (if k = i then e else pde_at m d k)" by (rule p) (use that in simp)
    ultimately show ?thesis using i(2) e t(2) that(2) td unfolding pte_at_def by (auto simp: m')
  qed
  have ds: "dir_slots m' d = insert i (dir_slots m d)" using p i e by (auto simp: dir_slots_def)
  have ps: "page_slots m' d = page_slots m d" using q by (auto simp: page_slots_def)
  have old: "pde_at m' d k = pde_at m d k" if "k \<in> dir_slots m d" for k
    using that p i(2) by (auto simp: dir_slots_def)
  have new: "pde_at m' d i = e" using p i by simp
  have same: "(\<lambda>(i, j). pg (pte_at m' d i j)) x = (\<lambda>(i, j). pg (pte_at m d i j)) x" if "x \<in> page_slots m d" for x
    using that q by (auto simp: page_slots_def)
  have tt: "tables m' d = insert t (tables m d)" unfolding tables_def ds by (simp add: old new e(2))
  show g: "pages m' d = pages m d" unfolding pages_def ps using same by (intro image_cong) auto
  show "owned m' d = insert t (owned m d)" by (auto simp: owned_def tt g)
  have "inj_on (\<lambda>i. pg (pde_at m' d i)) (dir_slots m' d)"
    unfolding ds using D(6) t(1)
    by (auto simp: inj_on_def old new e(2) owned_def dest: table_of_slot)
  moreover have "inj_on (\<lambda>(i, j). pg (pte_at m' d i j)) (page_slots m' d)"
    unfolding ps using D(7) same by (simp cong: inj_on_cong)
  ultimately show "space_ok m' d"
    using D(1-5) t(1) td e(3) unfolding space_ok_def tt g ds owned_def by (auto simp: old new)
qed

text \<open>A page for an absent entry of a table.\<close>

lemma add_page:
  assumes ok: "space_ok m d" and i: "i \<in> dir_slots m d" "j < 1024" "\<not> present (pte_at m d i j)"
    and f: "f \<notin> owned m d" and e: "present e" "pg e = f"
    and t: "t = pg (pde_at m d i)" and m': "m' = m(t := put32 (m t) (4 * of_nat j) e)"
  shows "\<And>k. pde_at m' d k = pde_at m d k"
    and "\<And>k l. user k \<Longrightarrow> l < 1024 \<Longrightarrow> pte_at m' d k l = (if k = i \<and> l = j then e else pte_at m d k l)"
    and "owned m' d = insert f (owned m d)" and "space_ok m' d" and "pages m' d = insert f (pages m d)"
proof -
  note D = space_okD [OF ok]
  have td: "t \<in> tables m d" "t \<noteq> d" using table_of_slot [OF i(1)] D(2) t by auto
  have ui: "user i" "present (pde_at m d i)" using i(1) by (simp_all add: dir_slots_def)
  show p: "pde_at m' d k = pde_at m d k" for k using td(2) by (simp add: pde_at_def m' D(1))
  show q: "pte_at m' d k l = (if k = i \<and> l = j then e else pte_at m d k l)" if "user k" "l < 1024" for k l
  proof (cases "k = i")
    case True
    then show ?thesis using ui that i(2) unfolding pte_at_def p by (auto simp: m' t [symmetric] entry_put32)
  next
    case False
    have "pg (pde_at m d k) \<noteq> t" if "present (pde_at m d k)"
      using D(6) i(1) False \<open>user k\<close> that t by (auto simp: inj_on_def dir_slots_def)
    with False show ?thesis unfolding pte_at_def p by (auto simp: m')
  qed
  have ds: "dir_slots m' d = dir_slots m d" by (simp add: dir_slots_def p)
  have ps: "page_slots m' d = insert (i, j) (page_slots m d)"
    using q ui i(2) e by (auto simp: page_slots_def)
  have old: "pte_at m' d k l = pte_at m d k l" if "(k, l) \<in> page_slots m d" for k l
    using that q i(3) by (auto simp: page_slots_def)
  have new: "pte_at m' d i j = e" using q ui i(2) by simp
  have same: "(\<lambda>(i, j). pg (pte_at m' d i j)) x = (\<lambda>(i, j). pg (pte_at m d i j)) x" if "x \<in> page_slots m d" for x
    using that old by (cases x) simp
  have tt: "tables m' d = tables m d" by (simp add: tables_def ds p)
  have img: "(\<lambda>(i, j). pg (pte_at m' d i j)) ` page_slots m d = pages m d"
    unfolding pages_def by (rule image_cong [OF refl same])
  show g: "pages m' d = insert f (pages m d)"
    unfolding pages_def [of m'] ps by (simp add: img new e(2))
  show "owned m' d = insert f (owned m d)" by (auto simp: owned_def tt g)
  have "inj_on (\<lambda>(i, j). pg (pte_at m' d i j)) (page_slots m d)" using D(7) same by (simp cong: inj_on_cong)
  then have "inj_on (\<lambda>(i, j). pg (pte_at m' d i j)) (page_slots m' d)"
    unfolding ps inj_on_insert using img f e(2) new by (simp add: owned_def) (use img in blast)
  moreover have "inj_on (\<lambda>i. pg (pde_at m' d i)) (dir_slots m' d)" using D(6) by (simp add: ds p)
  ultimately show "space_ok m' d"
    using D(1-5) f unfolding space_ok_def tt g ds owned_def p by auto
qed

subsection \<open>Destroying a space\<close>

lemma opened_simps [simp]:
  "avail_frames (opened f s) = avail_frames s" "managed_frames (opened f s) = managed_frames s" "pfa_ok (opened f s) = pfa_ok s"
  "(opened f s)\<lparr>bitmap := b\<rparr> = opened f (s\<lparr>bitmap := b\<rparr>)"
  "pmem (opened f s) = pmem s" "bitmap (opened f s) = bitmap s" "page_directory (opened f s) = page_directory s"
  by (simp_all add: opened_def avail_frames_def managed_frames_def free_frames_def pfa_ok_def)

lemma pmem_bitmap_swap [simp]: "s\<lparr>pmem := m, bitmap := b\<rparr> = s\<lparr>bitmap := b, pmem := m\<rparr>"
  by simp

definition table_pages :: "page \<Rightarrow> nat \<Rightarrow> u32 set" where
  "table_pages p n = {pg (entry p j) | j. j < n \<and> present (entry p j)}"

lemma table_pages_simps:
  "table_pages p 0 = {}"
  "table_pages p (Suc n) = (if present (entry p n) then insert (pg (entry p n)) (table_pages p n) else table_pages p n)"
  by (auto simp: table_pages_def less_Suc_eq)

lemma free_table_pages:
  assumes "pfa_ok s" and "window_closed s"
  shows "\<exists>bm. for_range 0 1024 (\<lambda>j s. do { pte \<leftarrow> win_read32 (of_nat j) s;
      if pte AND PTE_PRESENT \<noteq> 0 then pfa_free (pte AND 0xFFFFF000) s else Some s }) (opened t s) =
      Some (opened t (s\<lparr>bitmap := bm\<rparr>)) \<and> pfa_ok (s\<lparr>bitmap := bm\<rparr>) \<and> managed_frames (s\<lparr>bitmap := bm\<rparr>) = managed_frames s \<and>
      avail_frames (s\<lparr>bitmap := bm\<rparr>) = avail_frames s \<union> (table_pages (pmem s (pg t)) 1024 \<inter> managed_frames s)"
proof -
  let ?p = "pmem s (pg t)"
  define P where "P n u \<longleftrightarrow> (\<exists>bm. u = opened t (s\<lparr>bitmap := bm\<rparr>) \<and> pfa_ok (s\<lparr>bitmap := bm\<rparr>) \<and>
      managed_frames (s\<lparr>bitmap := bm\<rparr>) = managed_frames s \<and>
      avail_frames (s\<lparr>bitmap := bm\<rparr>) = avail_frames s \<union> (table_pages ?p n \<inter> managed_frames s))" for n u
  have "\<exists>u. for_range 0 1024 (\<lambda>j s. do { pte \<leftarrow> win_read32 (of_nat j) s;
      if pte AND PTE_PRESENT \<noteq> 0 then pfa_free (pte AND 0xFFFFF000) s else Some s }) (opened t s) = Some u \<and> P 1024 u"
  proof (rule for_range_rule)
    show "P 0 (opened t s)" unfolding P_def using assms(1) by (intro exI [of _ "bitmap s"]) (simp add: table_pages_simps)
  next
    fix n u assume n: "n < 1024" and "P n u"
    then obtain bm where u: "u = opened t (s\<lparr>bitmap := bm\<rparr>)" "pfa_ok (s\<lparr>bitmap := bm\<rparr>)"
        "managed_frames (s\<lparr>bitmap := bm\<rparr>) = managed_frames s"
        "avail_frames (s\<lparr>bitmap := bm\<rparr>) = avail_frames s \<union> (table_pages ?p n \<inter> managed_frames s)"
      unfolding P_def by blast
    have w: "window u = Some (pg t)" using assms(2) by (simp add: u(1) open_window(2))
    have "(of_nat n :: u32) < 1024" using n by (simp add: word_less_nat_alt unat_of_nat)
    then have r: "win_read32 (of_nat n) u = Some (entry ?p n)"
      using w by (simp add: win_ops entry_def) (simp add: u)
    show "\<exists>u'. do { pte \<leftarrow> win_read32 (of_nat n) u;
        if pte AND PTE_PRESENT \<noteq> 0 then pfa_free (pte AND 0xFFFFF000) u else Some u } = Some u' \<and> P (Suc n) u'"
    proof (cases "present (entry ?p n)")
      case False
      with r u show ?thesis unfolding P_def by (auto simp: table_pages_simps present_def)
    next
      case True
      have "pfa_ok u" using u by simp
      from pfa_free_aligned [OF this pg_aligned, of "entry ?p n"] obtain bm' where
        "pfa_free (pg (entry ?p n)) u = Some (u\<lparr>bitmap := bm'\<rparr>)" "pfa_ok (u\<lparr>bitmap := bm'\<rparr>)"
        "avail_frames (u\<lparr>bitmap := bm'\<rparr>) = avail_frames u \<union> ({pg (entry ?p n)} \<inter> managed_frames u)"
        "managed_frames (u\<lparr>bitmap := bm'\<rparr>) = managed_frames u" by blast
      with r u True show ?thesis
        unfolding P_def by (auto simp: table_pages_simps present_def intro!: exI [of _ bm'])
    qed
  qed simp
  then show ?thesis unfolding P_def by blast
qed

text \<open>The frames reached through the first \<open>n\<close> entries of the directory.\<close>

definition reached :: "(u32 \<Rightarrow> page) \<Rightarrow> u32 \<Rightarrow> nat \<Rightarrow> u32 set" where
  "reached m d n = (\<Union>i \<in> {i \<in> dir_slots m d. i < n}. insert (pg (pde_at m d i)) (table_pages (m (pg (pde_at m d i))) 1024))"

lemma reached_0: "reached m d 0 = {}" and reached_Suc:
  "reached m d (Suc n) = (if n \<in> dir_slots m d
    then insert (pg (pde_at m d n)) (table_pages (m (pg (pde_at m d n))) 1024) \<union> reached m d n else reached m d n)"
  by (auto simp: reached_def less_Suc_eq)

lemma owned_reached: "owned m d = insert (pg d) (reached m d 1024)"
proof -
  have "x \<in> pages m d \<longleftrightarrow> (\<exists>i \<in> dir_slots m d. x \<in> table_pages (m (pg (pde_at m d i))) 1024)" for x
  proof
    assume "x \<in> pages m d"
    then obtain i j where "x = pg (pte_at m d i j)" "user i" "j < 1024" "present (pte_at m d i j)"
      by (auto simp: pages_def page_slots_def)
    then show "\<exists>i \<in> dir_slots m d. x \<in> table_pages (m (pg (pde_at m d i))) 1024"
      by (intro bexI [of _ i]) (auto simp: pte_at_def table_pages_def dir_slots_def split: if_splits)
  next
    assume "\<exists>i \<in> dir_slots m d. x \<in> table_pages (m (pg (pde_at m d i))) 1024"
    then obtain i j where "i \<in> dir_slots m d" "j < 1024" "present (entry (m (pg (pde_at m d i))) j)"
      "x = pg (entry (m (pg (pde_at m d i))) j)" by (auto simp: table_pages_def)
    then show "x \<in> pages m d" unfolding pages_def
      by (intro image_eqI [of _ _ "(i, j)"]) (simp_all add: page_slots_def pte_at_def dir_slots_def)
  qed
  moreover have "{i \<in> dir_slots m d. i < 1024} = dir_slots m d" by (auto simp: dir_slots_def)
  ultimately show ?thesis by (auto simp: owned_def tables_def reached_def)
qed

lemma destroy_step:
  assumes "pfa_ok s" and "window_closed s" and "i < 1024"
  shows "\<exists>bm. do { (pde, s) \<leftarrow> frame_read32 d (of_nat i) s;
            if pde AND PTE_PRESENT = 0 then Some s
            else do {
              let pt_phys = pde AND 0xFFFFF000;
              s \<leftarrow> paging_temp_map pt_phys s;
              s \<leftarrow> for_range 0 1024 (\<lambda>pt_index s. do {
                pte \<leftarrow> win_read32 (of_nat pt_index) s;
                if pte AND PTE_PRESENT \<noteq> 0 then pfa_free (pte AND 0xFFFFF000) s else Some s }) s;
              s \<leftarrow> paging_temp_unmap s;
              s \<leftarrow> pfa_free pt_phys s;
              frame_write32 d (of_nat i) 0 s } } =
      Some (if present (pde_at (pmem s) d i)
        then s\<lparr>bitmap := bm, pmem := (pmem s)(pg d := put32 (pmem s (pg d)) (4 * of_nat i) 0)\<rparr> else s) \<and>
      (present (pde_at (pmem s) d i) \<longrightarrow> pfa_ok (s\<lparr>bitmap := bm\<rparr>) \<and> managed_frames (s\<lparr>bitmap := bm\<rparr>) = managed_frames s \<and>
        avail_frames (s\<lparr>bitmap := bm\<rparr>) = avail_frames s \<union>
          (insert (pg (pde_at (pmem s) d i)) (table_pages (pmem s (pg (pde_at (pmem s) d i))) 1024) \<inter> managed_frames s))"
proof -
  have i: "(of_nat i :: u32) < 1024" using assms(3) by (simp add: word_less_nat_alt unat_of_nat)
  have e: "get32 (pmem s (pg d)) (4 * of_nat i) = pde_at (pmem s) d i" by (simp add: pde_at_def entry_def)
  let ?t = "pg (pde_at (pmem s) d i)"
  from free_table_pages [OF assms(1,2), of ?t] obtain bm where b:
    "for_range 0 1024 (\<lambda>j s. do { pte \<leftarrow> win_read32 (of_nat j) s;
      if pte AND PTE_PRESENT \<noteq> 0 then pfa_free (pte AND 0xFFFFF000) s else Some s }) (opened ?t s) =
      Some (opened ?t (s\<lparr>bitmap := bm\<rparr>))" "pfa_ok (s\<lparr>bitmap := bm\<rparr>)" "managed_frames (s\<lparr>bitmap := bm\<rparr>) = managed_frames s"
    "avail_frames (s\<lparr>bitmap := bm\<rparr>) = avail_frames s \<union> (table_pages (pmem s ?t) 1024 \<inter> managed_frames s)"
    by auto
  from pfa_free_aligned [OF b(2) pg_aligned, of "pde_at (pmem s) d i"] obtain bm' where b':
    "pfa_free ?t (s\<lparr>bitmap := bm\<rparr>) = Some (s\<lparr>bitmap := bm'\<rparr>)" "pfa_ok (s\<lparr>bitmap := bm'\<rparr>)"
    "avail_frames (s\<lparr>bitmap := bm'\<rparr>) = avail_frames (s\<lparr>bitmap := bm\<rparr>) \<union> ({?t} \<inter> managed_frames (s\<lparr>bitmap := bm\<rparr>))"
    "managed_frames (s\<lparr>bitmap := bm'\<rparr>) = managed_frames (s\<lparr>bitmap := bm\<rparr>)" by auto
  have "avail_frames (s\<lparr>bitmap := bm'\<rparr>) = avail_frames s \<union> (insert ?t (table_pages (pmem s ?t) 1024) \<inter> managed_frames s)"
    using b b' by auto
  with assms(2) b(1) b'(1,2,4) b(3) show ?thesis
    by (intro exI [of _ bm']) (simp add: frame_access [OF _ i] e open_window set_page_def present_def)
qed

lemma destroy_user_space_frees:
  assumes "pfa_ok s" and "window_closed s" and "pg d = d" and "d \<noteq> 0" and "d \<notin> tables (pmem s) d"
  shows "\<exists>bm q. destroy_user_space d s = Some (s\<lparr>bitmap := bm, pmem := (pmem s)(d := q)\<rparr>) \<and>
    pfa_ok (s\<lparr>bitmap := bm\<rparr>) \<and> managed_frames (s\<lparr>bitmap := bm\<rparr>) = managed_frames s \<and>
    avail_frames (s\<lparr>bitmap := bm\<rparr>) = avail_frames s \<union> (owned (pmem s) d \<inter> managed_frames s)"
proof -
  let ?m = "pmem s"
  define P where "P n u \<longleftrightarrow> (\<exists>bm q. u = s\<lparr>bitmap := bm, pmem := ?m(d := q)\<rparr> \<and> pfa_ok (s\<lparr>bitmap := bm\<rparr>) \<and>
    managed_frames (s\<lparr>bitmap := bm\<rparr>) = managed_frames s \<and> (\<forall>i. n \<le> i \<and> i < 1024 \<longrightarrow> entry q i = entry (?m d) i) \<and>
    avail_frames (s\<lparr>bitmap := bm\<rparr>) = avail_frames s \<union> (reached ?m d n \<inter> managed_frames s))" for n u
  let ?body = "\<lambda>i s. if of_nat i = KERNEL_PD_INDEX then Some s else do { (pde, s) \<leftarrow> frame_read32 d (of_nat i) s;
            if pde AND PTE_PRESENT = 0 then Some s
            else do {
              let pt_phys = pde AND 0xFFFFF000;
              s \<leftarrow> paging_temp_map pt_phys s;
              s \<leftarrow> for_range 0 1024 (\<lambda>pt_index s. do {
                pte \<leftarrow> win_read32 (of_nat pt_index) s;
                if pte AND PTE_PRESENT \<noteq> 0 then pfa_free (pte AND 0xFFFFF000) s else Some s }) s;
              s \<leftarrow> paging_temp_unmap s;
              s \<leftarrow> pfa_free pt_phys s;
              frame_write32 d (of_nat i) 0 s } }"
  have "\<exists>u. for_range 0 1024 ?body s = Some u \<and> P 1024 u"
  proof (rule for_range_rule)
    show "P 0 s" unfolding P_def using assms(1)
      by (intro exI [of _ "bitmap s"] exI [of _ "?m d"]) (simp add: reached_0)
  next
    fix n u assume n: "n < 1024" and "P n u"
    then obtain bm q where u: "u = s\<lparr>bitmap := bm, pmem := ?m(d := q)\<rparr>" "pfa_ok (s\<lparr>bitmap := bm\<rparr>)"
      "managed_frames (s\<lparr>bitmap := bm\<rparr>) = managed_frames s" "\<forall>i. n \<le> i \<and> i < 1024 \<longrightarrow> entry q i = entry (?m d) i"
      "avail_frames (s\<lparr>bitmap := bm\<rparr>) = avail_frames s \<union> (reached ?m d n \<inter> managed_frames s)"
      unfolding P_def by blast
    have k: "of_nat n = (768 :: u32) \<longleftrightarrow> n = 768" using n by (simp add: word_unat_eq_iff unat_of_nat)
    have pd: "pde_at (pmem u) d n = pde_at ?m d n" using n u(1,4) assms(3) by (simp add: pde_at_def)
    have "pfa_ok u" "window_closed u" using u(1,2) assms(2) by simp_all
    from destroy_step [OF this n, of d, unfolded pd] obtain bm' where step:
      "n \<noteq> 768 \<Longrightarrow> ?body n u = Some (if present (pde_at ?m d n)
        then u\<lparr>bitmap := bm', pmem := (pmem u)(pg d := put32 (pmem u (pg d)) (4 * of_nat n) 0)\<rparr> else u)"
      "present (pde_at ?m d n) \<Longrightarrow> pfa_ok (u\<lparr>bitmap := bm'\<rparr>) \<and> managed_frames (u\<lparr>bitmap := bm'\<rparr>) = managed_frames u \<and>
        avail_frames (u\<lparr>bitmap := bm'\<rparr>) = avail_frames u \<union>
          (insert (pg (pde_at ?m d n)) (table_pages (pmem u (pg (pde_at ?m d n))) 1024) \<inter> managed_frames u)"
      unfolding k by auto
    show "\<exists>u'. ?body n u = Some u' \<and> P (Suc n) u'"
    proof (cases "n \<in> dir_slots ?m d")
      case True
      then have pr: "present (pde_at ?m d n)" "n \<noteq> 768" by (simp_all add: dir_slots_def)
      have "pg (pde_at ?m d n) \<noteq> d" using table_of_slot [OF True] assms(5) by auto
      then have same: "pmem u (pg (pde_at ?m d n)) = ?m (pg (pde_at ?m d n))" by (simp add: u(1))
      let ?q = "put32 q (4 * of_nat n) 0" and ?u = "s\<lparr>bitmap := bm', pmem := ?m(d := put32 q (4 * of_nat n) 0)\<rparr>"
      have "P (Suc n) ?u" unfolding P_def
      proof (intro exI conjI allI impI)
        show "pfa_ok (s\<lparr>bitmap := bm'\<rparr>)" "managed_frames (s\<lparr>bitmap := bm'\<rparr>) = managed_frames s"
          using step(2) [OF pr(1)] u(1,3) by simp_all
        show "avail_frames (s\<lparr>bitmap := bm'\<rparr>) = avail_frames s \<union> (reached ?m d (Suc n) \<inter> managed_frames s)"
          using step(2) [OF pr(1)] u(3,5) True unfolding same by (auto simp: u(1) reached_Suc)
        fix i assume "Suc n \<le> i \<and> i < 1024"
        then show "entry ?q i = entry (?m d) i" using u(4) n by (simp add: entry_put32)
      qed simp
      moreover have "?body n u = Some ?u"
        unfolding step(1) [OF pr(2)] using pr(1) by (simp add: u(1) assms(3))
      ultimately show ?thesis by blast
    next
      case False
      then have "?body n u = Some u" using step(1) n k by (cases "n = 768") (simp_all add: dir_slots_def)
      moreover have "P (Suc n) u" unfolding P_def
        by (intro exI [of _ bm] exI [of _ q]) (use u False in \<open>simp add: reached_Suc\<close>)
      ultimately show ?thesis by blast
    qed
  qed simp
  then obtain bm q where u: "for_range 0 1024 ?body s = Some (s\<lparr>bitmap := bm, pmem := ?m(d := q)\<rparr>)" "pfa_ok (s\<lparr>bitmap := bm\<rparr>)"
      "managed_frames (s\<lparr>bitmap := bm\<rparr>) = managed_frames s"
      "avail_frames (s\<lparr>bitmap := bm\<rparr>) = avail_frames s \<union> (reached ?m d 1024 \<inter> managed_frames s)"
    unfolding P_def by blast
  have "pfa_ok (s\<lparr>bitmap := bm, pmem := ?m(d := q)\<rparr>)" "unat d mod 4096 = 0"
    using u(2) pg_aligned [of d] assms(3) by simp_all
  from pfa_free_aligned [OF this] obtain bm' where b:
    "pfa_free d (s\<lparr>bitmap := bm, pmem := ?m(d := q)\<rparr>) = Some (s\<lparr>bitmap := bm', pmem := ?m(d := q)\<rparr>)" "pfa_ok (s\<lparr>bitmap := bm'\<rparr>)"
    "avail_frames (s\<lparr>bitmap := bm'\<rparr>) = avail_frames (s\<lparr>bitmap := bm\<rparr>) \<union> ({d} \<inter> managed_frames (s\<lparr>bitmap := bm\<rparr>))"
    "managed_frames (s\<lparr>bitmap := bm'\<rparr>) = managed_frames (s\<lparr>bitmap := bm\<rparr>)" by auto
  have "destroy_user_space d s = Some (s\<lparr>bitmap := bm', pmem := ?m(d := q)\<rparr>)"
    using u(1) b(1) assms(4) by (simp add: destroy_user_space_def)
  moreover have "avail_frames (s\<lparr>bitmap := bm'\<rparr>) = avail_frames s \<union> (owned (pmem s) d \<inter> managed_frames s)"
    using u b assms(3) by (auto simp: owned_reached)
  ultimately show ?thesis using b u(3) by auto
qed

subsection \<open>Building a space from free frames\<close>

definition taken :: "u32 set \<Rightarrow> 'a paging_scheme \<Rightarrow> 'a paging_scheme \<Rightarrow> bool" where
  "taken F s0 s \<longleftrightarrow> pfa_ok s0 \<and> pfa_ok s \<and> window_closed s \<and> (\<exists>b m. s = s0\<lparr>bitmap := b, pmem := m\<rparr>) \<and>
     (\<forall>f. f \<notin> avail_frames s0 \<longrightarrow> pmem s f = pmem s0 f) \<and> managed_frames s = managed_frames s0 \<and>
     F \<subseteq> avail_frames s0 \<and> avail_frames s = avail_frames s0 - F"

definition building :: "u32 \<Rightarrow> u32 set \<Rightarrow> 'a paging_scheme \<Rightarrow> 'a paging_scheme \<Rightarrow> bool" where
  "building d X s0 s \<longleftrightarrow> taken (owned (pmem s) d \<union> X) s0 s \<and> space_ok (pmem s) d \<and> owned (pmem s) d \<inter> X = {}"

lemma taken_refl: "pfa_ok s \<Longrightarrow> window_closed s \<Longrightarrow> taken {} s s"
proof -
  have "s = s\<lparr>bitmap := bitmap s, pmem := pmem s\<rparr>" by simp
  then show "pfa_ok s \<Longrightarrow> window_closed s \<Longrightarrow> taken {} s s" unfolding taken_def by blast
qed

lemma avail_aligned: "pfa_ok s \<Longrightarrow> f \<in> avail_frames s \<Longrightarrow> f \<noteq> 0 \<and> pg f = f"
  using frames.avail_managed [of s] frames.managed_frame [of s f] page_aligned [of f] by auto

lemma taken_simps:
  assumes "taken F s0 s"
  shows "pfa_ok s" "window_closed s" "pfa_ok s0" "page_directory s = page_directory s0" "f \<in> F \<Longrightarrow> pg f = f" "f \<in> F \<Longrightarrow> f \<noteq> 0"
    "avail_frames s = avail_frames s0 - F" "F \<subseteq> avail_frames s0" "f \<notin> avail_frames s0 \<Longrightarrow> pmem s f = pmem s0 f"
  using assms avail_aligned [of s0 f] unfolding taken_def by auto

lemma taken_alloc:
  assumes "taken F s0 s"
  obtains (none) "pfa_alloc s = Some (0, s)" "avail_frames s0 = F"
  | (frame) f bm where "pfa_alloc s = Some (f, s\<lparr>bitmap := bm\<rparr>)" "f \<noteq> 0" "pg f = f" "f \<notin> F" "f \<in> avail_frames s0"
      "taken (insert f F) s0 (s\<lparr>bitmap := bm\<rparr>)"
proof (rule pfa_alloc_cases [OF taken_simps(1) [OF assms]])
  assume "pfa_alloc s = Some (0, s)" "avail_frames s = {}"
  with assms none show thesis by (auto simp: taken_def)
next
  fix f bm assume a: "pfa_alloc s = Some (f, s\<lparr>bitmap := bm\<rparr>)" "f \<in> avail_frames s" "f \<noteq> 0" "unat f mod 4096 = 0"
    "pfa_ok (s\<lparr>bitmap := bm\<rparr>)" "avail_frames (s\<lparr>bitmap := bm\<rparr>) = avail_frames s - {f}"
    "managed_frames (s\<lparr>bitmap := bm\<rparr>) = managed_frames s"
  from assms obtain b m where "s = s0\<lparr>bitmap := b, pmem := m\<rparr>" by (auto simp: taken_def)
  then have "s\<lparr>bitmap := bm\<rparr> = s0\<lparr>bitmap := bm, pmem := m\<rparr>" by simp
  then have "\<exists>b m. s\<lparr>bitmap := bm\<rparr> = s0\<lparr>bitmap := b, pmem := m\<rparr>" by blast
  with a assms have "taken (insert f F) s0 (s\<lparr>bitmap := bm\<rparr>)" unfolding taken_def by auto
  moreover have "f \<notin> F" "f \<in> avail_frames s0" using a(2) assms by (auto simp: taken_def)
  ultimately show thesis using frame [OF a(1,3) page_aligned [OF a(4)]] by blast
qed

lemma taken_set_page:
  assumes "taken F s0 s" and "f \<in> avail_frames s0"
  shows "taken F s0 (set_page f p s)"
proof -
  from assms(1) obtain b m where "s = s0\<lparr>bitmap := b, pmem := m\<rparr>" by (auto simp: taken_def)
  then have "set_page f p s = s0\<lparr>bitmap := b, pmem := m(f := p)\<rparr>" by (simp add: set_page_def)
  then have "\<exists>b m. set_page f p s = s0\<lparr>bitmap := b, pmem := m\<rparr>" by blast
  with assms show ?thesis unfolding taken_def by auto
qed

lemma taken_free:
  assumes "taken F s0 s" and "f \<in> F"
  obtains bm where "pfa_free f s = Some (s\<lparr>bitmap := bm\<rparr>)" "taken (F - {f}) s0 (s\<lparr>bitmap := bm\<rparr>)"
proof -
  note T = taken_simps [OF assms(1)]
  have "f \<in> managed_frames s0" using assms(2) T(3,8) frames.avail_managed by blast
  then have f: "f \<in> managed_frames s" using assms(1) by (simp add: taken_def)
  have "unat f mod 4096 = 0" using frames.managed_frame [OF T(1) f] by simp
  from pfa_free_aligned [OF T(1) this] obtain bm where b: "pfa_free f s = Some (s\<lparr>bitmap := bm\<rparr>)" "pfa_ok (s\<lparr>bitmap := bm\<rparr>)"
    "avail_frames (s\<lparr>bitmap := bm\<rparr>) = avail_frames s \<union> ({f} \<inter> managed_frames s)"
    "managed_frames (s\<lparr>bitmap := bm\<rparr>) = managed_frames s" by blast
  from assms obtain b' m where "s = s0\<lparr>bitmap := b', pmem := m\<rparr>" by (auto simp: taken_def)
  then have "s\<lparr>bitmap := bm\<rparr> = s0\<lparr>bitmap := bm, pmem := m\<rparr>" by simp
  then have "\<exists>b m. s\<lparr>bitmap := bm\<rparr> = s0\<lparr>bitmap := b, pmem := m\<rparr>" by blast
  with b f assms have "taken (F - {f}) s0 (s\<lparr>bitmap := bm\<rparr>)" unfolding taken_def by auto
  with b(1) that show thesis by blast
qed

lemma taken_zeroed:
  assumes "taken F s0 s"
  obtains (none) "alloc_zeroed_frame s = Some (0, s)" "avail_frames s0 = F"
  | (frame) f s' where "alloc_zeroed_frame s = Some (f, s')" "f \<noteq> 0" "pg f = f" "f \<notin> F" "f \<in> avail_frames s0"
      "taken (insert f F) s0 s'" "pmem s' = (pmem s)(f := zero_page (pmem s f))"
using assms
proof (cases rule: taken_alloc)
  case none
  then show thesis by (intro that(1)) (simp_all add: alloc_zeroed_frame_def)
next
  case (frame f bm)
  let ?s = "set_page f (zero_page (pmem s f)) (s\<lparr>bitmap := bm\<rparr>)"
  have "alloc_zeroed_frame s = Some (f, ?s)"
    using frame clear_frame [OF taken_simps(2) [OF frame(6)], of f "\<lambda>s. Some (f, s)"]
    by (simp add: alloc_zeroed_frame_def)
  moreover have "taken (insert f F) s0 ?s" using frame by (intro taken_set_page)
  ultimately show thesis using frame that(2) [of f ?s] by simp
qed

lemma taken_destroy:
  assumes "building d X s0 s"
  shows "\<exists>s'. destroy_user_space d s = Some s' \<and> taken X s0 s'"
proof -
  have T: "taken (owned (pmem s) d \<union> X) s0 s" and ok: "space_ok (pmem s) d" and X: "owned (pmem s) d \<inter> X = {}"
    using assms by (auto simp: building_def)
  note D = space_okD [OF ok] and T' = taken_simps [OF T]
  have d: "d \<in> owned (pmem s) d" using D(1) by (simp add: owned_def)
  have "d \<noteq> 0" by (rule T'(6)) (use d in simp)
  from destroy_user_space_frees [OF T'(1,2) D(1) this D(2)] obtain bm q where b:
    "destroy_user_space d s = Some (s\<lparr>bitmap := bm, pmem := (pmem s)(d := q)\<rparr>)" "pfa_ok (s\<lparr>bitmap := bm\<rparr>)"
    "managed_frames (s\<lparr>bitmap := bm\<rparr>) = managed_frames s"
    "avail_frames (s\<lparr>bitmap := bm\<rparr>) = avail_frames s \<union> (owned (pmem s) d \<inter> managed_frames s)" by blast
  let ?s = "s\<lparr>bitmap := bm, pmem := (pmem s)(d := q)\<rparr>"
  from T obtain b' m where "s = s0\<lparr>bitmap := b', pmem := m\<rparr>" by (auto simp: taken_def)
  then have "?s = s0\<lparr>bitmap := bm, pmem := m(d := q)\<rparr>" by simp
  then have e: "\<exists>b m. ?s = s0\<lparr>bitmap := b, pmem := m\<rparr>" by blast
  have "owned (pmem s) d \<subseteq> managed_frames s"
    using T frames.avail_managed [OF T'(3)] by (auto simp: taken_def)
  with b(4) T'(7,8) X have "avail_frames ?s = avail_frames s0 - X" by auto
  with b T e d have "taken X s0 ?s" unfolding taken_def by auto
  with b(1) show ?thesis by blast
qed

lemma building_dir:
  "building d X s0 s \<Longrightarrow> d \<noteq> 0 \<and> pg d = d \<and> d \<in> avail_frames s0 \<and> d \<notin> X \<and> d \<in> owned (pmem s) d"
  using taken_simps(6,8) unfolding building_def space_ok_def owned_def by (metis (no_types, lifting) Int_iff UnCI
      disjoint_iff insertI1 subsetD)

lemma building_directory:
  assumes T: "taken {d} s t" and z: "\<And>i. i < 1024 \<Longrightarrow> entry (pmem t d) i = 0" and t': "t' = set_page d (put32 (pmem t d) (4 * 768) w) t"
  shows "building d {} s t'" "owned (pmem t') d = {d}" "\<And>i. i < 1024 \<Longrightarrow> pde_at (pmem t') d i = (if i = 768 then w else 0)"
proof -
  have d: "pg d = d" "d \<in> avail_frames s" using taken_simps(5,8) [OF T] by auto
  show p: "pde_at (pmem t') d i = (if i = 768 then w else 0)" if "i < 1024" for i
    using entry_put32 [of 768 i "pmem t d" w] that d(1) z [OF that] by (auto simp: pde_at_def t')
  then have "dir_slots (pmem t') d = {}" by (auto simp: dir_slots_def)
  then have o: "tables (pmem t') d = {}" "pages (pmem t') d = {}" "dir_slots (pmem t') d = {}" "page_slots (pmem t') d = {}"
    by (auto simp: tables_def pages_def page_slots_def pte_at_def dir_slots_def)
  then show ow: "owned (pmem t') d = {d}" using d(1) by (simp add: owned_def)
  have "space_ok (pmem t') d" unfolding space_ok_def o using d(1) by simp
  moreover have "taken {d} s t'" unfolding t' by (rule taken_set_page [OF T d(2)])
  ultimately show "building d {} s t'" using ow by (simp add: building_def)
qed

lemma create_user_pdt_cases:
  assumes "pfa_ok s" and "window_closed s" and "length (page_directory s) = 1024"
  obtains (none) "create_user_pdt s = Some (0, s)" "avail_frames s = {}"
  | (space) d s' where "create_user_pdt s = Some (d, s')" "building d {} s s'" "owned (pmem s') d = {d}"
      "\<And>i. i < 1024 \<Longrightarrow> pde_at (pmem s') d i = (if i = 768 then page_directory s ! 768 else 0)"
using taken_refl [OF assms(1,2)]
proof (cases rule: taken_zeroed)
  case none
  then show thesis by (intro that(1)) (simp_all add: create_user_pdt_def)
next
  case (frame d t)
  note T = taken_simps [OF frame(6)]
  let ?s = "set_page d (put32 (pmem t d) (4 * 768) (page_directory s ! 768)) t"
  have "create_user_pdt s = Some (d, ?s)"
    using frame T(2,4) assms(3) by (simp add: create_user_pdt_def open_window win_ops set_page_def)
  moreover have "entry (pmem t d) i = 0" if "i < 1024" for i using that frame(7) by (simp add: entry_zero_page)
  note building_directory [OF frame(6) this refl]
  ultimately show thesis by (intro that(2) [of d ?s]) simp_all
qed

lemma flags_or:
  assumes "pg f = f" and "pg fl = 0" and "present fl"
  shows "present (f OR fl)" "pg (f OR fl) = f" "fl AND 0x80 = 0 \<Longrightarrow> (f OR fl) AND 0x80 = 0"
proof -
  have a: "f AND 0xFFF = 0"
    using arg_cong [OF assms(1), of "\<lambda>w. w AND 0xFFF"] by (simp add: and.assoc)
  have "f AND 0x80 = 0" "f AND 1 = 0"
    using arg_cong [OF a, of "\<lambda>w. w AND 0x80"] arg_cong [OF a, of "\<lambda>w. w AND 1"] by (simp_all add: and.assoc)
  with assms show "present (f OR fl)" "pg (f OR fl) = f" "fl AND 0x80 = 0 \<Longrightarrow> (f OR fl) AND 0x80 = 0"
    by (simp_all add: present_def bit.conj_disj_distrib2)
qed

text \<open>The three steps that extend a space: an empty table, the entry of a loose frame, the content of one.\<close>

lemma building_alloc:
  assumes "building d X s0 s"
  obtains (none) "pfa_alloc s = Some (0, s)" "avail_frames s0 = owned (pmem s) d \<union> X"
  | (frame) f s' where "pfa_alloc s = Some (f, s')" "f \<noteq> 0" "pg f = f" "f \<notin> X" "f \<notin> owned (pmem s) d"
      "f \<in> avail_frames s0" "building d (insert f X) s0 s'" "pmem s' = pmem s"
proof -
  have T: "taken (owned (pmem s) d \<union> X) s0 s" and B: "space_ok (pmem s) d" "owned (pmem s) d \<inter> X = {}"
    using assms by (auto simp: building_def)
  from T show thesis
  proof (cases rule: taken_alloc)
    case none
    then show thesis by (rule that(1))
  next
    case (frame f bm)
    with B show thesis by (intro that(2) [of f "s\<lparr>bitmap := bm\<rparr>"]) (auto simp: building_def)
  qed
qed

lemma building_free:
  assumes "building d X s0 s" and "f \<in> X"
  obtains s' where "pfa_free f s = Some s'" "building d (X - {f}) s0 s'"
proof -
  have T: "taken (owned (pmem s) d \<union> X) s0 s" and B: "space_ok (pmem s) d" "owned (pmem s) d \<inter> X = {}"
    using assms by (auto simp: building_def)
  have "owned (pmem s) d \<union> X - {f} = owned (pmem s) d \<union> (X - {f})" using B(2) assms(2) by auto
  moreover obtain bm where "pfa_free f s = Some (s\<lparr>bitmap := bm\<rparr>)" "taken (owned (pmem s) d \<union> X - {f}) s0 (s\<lparr>bitmap := bm\<rparr>)"
    by (rule taken_free [OF T, of f]) (use assms(2) in simp_all)
  ultimately show thesis using B by (intro that [of "s\<lparr>bitmap := bm\<rparr>"]) (auto simp: building_def)
qed

lemma building_fill:
  assumes "building d X s0 s" and "f \<in> X \<or> f \<in> pages (pmem s) d"
  shows "building d X s0 (set_page f p s)" "owned (pmem (set_page f p s)) d = owned (pmem s) d"
    "pde_at (pmem (set_page f p s)) d i = pde_at (pmem s) d i"
    "user i \<Longrightarrow> pte_at (pmem (set_page f p s)) d i j = pte_at (pmem s) d i j"
proof -
  have T: "taken (owned (pmem s) d \<union> X) s0 s" and ok: "space_ok (pmem s) d" and X: "owned (pmem s) d \<inter> X = {}"
    using assms(1) by (auto simp: building_def)
  note D = space_okD [OF ok]
  have "f \<noteq> d" "f \<notin> tables (pmem s) d" using assms(2) X D(1,3,4) by (auto simp: owned_def)
  then have m: "pmem (set_page f p s) (pg d) = pmem s (pg d)" "\<forall>g \<in> tables (pmem s) d. pmem (set_page f p s) g = pmem s g"
    using D(1) by auto
  note c = space_cong [of "pmem (set_page f p s)" d "pmem s", OF m]
  show "pde_at (pmem (set_page f p s)) d i = pde_at (pmem s) d i" by (rule c(1))
  show "user i \<Longrightarrow> pte_at (pmem (set_page f p s)) d i j = pte_at (pmem s) d i j" by (rule c(2))
  show o: "owned (pmem (set_page f p s)) d = owned (pmem s) d" by (rule c(3))
  have "f \<in> avail_frames s0" using assms(2) taken_simps(8) [OF T] by (auto simp: owned_def)
  then show "building d X s0 (set_page f p s)"
    unfolding building_def o c(4) using taken_set_page [OF T] ok X by blast
qed

lemma building_table:
  assumes B: "building d X s0 s" and i: "user i" "\<not> present (pde_at (pmem s) d i)" and fl: "present fl" "pg fl = 0" "fl AND 0x80 = 0"
  obtains (none) "alloc_zeroed_frame s = Some (0, s)" "avail_frames s0 = owned (pmem s) d \<union> X"
  | (table) t u s' where "alloc_zeroed_frame s = Some (t, u)" "t \<noteq> 0" "pg t = t" "t \<in> avail_frames s0" "t \<notin> owned (pmem s) d" "t \<notin> X"
      "frame_write32 d (of_nat i) (t OR fl) u = Some s'" "building d X s0 s'"
      "\<And>k. k < 1024 \<Longrightarrow> pde_at (pmem s') d k = (if k = i then t OR fl else pde_at (pmem s) d k)"
      "\<And>k j. user k \<Longrightarrow> j < 1024 \<Longrightarrow> pte_at (pmem s') d k j = pte_at (pmem s) d k j"
      "owned (pmem s') d = insert t (owned (pmem s) d)" "pages (pmem s') d = pages (pmem s) d"
      "\<And>g. g \<noteq> d \<Longrightarrow> g \<noteq> t \<Longrightarrow> pmem s' g = pmem s g"
proof -
  have T: "taken (owned (pmem s) d \<union> X) s0 s" and ok: "space_ok (pmem s) d" and X: "owned (pmem s) d \<inter> X = {}"
    using B by (auto simp: building_def)
  note D = space_okD [OF ok]
  from T show thesis
  proof (cases rule: taken_zeroed)
    case none
    then show thesis by (rule that(1))
  next
    case (frame t u)
    have t: "t \<notin> owned (pmem s) d" "t \<notin> X" using frame(4) by auto
    have td: "t \<noteq> d" using t D(1) by (auto simp: owned_def)
    have mu: "pmem u (pg d) = pmem s (pg d)" "\<forall>g \<in> tables (pmem s) d. pmem u g = pmem s g"
      using t td frame(7) D(1) by (auto simp: owned_def)
    note c = space_cong [of "pmem u" d "pmem s", OF mu]
    have pc: "pages (pmem u) d = pages (pmem s) d" by (rule space_same) (use c in simp_all)
    let ?e = "t OR fl"
    let ?s = "set_page d (put32 (pmem u d) (4 * of_nat i) ?e) u"
    have lt: "(of_nat i :: u32) < 1024" using i by (simp add: word_less_nat_alt unat_of_nat)
    have w: "frame_write32 d (of_nat i) ?e u = Some ?s"
      using frame_access(2) [OF taken_simps(2) [OF frame(6)] lt, of d] D(1) by simp
    have e: "present ?e" "pg ?e = t" "?e AND 0x80 = 0"
      using flags_or [OF frame(3) fl(2,1)] fl(3) by simp_all
    have z: "\<forall>j < 1024. entry (pmem u t) j = 0" by (simp add: frame(7) entry_zero_page)
    have u: "space_ok (pmem u) d" "\<not> present (pde_at (pmem u) d i)" "t \<notin> owned (pmem u) d"
      using ok i t(1) c by simp_all
    have m: "pmem ?s = (pmem u)(d := put32 (pmem u d) (4 * of_nat i) ?e)" by simp
    note a = add_table [OF u(1) i(1) u(2,3) z e m]
    have av: "d \<in> avail_frames s0" using building_dir [OF B] by simp
    have "taken (insert t (owned (pmem s) d \<union> X)) s0 ?s" by (rule taken_set_page [OF frame(6) av])
    then have B': "building d X s0 ?s"
      unfolding building_def a(3) c(3) using a(4) X t(2) by (simp del: set_page_simps)
    show thesis
    proof (rule that(2) [OF frame(1-3,5) t w B'])
      show "pde_at (pmem ?s) d k = (if k = i then ?e else pde_at (pmem s) d k)" if "k < 1024" for k
        unfolding a(1) [OF that] c(1) ..
      show "pte_at (pmem ?s) d k j = pte_at (pmem s) d k j" if "user k" "j < 1024" for k j
        unfolding a(2) [OF that] by (rule c(2) [OF that(1)])
      show "owned (pmem ?s) d = insert t (owned (pmem s) d)" unfolding a(3) c(3) ..
      show "pages (pmem ?s) d = pages (pmem s) d" unfolding a(5) pc ..
      show "pmem ?s g = pmem s g" if "g \<noteq> d" "g \<noteq> t" for g using that by (simp add: frame(7))
    qed
  qed
qed

lemma building_page:
  assumes B: "building d X s0 s" and i: "i \<in> dir_slots (pmem s) d" "j < 1024" "\<not> present (pte_at (pmem s) d i j)"
    and f: "f \<in> X" and fl: "present fl" "pg fl = 0"
  obtains s' where "frame_write32 (pg (pde_at (pmem s) d i)) (of_nat j) (f OR fl) s = Some s'" "building d (X - {f}) s0 s'"
      "\<And>k. pde_at (pmem s') d k = pde_at (pmem s) d k"
      "\<And>k l. user k \<Longrightarrow> l < 1024 \<Longrightarrow> pte_at (pmem s') d k l = (if k = i \<and> l = j then f OR fl else pte_at (pmem s) d k l)"
      "owned (pmem s') d = insert f (owned (pmem s) d)" "pages (pmem s') d = insert f (pages (pmem s) d)"
      "\<And>g. g \<noteq> pg (pde_at (pmem s) d i) \<Longrightarrow> pmem s' g = pmem s g"
proof -
  have T: "taken (owned (pmem s) d \<union> X) s0 s" and ok: "space_ok (pmem s) d" and X: "owned (pmem s) d \<inter> X = {}"
    using B by (auto simp: building_def)
  let ?t = "pg (pde_at (pmem s) d i)" and ?e = "f OR fl"
  let ?s = "set_page ?t (put32 (pmem s ?t) (4 * of_nat j) ?e) s"
  have lt: "(of_nat j :: u32) < 1024" using i(2) by (simp add: word_less_nat_alt unat_of_nat)
  have w: "frame_write32 ?t (of_nat j) ?e s = Some ?s"
    using frame_access(2) [OF taken_simps(2) [OF T] lt, of ?t] by simp
  have fn: "f \<notin> owned (pmem s) d" using f X by auto
  have "pg f = f" using taken_simps(5) [OF T, of f] f by simp
  note e = flags_or [OF this fl(2,1)]
  have m: "pmem ?s = (pmem s)(?t := put32 (pmem s ?t) (4 * of_nat j) ?e)" by simp
  note a = add_page [OF ok i fn e(1,2) refl m]
  have "?t \<in> avail_frames s0"
    using table_of_slot [OF i(1)] taken_simps(8) [OF T] by (auto simp: owned_def)
  with T have "taken (owned (pmem s) d \<union> X) s0 ?s" by (rule taken_set_page)
  moreover have "insert f (owned (pmem s) d) \<union> (X - {f}) = owned (pmem s) d \<union> X" using f by auto
  ultimately have B': "building d (X - {f}) s0 ?s"
    unfolding building_def a(3) using a(4) X by (simp del: set_page_simps Un_insert_left) blast
  show thesis by (rule that [OF w B' a(1,2,3,5)]) simp_all
qed

lemma dir_slotsI: "user i \<Longrightarrow> present (pde_at m d i) \<Longrightarrow> i \<in> dir_slots m d"
  by (simp add: dir_slots_def)

lemma pte_absent: "\<not> present (pde_at m d i) \<Longrightarrow> \<not> present (pte_at m d i j)"
  by (simp add: pte_at_def)

lemma of_nat_pt_index: "(of_nat (unat (drop_bit 12 v AND 0x3FF :: u32)) :: u32) = drop_bit 12 v AND 0x3FF"
  "unat (drop_bit 12 v AND 0x3FF :: u32) < 1024"
  using pt_index_less [of v] by (simp_all add: word_less_nat_alt)

lemma map_user_page_cases:
  assumes B: "building d X s0 s" and f: "f \<in> X"
    and i: "i = unat (drop_bit 22 v)" "i \<noteq> 768" and j: "j = unat (drop_bit 12 v AND 0x3FF)"
    and ab: "\<not> present (pte_at (pmem s) d i j)"
  obtains (none) "map_user_page d v f s = Some (-1, s)" "avail_frames s0 = owned (pmem s) d \<union> X"
  | (mapped) s' where "map_user_page d v f s = Some (0, s')" "building d (X - {f}) s0 s'"
      "pde_at (pmem s') d 768 = pde_at (pmem s) d 768"
      "\<And>k l. user k \<Longrightarrow> l < 1024 \<Longrightarrow> pte_at (pmem s') d k l = (if k = i \<and> l = j then f OR 7 else pte_at (pmem s) d k l)"
      "pages (pmem s') d = insert f (pages (pmem s) d)"
      "\<And>g. g \<in> pages (pmem s) d \<union> X \<Longrightarrow> pmem s' g = pmem s g" "dir_slots (pmem s') d \<subseteq> insert i (dir_slots (pmem s) d)"
proof -
  have T: "taken (owned (pmem s) d \<union> X) s0 s" and ok: "space_ok (pmem s) d" and X: "owned (pmem s) d \<inter> X = {}"
    using B by (auto simp: building_def)
  note D = space_okD [OF ok]
  have u: "user i" using i pd_index_less [of v] by simp
  have iw: "drop_bit 22 v = (of_nat i :: u32)" "(of_nat i :: u32) < 1024"
    using u by (simp_all add: i(1) word_less_nat_alt)
  have jw: "drop_bit 12 v AND 0x3FF = (of_nat j :: u32)" "j < 1024" using of_nat_pt_index [of v] by (simp_all add: j)
  have rd: "frame_read32 d (of_nat i) s = Some (pde_at (pmem s) d i, s)"
    using frame_access(1) [OF taken_simps(2) [OF T] iw(2), of d] by (simp add: pde_at_def entry_def)
  have ff: "pg f = f" using taken_simps(5) [OF T, of f] f by simp
  have fl: "present 7" "pg 7 = 0" "(7 :: u32) AND 0x80 = 0" by (simp_all add: present_def)
  have or: "x OR PTE_PRESENT OR PTE_WRITABLE OR PTE_USER = x OR (7 :: u32)" for x by (simp add: or.assoc)
  show thesis
  proof (cases "present (pde_at (pmem s) d i)")
    case True
    note ds = dir_slotsI [OF u True]
    show thesis
    proof (rule building_page [OF B ds jw(2) ab f fl(1,2)])
      fix s' assume s': "frame_write32 (pg (pde_at (pmem s) d i)) (of_nat j) (f OR 7) s = Some s'" "building d (X - {f}) s0 s'"
        "\<And>k. pde_at (pmem s') d k = pde_at (pmem s) d k"
        "\<And>k l. user k \<Longrightarrow> l < 1024 \<Longrightarrow> pte_at (pmem s') d k l = (if k = i \<and> l = j then f OR 7 else pte_at (pmem s) d k l)"
        "owned (pmem s') d = insert f (owned (pmem s) d)" "pages (pmem s') d = insert f (pages (pmem s) d)"
        "\<And>g. g \<noteq> pg (pde_at (pmem s) d i) \<Longrightarrow> pmem s' g = pmem s g"
      have "map_user_page d v f s = Some (0, s')"
        using rd s'(1) True ff unfolding map_user_page_def Let_def iw jw or by (simp add: present_def)
      moreover have "pmem s' g = pmem s g" if "g \<in> pages (pmem s) d \<union> X" for g
        using that table_of_slot [OF ds] D(4) X by (intro s'(7)) (auto simp: owned_def)
      ultimately show thesis using s' by (intro mapped [of s']) (auto simp: dir_slots_def)
    qed
  next
    case False
    from B u False fl show thesis
    proof (cases rule: building_table)
      case none
      have "map_user_page d v f s = Some (-1, s)"
        using rd none(1) False unfolding map_user_page_def Let_def iw by (simp add: present_def)
      then show thesis using none(2) by (rule that(1))
    next
      case (table t w s1)
      have pi: "pde_at (pmem s1) d i = t OR 7" using table(9) u by simp
      have ds: "i \<in> dir_slots (pmem s1) d" using u flags_or [OF table(3) fl(2,1)] by (simp add: dir_slots_def pi)
      have tt: "pg (pde_at (pmem s1) d i) = t" using flags_or [OF table(3) fl(2,1)] by (simp add: pi)
      have ab': "\<not> present (pte_at (pmem s1) d i j)" using ab table(10) [OF u jw(2)] by simp
      show thesis
      proof (rule building_page [OF table(8) ds jw(2) ab' f fl(1,2), unfolded tt])
        fix s' assume s': "frame_write32 t (of_nat j) (f OR 7) s1 = Some s'" "building d (X - {f}) s0 s'"
          "\<And>k. pde_at (pmem s') d k = pde_at (pmem s1) d k"
          "\<And>k l. user k \<Longrightarrow> l < 1024 \<Longrightarrow> pte_at (pmem s') d k l = (if k = i \<and> l = j then f OR 7 else pte_at (pmem s1) d k l)"
          "owned (pmem s') d = insert f (owned (pmem s1) d)" "pages (pmem s') d = insert f (pages (pmem s1) d)"
          "\<And>g. g \<noteq> t \<Longrightarrow> pmem s' g = pmem s1 g"
        have "map_user_page d v f s = Some (0, s')"
          using rd table(1,2,7) s'(1) False ff unfolding map_user_page_def Let_def iw jw or by (simp add: present_def)
        moreover have "pde_at (pmem s') d 768 = pde_at (pmem s) d 768" using table(9) [of 768] i(2) by (simp add: s'(3))
        moreover have "pte_at (pmem s') d k l = (if k = i \<and> l = j then f OR 7 else pte_at (pmem s) d k l)"
          if "user k" "l < 1024" for k l using s'(4) [OF that] table(10) [OF that] by simp
        moreover have "pmem s' g = pmem s g" if g: "g \<in> pages (pmem s) d \<union> X" for g
        proof -
          have "g \<noteq> t" using g table(5,6) by (auto simp: owned_def)
          moreover have "g \<noteq> d" using g D(3) building_dir [OF B] by auto
          ultimately show ?thesis using s'(7) table(13) by simp
        qed
        moreover have "dir_slots (pmem s') d \<subseteq> insert i (dir_slots (pmem s) d)"
          using table(9) by (auto simp: dir_slots_def s'(3) split: if_splits)
        ultimately show thesis using s'(2,6) table(12) by (intro mapped [of s']) simp_all
      qed
    qed
  qed
qed

end
