(* ===== verification/Space_Clone.thy ===== *)
theory Space_Clone
  imports Address_Space
begin

text \<open>
  \<open>clone_user_space\<close>, the memory half of \<open>fork\<close>: the copy reads the same at every user address, shares no
  frame with anything else, and an attempt that runs out of memory leaks nothing.
\<close>

subsection \<open>Cloning\<close>

definition cloned :: "(u32 \<Rightarrow> page) \<Rightarrow> u32 \<Rightarrow> (u32 \<Rightarrow> page) \<Rightarrow> u32 \<Rightarrow> nat \<Rightarrow> nat \<Rightarrow> bool" where
  "cloned m0 p m d i j \<longleftrightarrow> (if present (pte_at m0 p i j)
     then present (pte_at m d i j) \<and> pte_at m d i j AND 0xFFF = pte_at m0 p i j AND 0xFFF \<and>
       (\<forall>off < 4096. m (pg (pte_at m d i j)) off = m0 (pg (pte_at m0 p i j)) off)
     else \<not> present (pte_at m d i j))"

lemma cloned_cong:
  assumes "pte_at m' d i j = pte_at m d i j" and "\<forall>g \<in> pages m d. m' g = m g" and "user i" "j < 1024"
  shows "cloned m0 p m' d i j = cloned m0 p m d i j"
proof -
  have "present (pte_at m d i j) \<Longrightarrow> pg (pte_at m d i j) \<in> pages m d"
    using assms(3,4) unfolding pages_def by (intro image_eqI [of _ _ "(i, j)"]) (simp_all add: page_slots_def)
  with assms(1,2) show ?thesis by (auto simp: cloned_def)
qed

text \<open>A space that was there before keeps its entries and its bytes.\<close>

lemma taken_keeps_space:
  assumes "taken F s0 s" and "space_ok (pmem s0) p" and "owned (pmem s0) p \<inter> avail_frames s0 = {}"
  shows "pde_at (pmem s) p i = pde_at (pmem s0) p i" "user i \<Longrightarrow> pte_at (pmem s) p i j = pte_at (pmem s0) p i j"
    "owned (pmem s) p = owned (pmem s0) p" "space_ok (pmem s) p" "\<forall>g \<in> owned (pmem s0) p. pmem s g = pmem s0 g"
proof -
  show o: "\<forall>g \<in> owned (pmem s0) p. pmem s g = pmem s0 g" using assms(1,3) by (auto simp: taken_def)
  then have m: "pmem s (pg p) = pmem s0 (pg p)" "\<forall>g \<in> tables (pmem s0) p. pmem s g = pmem s0 g" by (auto simp: owned_def)
  note c = space_cong [of "pmem s" p "pmem s0", OF m]
  show "pde_at (pmem s) p i = pde_at (pmem s0) p i" "user i \<Longrightarrow> pte_at (pmem s) p i j = pte_at (pmem s0) p i j"
    "owned (pmem s) p = owned (pmem s0) p" "space_ok (pmem s) p" using c assms(2) by simp_all
qed

lemma flags_mask: "pg (e AND 0xFFF) = 0" "present (e AND 0xFFF) = present e" "(e AND 0xFFF) AND 0x80 = e AND (0x80 :: u32)"
  by (simp_all add: and.assoc present_def)

lemma flags_of_or:
  assumes "pg f = f" and "pg fl = 0"
  shows "(f OR fl) AND 0xFFF = fl"
proof -
  have "f AND 0xFFF = 0" using arg_cong [OF assms(1), of "\<lambda>w. w AND 0xFFF"] by (simp add: and.assoc)
  moreover have "fl AND 0xFFF = fl" using split_page_offset [of fl] assms(2) by simp
  ultimately show ?thesis by (simp add: bit.conj_disj_distrib2)
qed

lemma pages_slot: "user i \<Longrightarrow> j < 1024 \<Longrightarrow> present (pte_at m d i j) \<Longrightarrow> pg (pte_at m d i j) \<in> pages m d"
  unfolding pages_def by (intro image_eqI [of _ _ "(i, j)"]) (simp_all add: page_slots_def)

lemma clone_table_step:
  assumes B: "building d {} s0 s" and p: "space_ok (pmem s0) p" "owned (pmem s0) p \<inter> avail_frames s0 = {}"
    and i: "i \<in> dir_slots (pmem s) d" and n: "n < 1024" "\<not> present (pte_at (pmem s) d i n)"
    and t: "t = pg (pde_at (pmem s) d i)" and pe: "present (pte_at (pmem s0) p i n)"
  obtains (none) s' where "pfa_alloc s = Some (0, s)" "destroy_user_space d s = Some s'" "taken {} s0 s'" "avail_frames s0 = owned (pmem s) d"
  | (frame) f s1 s2 s' where "pfa_alloc s = Some (f, s1)" "f \<noteq> 0"
      "copy_frame_page (pg (pte_at (pmem s0) p i n)) f s1 = Some (0, s2)"
      "frame_write32 t (of_nat n) (f OR (pte_at (pmem s0) p i n AND 0xFFF)) s2 = Some s'" "building d {} s0 s'"
      "\<And>k. pde_at (pmem s') d k = pde_at (pmem s) d k"
      "\<And>k l. user k \<Longrightarrow> l < 1024 \<Longrightarrow> (k, l) \<noteq> (i, n) \<Longrightarrow> pte_at (pmem s') d k l = pte_at (pmem s) d k l"
      "cloned (pmem s0) p (pmem s') d i n" "\<forall>g \<in> pages (pmem s) d. pmem s' g = pmem s g" "pages (pmem s) d \<subseteq> pages (pmem s') d"
using B
proof (cases rule: building_alloc)
  case none
  with taken_destroy [OF B] that(1) show thesis by auto
next
  case (frame f s1)
  have u: "user i" using i by (simp add: dir_slots_def)
  have ok: "space_ok (pmem s) d" using B by (simp add: building_def)
  let ?pe = "pte_at (pmem s0) p i n"
  have po: "pg ?pe \<in> owned (pmem s0) p" using pages_slot [OF u n(1) pe] by (simp add: owned_def)
  then have pf: "pg ?pe \<noteq> f" "pg ?pe \<notin> avail_frames s0" using p(2) frame(6) by auto
  have T1: "taken (owned (pmem s1) d \<union> {f}) s0 s1" using frame(7) by (simp add: building_def)
  let ?c = "\<lambda>off. if off < 4096 then pmem s1 (pg ?pe) off else pmem s1 f off"
  let ?s2 = "set_page f ?c s1"
  have cp: "copy_frame_page (pg ?pe) f s1 = Some (0, ?s2)"
    using copy_frame_page_eq [OF taken_simps(2) [OF T1], of "pg ?pe" f, unfolded pg_pg frame(3)] pf(1) by blast
  have B2: "building d {f} s0 ?s2" using building_fill(1) [OF frame(7), of f ?c] by simp
  have p2: "pde_at (pmem ?s2) d k = pde_at (pmem s) d k" for k
    using building_fill(3) [OF frame(7), of f ?c] by (simp add: frame(8))
  have q2: "pte_at (pmem ?s2) d k l = pte_at (pmem s) d k l" if "user k" for k l
    using building_fill(4) [OF frame(7), of f k ?c] that by (simp add: frame(8))
  have i2: "i \<in> dir_slots (pmem ?s2) d" using i by (simp only: dir_slots_def p2)
  have pg2: "pages (pmem ?s2) d = pages (pmem s) d" by (rule space_same) (rule p2, rule q2)
  have n2: "\<not> present (pte_at (pmem ?s2) d i n)" using n(2) by (simp only: q2 [OF u] not_False_eq_True)
  have fl: "present (?pe AND 0xFFF)" "pg (?pe AND 0xFFF) = 0" using pe by (simp_all add: flags_mask)
  show thesis
  proof (rule building_page [OF B2 i2 n(1) n2 _ fl, of f, unfolded p2])
    show "f \<in> {f}" by simp
    fix s' assume s': "frame_write32 (pg (pde_at (pmem s) d i)) (of_nat n) (f OR (?pe AND 0xFFF)) ?s2 = Some s'"
      "building d ({f} - {f}) s0 s'" "\<And>k. pde_at (pmem s') d k = pde_at (pmem s) d k"
      "\<And>k l. user k \<Longrightarrow> l < 1024 \<Longrightarrow> pte_at (pmem s') d k l =
        (if k = i \<and> l = n then f OR (?pe AND 0xFFF) else pte_at (pmem ?s2) d k l)"
      "owned (pmem s') d = insert f (owned (pmem ?s2) d)" "pages (pmem s') d = insert f (pages (pmem ?s2) d)"
      "\<And>g. g \<noteq> pg (pde_at (pmem s) d i) \<Longrightarrow> pmem s' g = pmem ?s2 g"
    have tt: "t \<in> tables (pmem s) d" using table_of_slot [OF i] t by simp
    have ft: "f \<noteq> t" using frame(5) tt by (auto simp: owned_def)
    have new: "pte_at (pmem s') d i n = f OR (?pe AND 0xFFF)" using s'(4) [OF u n(1)] by simp
    have "pmem s1 (pg ?pe) = pmem s0 (pg ?pe)" using taken_simps(9) [OF T1 pf(2)] .
    then have "\<forall>off < 4096. pmem s' f off = pmem s0 (pg ?pe) off"
      using s'(7) [of f] ft t by simp
    then have "cloned (pmem s0) p (pmem s') d i n"
      using pe flags_or [OF frame(3) fl(2,1)] flags_of_or [OF frame(3) fl(2)] unfolding cloned_def new by simp
    moreover have "pmem s' g = pmem s g" if g: "g \<in> pages (pmem s) d" for g
    proof -
      have "g \<noteq> f" using g frame(5) by (auto simp: owned_def)
      moreover have "g \<noteq> t" using g tt space_okD(4) [OF ok] by auto
      ultimately show ?thesis using s'(7) [of g] t by (simp add: frame(8))
    qed
    ultimately show thesis
      using s' q2 t pg2 by (intro that(2) [OF frame(1,2) cp]) auto
  qed
qed

text \<open>The entries of the copy are among those of the original, so it never needs more frames.\<close>

definition within :: "(u32 \<Rightarrow> page) \<Rightarrow> u32 \<Rightarrow> (u32 \<Rightarrow> page) \<Rightarrow> u32 \<Rightarrow> bool" where
  "within m0 p m d \<longleftrightarrow> dir_slots m d \<subseteq> dir_slots m0 p \<and> page_slots m d \<subseteq> page_slots m0 p"

lemma within_iff: "within m0 p m d \<longleftrightarrow> (\<forall>i. user i \<and> present (pde_at m d i) \<longrightarrow> present (pde_at m0 p i)) \<and>
    (\<forall>i j. user i \<and> j < 1024 \<and> present (pte_at m d i j) \<longrightarrow> present (pte_at m0 p i j))"
  by (auto simp: within_def dir_slots_def page_slots_def subset_iff)

lemma finite_slots [simp]: "finite (dir_slots m d)" "finite (page_slots m d)"
proof -
  show "finite (dir_slots m d)" by (rule finite_subset [of _ "{..<1024}"]) (auto simp: dir_slots_def)
  show "finite (page_slots m d)" by (rule finite_subset [of _ "{..<1024} \<times> {..<1024}"]) (auto simp: page_slots_def)
qed

lemma card_owned:
  assumes "space_ok m d"
  shows "card (owned m d) = Suc (card (dir_slots m d) + card (page_slots m d))"
proof -
  note D = space_okD [OF assms]
  have "card (tables m d \<union> pages m d) = card (tables m d) + card (pages m d)"
    using D(4) by (intro card_Un_disjoint) (simp_all add: tables_def pages_def)
  moreover have "card (tables m d) = card (dir_slots m d)" unfolding tables_def by (rule card_image [OF D(6)])
  moreover have "card (pages m d) = card (page_slots m d)" unfolding pages_def by (rule card_image [OF D(7)])
  moreover have "finite (tables m d \<union> pages m d)" by (simp add: tables_def pages_def)
  ultimately show ?thesis using D(1,2,3) by (simp add: owned_def)
qed

lemma within_smaller:
  assumes "space_ok m d" "space_ok m0 p" and w: "within m0 p m d"
    and new: "(i, j) \<in> page_slots m0 p - page_slots m d \<or> i \<in> dir_slots m0 p - dir_slots m d"
  shows "card (owned m d) < card (owned m0 p)"
proof -
  have "card (dir_slots m d) \<le> card (dir_slots m0 p)" "card (page_slots m d) \<le> card (page_slots m0 p)"
    using w by (auto simp: within_def intro!: card_mono)
  moreover have "card (dir_slots m d) < card (dir_slots m0 p) \<or> card (page_slots m d) < card (page_slots m0 p)"
    using w new by (auto simp: within_def intro!: psubset_card_mono)
  ultimately show ?thesis using assms(1,2) by (auto simp: card_owned)
qed

text \<open>What the loop over one table, from entry \<open>n\<close> on, has done when it succeeds.\<close>

definition row_cloned :: "'a paging_scheme \<Rightarrow> u32 \<Rightarrow> u32 \<Rightarrow> nat \<Rightarrow> nat \<Rightarrow> 'a paging_scheme \<Rightarrow> 'a paging_scheme \<Rightarrow> bool" where
  "row_cloned s0 p d i n s s' \<longleftrightarrow> building d {} s0 s' \<and> (\<forall>k. pde_at (pmem s') d k = pde_at (pmem s) d k) \<and>
     (\<forall>k l. user k \<and> l < 1024 \<and> (k \<noteq> i \<or> l < n) \<longrightarrow> pte_at (pmem s') d k l = pte_at (pmem s) d k l) \<and>
     (\<forall>j. n \<le> j \<and> j < 1024 \<longrightarrow> cloned (pmem s0) p (pmem s') d i j) \<and>
     (\<forall>g \<in> pages (pmem s) d. pmem s' g = pmem s g)"

lemma row_cloned_skip:
  assumes "row_cloned s0 p d i (Suc n) s s'" and "\<not> present (pte_at (pmem s0) p i n)" "\<not> present (pte_at (pmem s) d i n)"
    and "user i" "n < 1024"
  shows "row_cloned s0 p d i n s s'"
proof -
  have "pte_at (pmem s') d i n = pte_at (pmem s) d i n" using assms(1,4,5) unfolding row_cloned_def by auto
  then have "cloned (pmem s0) p (pmem s') d i n" using assms(2,3) by (simp add: cloned_def)
  then have "cloned (pmem s0) p (pmem s') d i j" if "n \<le> j" "j < 1024" for j
    using assms(1) that unfolding row_cloned_def by (cases "j = n") auto
  with assms(1) show ?thesis unfolding row_cloned_def by auto
qed

lemma row_cloned_step:
  assumes r: "row_cloned s0 p d i (Suc n) s1 s'" and i: "user i" "n < 1024"
    and "\<forall>k. pde_at (pmem s1) d k = pde_at (pmem s) d k"
    and q: "\<And>k l. user k \<Longrightarrow> l < 1024 \<Longrightarrow> (k, l) \<noteq> (i, n) \<Longrightarrow> pte_at (pmem s1) d k l = pte_at (pmem s) d k l"
    and c: "cloned (pmem s0) p (pmem s1) d i n" and g: "\<forall>g \<in> pages (pmem s) d. pmem s1 g = pmem s g"
      "pages (pmem s) d \<subseteq> pages (pmem s1) d"
  shows "row_cloned s0 p d i n s s'"
proof -
  have "cloned (pmem s0) p (pmem s') d i n"
    using cloned_cong [of "pmem s'" d i n "pmem s1" "pmem s0" p] r i c unfolding row_cloned_def by simp
  then have "cloned (pmem s0) p (pmem s') d i j" if "n \<le> j" "j < 1024" for j
    using r that unfolding row_cloned_def by (cases "j = n") auto
  moreover have "pte_at (pmem s') d k l = pte_at (pmem s) d k l" if "user k" "l < 1024" "k \<noteq> i \<or> l < n" for k l
  proof -
    have "pte_at (pmem s') d k l = pte_at (pmem s1) d k l" using r that unfolding row_cloned_def by auto
    also have "\<dots> = pte_at (pmem s) d k l" using that by (intro q) auto
    finally show ?thesis .
  qed
  moreover have "pmem s' h = pmem s h" if "h \<in> pages (pmem s) d" for h
    using r that g unfolding row_cloned_def by auto
  ultimately show ?thesis using r assms(4) unfolding row_cloned_def by simp
qed

lemma clone_table_loop_ok:
  assumes "building d {} s0 s" and "within (pmem s0) p (pmem s) d" and "space_ok (pmem s0) p" "owned (pmem s0) p \<inter> avail_frames s0 = {}"
    and "i \<in> dir_slots (pmem s) d" and "i \<in> dir_slots (pmem s0) p" and "n \<le> 1024"
    and "\<forall>j. n \<le> j \<and> j < 1024 \<longrightarrow> \<not> present (pte_at (pmem s) d i j)" and "t = pg (pde_at (pmem s) d i)"
  shows "\<exists>ok s'. clone_table_loop d (pg (pde_at (pmem s0) p i)) t n s = Some (ok, s') \<and>
    (if ok then row_cloned s0 p d i n s s'
     else taken {} s0 s' \<and> card (avail_frames s0) < card (owned (pmem s0) p))"
  using assms
proof (induction "1024 - n" arbitrary: n s)
  case 0
  then show ?case by (intro exI [of _ True] exI [of _ s]) (auto simp: clone_table_loop.simps row_cloned_def)
next
  case (Suc r)
  note B = Suc.prems(1) and wi = Suc.prems(2) and p = Suc.prems(3,4) and i = Suc.prems(5,6) and ab = Suc.prems(8) and t = Suc.prems(9)
  have ok: "space_ok (pmem s) d" using B by (simp add: building_def)
  have n: "n < 1024" and r: "r = 1024 - Suc n" using Suc.hyps(2) by auto
  have u: "user i" and pr: "present (pde_at (pmem s0) p i)" using i by (simp_all add: dir_slots_def)
  let ?pt = "pg (pde_at (pmem s0) p i)" and ?pe = "pte_at (pmem s0) p i n"
  have T: "taken (owned (pmem s) d) s0 s" using B by (simp add: building_def)
  have "?pt \<in> owned (pmem s0) p" using table_of_slot [OF i(2)] by (simp add: owned_def)
  then have m: "pmem s ?pt = pmem s0 ?pt" using taken_keeps_space(5) [OF T p] by simp
  have lt: "(of_nat n :: u32) < 1024" using n by (simp add: word_less_nat_alt unat_of_nat)
  have rd: "frame_read32 ?pt (of_nat n) s = Some (?pe, s)"
    using frame_access(1) [OF taken_simps(2) [OF T] lt, of ?pt] pr by (simp add: m pte_at_def entry_def)
  show ?case
  proof (cases "present ?pe")
    case False
    then have step: "clone_table_loop d ?pt t n s = clone_table_loop d ?pt t (Suc n) s"
      using n rd by (subst clone_table_loop.simps) (simp add: present_def)
    have "\<forall>j. Suc n \<le> j \<and> j < 1024 \<longrightarrow> \<not> present (pte_at (pmem s) d i j)" using ab by simp
    from Suc.hyps(1) [OF r B wi p i _ this t] n obtain ok s' where s': "clone_table_loop d ?pt t (Suc n) s = Some (ok, s')"
      "if ok then row_cloned s0 p d i (Suc n) s s' else taken {} s0 s' \<and> card (avail_frames s0) < card (owned (pmem s0) p)" by auto
    with step row_cloned_skip [OF _ False _ u n, of d s s'] ab n show ?thesis by auto
  next
    case True
    show ?thesis
    proof (rule clone_table_step [OF B p i(1) n _ t True])
      show "\<not> present (pte_at (pmem s) d i n)" using ab n by simp
    next
      fix s' assume a: "pfa_alloc s = Some (0, s)" "destroy_user_space d s = Some s'" "taken {} s0 s'" "avail_frames s0 = owned (pmem s) d"
      have "(i, n) \<in> page_slots (pmem s0) p - page_slots (pmem s) d" using u n True ab by (simp add: page_slots_def)
      then have c: "card (avail_frames s0) < card (owned (pmem s0) p)"
        unfolding a(4) using within_smaller [OF ok p(1) wi] by blast
      from a have "clone_table_loop d ?pt t n s = Some (False, s')"
        using n rd True by (subst clone_table_loop.simps) (simp add: present_def)
      with a(3) c show ?thesis by auto
    next
      fix f s1 s2 s3 assume a: "pfa_alloc s = Some (f, s1)" "f \<noteq> 0" "copy_frame_page (pg ?pe) f s1 = Some (0, s2)"
        "frame_write32 t (of_nat n) (f OR (?pe AND 0xFFF)) s2 = Some s3" "building d {} s0 s3"
        "\<And>k. pde_at (pmem s3) d k = pde_at (pmem s) d k"
        "\<And>k l. user k \<Longrightarrow> l < 1024 \<Longrightarrow> (k, l) \<noteq> (i, n) \<Longrightarrow> pte_at (pmem s3) d k l = pte_at (pmem s) d k l"
        "cloned (pmem s0) p (pmem s3) d i n" "\<forall>g \<in> pages (pmem s) d. pmem s3 g = pmem s g" "pages (pmem s) d \<subseteq> pages (pmem s3) d"
      have step: "clone_table_loop d ?pt t n s = clone_table_loop d ?pt t (Suc n) s3"
        using n rd True a(1-4) by (subst clone_table_loop.simps) (simp add: present_def)
      have i3: "i \<in> dir_slots (pmem s3) d" using i(1) by (simp add: dir_slots_def a(6))
      have t3: "t = pg (pde_at (pmem s3) d i)" using t by (simp add: a(6))
      have ab3: "\<forall>j. Suc n \<le> j \<and> j < 1024 \<longrightarrow> \<not> present (pte_at (pmem s3) d i j)" using ab a(7) u by simp
      have "present (pte_at (pmem s0) p k l)" if "user k" "l < 1024" "present (pte_at (pmem s3) d k l)" for k l
        using that wi True a(7) [of k l] by (cases "(k, l) = (i, n)") (auto simp: within_iff)
      then have wi3: "within (pmem s0) p (pmem s3) d" using wi by (simp add: within_iff a(6))
      from Suc.hyps(1) [OF r a(5) wi3 p i3 i(2) _ ab3 t3] n obtain ok s' where s': "clone_table_loop d ?pt t (Suc n) s3 = Some (ok, s')"
        "if ok then row_cloned s0 p d i (Suc n) s3 s' else taken {} s0 s' \<and> card (avail_frames s0) < card (owned (pmem s0) p)" by auto
      have "ok \<Longrightarrow> row_cloned s0 p d i n s s'"
        by (rule row_cloned_step [of s0 p d i n s3 s' s, OF _ u n _ a(7-10)]) (use s'(2) a(6) in simp_all)
      with step s' show ?thesis by auto
    qed
  qed
qed

lemma clone_directory_loop_ok:
  assumes "building d {} s0 s" and "within (pmem s0) p (pmem s) d" and "space_ok (pmem s0) p" "owned (pmem s0) p \<inter> avail_frames s0 = {}" and "n \<le> 768"
    and "\<forall>i. n \<le> i \<and> user i \<longrightarrow> \<not> present (pde_at (pmem s) d i)"
    and "\<forall>i j. i < n \<and> j < 1024 \<longrightarrow> cloned (pmem s0) p (pmem s) d i j"
  shows "\<exists>ok s'. clone_directory_loop p d n s = Some (ok, s') \<and>
    (if ok then building d {} s0 s' \<and> pde_at (pmem s') d 768 = pde_at (pmem s) d 768 \<and>
        (\<forall>i. 768 < i \<and> i < 1024 \<longrightarrow> \<not> present (pde_at (pmem s') d i)) \<and>
        (\<forall>i j. i < 768 \<and> j < 1024 \<longrightarrow> cloned (pmem s0) p (pmem s') d i j)
     else taken {} s0 s' \<and> card (avail_frames s0) < card (owned (pmem s0) p))"
  using assms
proof (induction "768 - n" arbitrary: n s)
  case 0
  then have "n = 768" by simp
  with 0 show ?case by (intro exI [of _ True] exI [of _ s]) (simp add: clone_directory_loop.simps)
next
  case (Suc r)
  note B = Suc.prems(1) and wi = Suc.prems(2) and p = Suc.prems(3,4) and ab = Suc.prems(6) and cl = Suc.prems(7)
  have sok: "space_ok (pmem s) d" using B by (simp add: building_def)
  have n: "n < 768" "user n" and r: "r = 768 - Suc n" using Suc.hyps(2) by auto
  have T: "taken (owned (pmem s) d) s0 s" using B by (simp add: building_def)
  let ?pde = "pde_at (pmem s0) p n"
  have lt: "(of_nat n :: u32) < 1024" using n by (simp add: word_less_nat_alt unat_of_nat)
  have rd: "frame_read32 p (of_nat n) s = Some (?pde, s)"
    using frame_access(1) [OF taken_simps(2) [OF T] lt, of p] taken_keeps_space(1) [OF T p, of n] by (simp add: pde_at_def entry_def)
  have "\<not> present (pde_at (pmem s) d n)" using ab n by simp
  then have abn: "\<not> present (pte_at (pmem s) d n j)" for j by (rule pte_absent)
  show ?case
  proof (cases "present ?pde")
    case False
    then have step: "clone_directory_loop p d n s = clone_directory_loop p d (Suc n) s"
      using n rd by (subst clone_directory_loop.simps) (simp add: present_def)
    have "cloned (pmem s0) p (pmem s) d n j" for j
      using abn pte_absent [OF False] by (simp add: cloned_def)
    then have "\<forall>i j. i < Suc n \<and> j < 1024 \<longrightarrow> cloned (pmem s0) p (pmem s) d i j" using cl by (auto simp: less_Suc_eq)
    with Suc.hyps(1) [OF r B wi p] n ab step show ?thesis by simp
  next
    case True
    note ds = dir_slotsI [OF n(2) True]
    have fl: "present (?pde AND 0xFFF)" "pg (?pde AND 0xFFF) = 0" "(?pde AND 0xFFF) AND 0x80 = 0"
      using True space_okD(5) [OF p(1) ds] by (simp_all add: flags_mask)
    show ?thesis
      using B n(2) \<open>\<not> present (pde_at (pmem s) d n)\<close> fl
    proof (cases rule: building_table)
      case none
      have "n \<in> dir_slots (pmem s0) p - dir_slots (pmem s) d" using ds n ab by (simp add: dir_slots_def)
      then have c: "card (avail_frames s0) < card (owned (pmem s0) p)"
        using none(2) within_smaller [OF sok p(1) wi] by auto
      from taken_destroy [OF B] obtain s' where s': "destroy_user_space d s = Some s'" "taken {} s0 s'" by blast
      with none n rd True have "clone_directory_loop p d n s = Some (False, s')"
        by (subst clone_directory_loop.simps) (simp add: present_def)
      with s'(2) c show ?thesis by auto
    next
      case (table t w s1)
      have pn: "pde_at (pmem s1) d n = t OR (?pde AND 0xFFF)" using table(9) n by simp
      note e = flags_or [OF table(3) fl(2,1)]
      have d1: "n \<in> dir_slots (pmem s1) d" using n e by (simp add: dir_slots_def pn)
      have t1: "t = pg (pde_at (pmem s1) d n)" using e by (simp add: pn)
      have wi1: "within (pmem s0) p (pmem s1) d"
        using wi True table(9,10) unfolding within_iff by (auto split: if_splits)
      have "\<forall>j. 0 \<le> j \<and> j < 1024 \<longrightarrow> \<not> present (pte_at (pmem s1) d n j)" using table(10) n abn by simp
      from clone_table_loop_ok [OF table(8) wi1 p d1 ds _ this t1] obtain ok s2 where s2:
        "clone_table_loop d (pg ?pde) t 0 s1 = Some (ok, s2)"
        "if ok then row_cloned s0 p d n 0 s1 s2 else taken {} s0 s2 \<and> card (avail_frames s0) < card (owned (pmem s0) p)" by auto
      have step: "clone_directory_loop p d n s = (if ok then clone_directory_loop p d (Suc n) s2 else Some (False, s2))"
        using n rd True table(1,2,7) s2(1) by (subst clone_directory_loop.simps) (simp add: present_def)
      show ?thesis
      proof (cases ok)
        case False
        with step s2(2) show ?thesis by auto
      next
        case ok: True
        have p2: "pde_at (pmem s2) d k = (if k = n then t OR (?pde AND 0xFFF) else pde_at (pmem s) d k)" if "k < 1024" for k
          using s2(2) ok table(9) that by (simp add: row_cloned_def)
        have q2: "pte_at (pmem s2) d k l = pte_at (pmem s) d k l" if "user k" "l < 1024" "k \<noteq> n" for k l
          using s2(2) ok that table(10) by (simp add: row_cloned_def)
        have cn: "cloned (pmem s0) p (pmem s2) d n j" if "j < 1024" for j
          using s2(2) ok that by (simp add: row_cloned_def)
        have "present (pte_at (pmem s0) p k l)" if "user k" "l < 1024" "present (pte_at (pmem s2) d k l)" for k l
          using that q2 [of k l] cn [of l] wi by (cases "k = n") (auto simp: within_iff cloned_def split: if_splits)
        then have wi2: "within (pmem s0) p (pmem s2) d" using wi True p2 unfolding within_iff by (auto split: if_splits)
        have "cloned (pmem s0) p (pmem s2) d i j" if "i < Suc n" "j < 1024" for i j
        proof (cases "i = n")
          case False
          with that n have i: "i < n" "user i" by auto
          have "pmem s2 g = pmem s g" if g: "g \<in> pages (pmem s) d" for g
          proof -
            have "g \<noteq> d" "g \<noteq> t" using g table(5) building_dir [OF B] B space_okD(3) [of "pmem s" d] by (auto simp: owned_def building_def)
            then show ?thesis using s2(2) ok g table(12,13) by (simp add: row_cloned_def)
          qed
          moreover have "pte_at (pmem s2) d i j = pte_at (pmem s) d i j" using s2(2) ok i that table(10) by (simp add: row_cloned_def)
          ultimately show ?thesis using cl i that cloned_cong [of "pmem s2" d i j "pmem s" "pmem s0" p] by simp
        qed (use s2(2) ok that in \<open>simp add: row_cloned_def\<close>)
        moreover have "\<forall>i. Suc n \<le> i \<and> user i \<longrightarrow> \<not> present (pde_at (pmem s2) d i)" using p2 ab by simp
        moreover have "building d {} s0 s2" using s2(2) ok by (simp add: row_cloned_def)
        moreover have pe: "pde_at (pmem s2) d 768 = pde_at (pmem s) d 768" using p2 [of 768] n by simp
        ultimately show ?thesis
          using Suc.hyps(1) [OF r _ wi2 p, unfolded pe] n ok unfolding step by auto
      qed
    qed
  qed
qed

subsection \<open>The page walk of a space\<close>

definition pd_of :: "u32 \<Rightarrow> nat" where "pd_of v = unat (drop_bit 22 v)"
definition pt_of :: "u32 \<Rightarrow> nat" where "pt_of v = unat (drop_bit 12 v AND 0x3FF)"

lemma user_vaddr:
  assumes "v < 0xC0000000"
  shows "pd_of v < 768" "user (pd_of v)" "pt_of v < 1024"
proof -
  have "unat v < 3221225472" using assms by (simp add: word_less_nat_alt)
  then have "unat v div 2 ^ 22 < 768" by (simp add: less_mult_imp_div_less)
  then show "pd_of v < 768" "user (pd_of v)" by (simp_all add: pd_of_def drop_bit_eq_div unat_div)
  show "pt_of v < 1024" unfolding pt_of_def by (rule of_nat_pt_index)
qed

lemma user_read8_pte:
  assumes "space_ok (pmem s) d" and "v < 0xC0000000"
  shows "user_read8 v (s\<lparr>cr3 := d\<rparr>) = (let e = pte_at (pmem s) d (pd_of v) (pt_of v) in
    if present e then Some (pmem s (pg e) (v AND 0xFFF)) else None)"
proof -
  note u = user_vaddr [OF assms(2)]
  have w: "drop_bit 22 v = (of_nat (pd_of v) :: u32)" "drop_bit 12 v AND 0x3FF = (of_nat (pt_of v) :: u32)"
    by (simp_all add: pd_of_def pt_of_def)
  have k: "(of_nat (pd_of v) :: u32) \<noteq> 768" using u(1) by (simp add: word_unat_eq_iff unat_of_nat)
  have off: "pg (pg e OR (v AND 0xFFF)) = pg e" "(pg e OR (v AND 0xFFF)) AND 0xFFF = v AND 0xFFF" for e
    by (simp_all add: bit.conj_disj_distrib2 and.assoc)
  show ?thesis
  proof (cases "present (pde_at (pmem s) d (pd_of v))")
    case True
    then have "pde_at (pmem s) d (pd_of v) AND 0x80 = 0" using space_okD(5) [OF assms(1)] u(2) by (simp add: dir_slots_def)
    with True k show ?thesis
      unfolding user_read8_def user_walk_def w by (simp add: pte_at_def off pde_at_def entry_def present_def)
  next
    case False
    then show ?thesis
      unfolding user_read8_def user_walk_def w by (simp add: pte_at_def pde_at_def entry_def present_def)
  qed
qed

lemma cloned_reads_same:
  assumes "space_ok (pmem s) p" "space_ok (pmem s') d" and "v < 0xC0000000"
    and "cloned (pmem s) p (pmem s') d (pd_of v) (pt_of v)"
  shows "user_read8 v (s'\<lparr>cr3 := d\<rparr>) = user_read8 v (s\<lparr>cr3 := p\<rparr>)"
proof -
  have "v AND 0xFFF < 4096" by (rule le_less_trans [OF word_and_le1]) simp
  with assms(4) show ?thesis
    unfolding user_read8_pte [OF assms(1,3)] user_read8_pte [OF assms(2,3)]
    by (auto simp: cloned_def split: if_splits)
qed

lemma clone_user_space_result:
  assumes "pfa_ok s" and "window_closed s" and "length (page_directory s) = 1024"
    and "space_ok (pmem s) p" and "owned (pmem s) p \<inter> avail_frames s = {}"
  obtains (none) s' where "clone_user_space p s = Some (0, s')" "taken {} s s'" "card (avail_frames s) < card (owned (pmem s) p)"
  | (space) c s' where "clone_user_space p s = Some (c, s')" "c \<noteq> 0" "building c {} s s'"
      "pde_at (pmem s') c 768 = page_directory s ! 768"
      "\<forall>v < 0xC0000000. user_read8 v (s'\<lparr>cr3 := c\<rparr>) = user_read8 v (s\<lparr>cr3 := p\<rparr>)"
  using assms(1-3)
proof (cases rule: create_user_pdt_cases)
  case none
  have "finite (owned (pmem s) p)" by (simp add: owned_def tables_def pages_def)
  then have "0 < card (owned (pmem s) p)" by (auto simp: card_gt_0_iff owned_def)
  with none show thesis by (intro that(1) [of s] taken_refl assms) (simp_all add: clone_user_space_def)
next
  case (space d t)
  have d0: "d \<noteq> 0" using building_dir [OF space(2)] by simp
  have ab: "\<not> present (pde_at (pmem t) d i)" if "user i" for i using space(4) that by simp
  then have "within (pmem s) p (pmem t) d" by (auto simp: within_iff pte_at_def)
  from clone_directory_loop_ok [OF space(2) this assms(4,5), of 0] ab obtain ok s' where s':
    "clone_directory_loop p d 0 t = Some (ok, s')"
    "if ok then building d {} s s' \<and> pde_at (pmem s') d 768 = pde_at (pmem t) d 768 \<and>
        (\<forall>i. 768 < i \<and> i < 1024 \<longrightarrow> \<not> present (pde_at (pmem s') d i)) \<and>
        (\<forall>i j. i < 768 \<and> j < 1024 \<longrightarrow> cloned (pmem s) p (pmem s') d i j)
     else taken {} s s' \<and> card (avail_frames s) < card (owned (pmem s) p)" by auto
  have run: "clone_user_space p s = Some (if ok then d else 0, s')"
    using space(1) s'(1) d0 by (simp add: clone_user_space_def)
  show thesis
  proof (cases ok)
    case False
    with run s'(2) show thesis by (intro that(1)) auto
  next
    case True
    then have B: "building d {} s s'" and cl: "\<And>i j. i < 768 \<Longrightarrow> j < 1024 \<Longrightarrow> cloned (pmem s) p (pmem s') d i j"
      and k: "pde_at (pmem s') d 768 = page_directory s ! 768" using s'(2) space(4) by auto
    have ok: "space_ok (pmem s') d" using B by (simp add: building_def)
    have "user_read8 v (s'\<lparr>cr3 := d\<rparr>) = user_read8 v (s\<lparr>cr3 := p\<rparr>)" if v: "v < 0xC0000000" for v
      using cloned_reads_same [OF assms(4) ok v] cl user_vaddr [OF v] by simp
    with run True d0 k B show thesis by (intro that(2)) auto
  qed
qed

text \<open>
  C9.  The memory of a forked process.  From any state in which the parent's space is well formed and
  none of its frames is free, \<open>clone_user_space\<close> returns.  If it returns a directory, every user address
  reads the same byte through it as through the parent's (or is unmapped in both), the kernel's entry is
  there, and the space is made only of frames that were free and are not free now: no frame is shared
  with the parent or with any other process, and no byte outside them has changed.  If it returns 0,
  nothing has leaked: the same frames are free as before, and no byte of a frame in use has changed;
  and this happens only when there were fewer free frames than the parent has.
\<close>

theorem clone_user_space_copies:
  assumes "pfa_ok s" and "window_closed s" and "length (page_directory s) = 1024"
    and "space_ok (pmem s) p" and "owned (pmem s) p \<inter> avail_frames s = {}"
  shows "\<exists>c s'. clone_user_space p s = Some (c, s') \<and>
    (\<forall>f. f \<notin> avail_frames s \<longrightarrow> pmem s' f = pmem s f) \<and>
    (if c = 0 then avail_frames s' = avail_frames s \<and> card (avail_frames s) < card (owned (pmem s) p)
     else (\<forall>v < 0xC0000000. user_read8 v (s'\<lparr>cr3 := c\<rparr>) = user_read8 v (s\<lparr>cr3 := p\<rparr>)) \<and>
       pde_at (pmem s') c 768 = page_directory s ! 768 \<and> space_ok (pmem s') c \<and>
       owned (pmem s') c \<subseteq> avail_frames s \<and> avail_frames s' = avail_frames s - owned (pmem s') c)"
  using assms by (cases rule: clone_user_space_result) (auto simp: building_def taken_def)

text \<open>
  C25.  Cloning a space and destroying the copy gives the allocator back exactly what it had: the same
  frames are free, and no byte of a frame in use has changed.
\<close>

theorem clone_destroy_roundtrip:
  assumes "pfa_ok s" and "window_closed s" and "length (page_directory s) = 1024"
    and "space_ok (pmem s) p" and "owned (pmem s) p \<inter> avail_frames s = {}"
    and "clone_user_space p s = Some (c, s1)" and "c \<noteq> 0"
  shows "\<exists>s2. destroy_user_space c s1 = Some s2 \<and> avail_frames s2 = avail_frames s \<and>
    (\<forall>f. f \<notin> avail_frames s \<longrightarrow> pmem s2 f = pmem s f)"
  using assms(1-5)
proof (cases rule: clone_user_space_result)
  case none
  with assms(6,7) show ?thesis by simp
next
  case (space c' s')
  with taken_destroy [OF space(3)] assms(6) show ?thesis by (auto simp: taken_def)
qed

lemma entry_zero: "entry (\<lambda>_. 0) i = 0"
  by (simp add: entry_def get32_def)

text \<open>The smallest space with memory: one table with one page, at address 0; with the kernel's entry or without.\<close>

lemma one_entry: "i < 1024 \<Longrightarrow> entry (put32 (\<lambda>_. 0) 0 e) i = (if i = 0 then e else 0)"
  using entry_put32 [of 0 i "\<lambda>_. 0" e] by (auto simp: entry_zero)

lemma one_table_space:
  assumes pd: "\<And>i. user i \<Longrightarrow> pde_at m d i = (if i = 0 then e1 else 0)" and "pg e1 = t" "present e1" "e1 AND 0x80 = 0"
    and "m t = put32 (\<lambda>_. 0) 0 e2" "present e2" "pg e2 = f" and "pg d = d" "distinct [d, t, f]"
  shows "space_ok m d" "owned m d = {d, t, f}" "pte_at m d 0 0 = e2"
proof -
  have pt: "pte_at m d i j = (if i = 0 \<and> j = 0 then e2 else 0)" if "user i" "j < 1024" for i j
    using one_entry [OF that(2)] assms(2,3,5) unfolding pte_at_def pd [OF that(1)] by auto
  then show "pte_at m d 0 0 = e2" by simp
  have ds: "dir_slots m d = {0}" using pd assms(3) by (auto simp: dir_slots_def split: if_splits)
  have ps: "page_slots m d = {(0, 0)}" using pt assms(6) by (auto simp: page_slots_def split: if_splits)
  have t: "tables m d = {t}" "pages m d = {f}" using pd [of 0] pt [of 0 0] assms(2,7) by (simp_all add: tables_def pages_def ds ps)
  then show "owned m d = {d, t, f}" using assms(8) by (auto simp: owned_def)
  show "space_ok m d" unfolding space_ok_def ds ps t using pd [of 0] assms(4,8,9) by simp
qed

lemma one_page_space:
  assumes "m d = put32 (\<lambda>_. 0) 0 e1" "pg e1 = t" "present e1" "e1 AND 0x80 = 0"
    and "m t = put32 (\<lambda>_. 0) 0 e2" "present e2" "pg e2 = f" and "pg d = d" "distinct [d, t, f]"
  shows "space_ok m d" "owned m d = {d, t, f}" "pte_at m d 0 0 = e2"
  by (rule one_table_space [where m = m and d = d, OF _ assms(2-9)]; simp add: pde_at_def assms(1,8) one_entry)+

lemma kernel_page_space:
  assumes "m d = put32 (put32 (\<lambda>_. 0) 0 e1) 0xC00 k" "pg e1 = t" "present e1" "e1 AND 0x80 = 0"
    and "m t = put32 (\<lambda>_. 0) 0 e2" "present e2" "pg e2 = f" and "pg d = d" "distinct [d, t, f]"
  shows "space_ok m d" "owned m d = {d, t, f}" "pte_at m d 0 0 = e2" "pde_at m d 768 = k"
proof -
  have e: "entry (put32 (put32 (\<lambda>_. 0) 0 e1) 0xC00 k) i = (if i = 768 then k else if i = 0 then e1 else 0)" if "i < 1024" for i
    using one_entry [OF that, of e1] entry_put32 [of 768 i "put32 (\<lambda>_. 0) 0 e1" k] that by auto
  show "space_ok m d" "owned m d = {d, t, f}" "pte_at m d 0 0 = e2"
    by (rule one_table_space [where m = m and d = d, OF _ assms(2-9)]; simp add: pde_at_def assms(1,8) e)+
  show "pde_at m d 768 = k" by (simp add: pde_at_def assms(1,8) e)
qed

definition sample_space :: paging where
  "sample_space = sample_paging\<lparr>pmem := (\<lambda>_ _. 0)(0x1000 := put32 (\<lambda>_. 0) 0 0x2007, 0x2000 := put32 (\<lambda>_. 0) 0 0x3007,
     0x3000 := (\<lambda>_. 0x42))\<rparr>"

lemma sample_space_facts:
  "pfa_ok sample_space" "window_closed sample_space" "length (page_directory sample_space) = 1024"
  "space_ok (pmem sample_space) 0x1000" "owned (pmem sample_space) 0x1000 = {0x1000, 0x2000, 0x3000}"
  "card (avail_frames sample_space) = 16084" "f < 0x12C000 \<Longrightarrow> f \<notin> avail_frames sample_space"
proof -
  show "space_ok (pmem sample_space) 0x1000" "owned (pmem sample_space) 0x1000 = {0x1000, 0x2000, 0x3000}"
    by (rule one_page_space [where ?e1.0 = "0x2007" and ?e2.0 = "0x3007" and t = "0x2000" and f = "0x3000"]; simp add: sample_space_def present_def)+
  show ok: "pfa_ok sample_space" using sample_paging_facts(2) by (simp add: sample_space_def)
  show "window_closed sample_space" "length (page_directory sample_space) = 1024"
    by (simp_all add: window_closed_def sample_space_def sample_paging_def)
  have fr: "free_frames sample_space = {300..<16384}"
    by (auto simp: free_frames_def sample_space_def sample_paging_def used_def)
  then show "card (avail_frames sample_space) = 16084" using card_avail_frames [OF ok] by simp
  show "f \<notin> avail_frames sample_space" if "f < 0x12C000"
  proof
    assume "f \<in> avail_frames sample_space"
    then obtain k where k: "f = of_nat k * 4096" "300 \<le> k" "k < 16384" by (auto simp: avail_frames_def fr)
    then have "unat f = k * 4096" by (simp add: unat_frame_addr)
    with that k(2) show False by (simp add: word_less_nat_alt)
  qed
qed


theorem clone_user_space_copies_witness:
  "\<exists>c s'. clone_user_space 0x1000 sample_space = Some (c, s') \<and> c \<noteq> 0 \<and>
     user_read8 5 (s'\<lparr>cr3 := c\<rparr>) = user_read8 5 (sample_space\<lparr>cr3 := 0x1000\<rparr>)"
proof -
  have d: "owned (pmem sample_space) 0x1000 \<inter> avail_frames sample_space = {}"
    using sample_space_facts(5,7) by auto
  have "card (owned (pmem sample_space) 0x1000) = 3" by (simp add: sample_space_facts(5))
  with clone_user_space_copies [OF sample_space_facts(1-4) d] show ?thesis
    by (auto simp: sample_space_facts(6) split: if_splits)
qed


theorem clone_destroy_roundtrip_witness:
  "\<exists>c s1 s2. clone_user_space 0x1000 sample_space = Some (c, s1) \<and> c \<noteq> 0 \<and> destroy_user_space c s1 = Some s2 \<and>
     avail_frames s2 = avail_frames sample_space"
proof -
  have d: "owned (pmem sample_space) 0x1000 \<inter> avail_frames sample_space = {}"
    using sample_space_facts(5,7) by auto
  have n: "card (owned (pmem sample_space) 0x1000) = 3" by (simp add: sample_space_facts(5))
  show ?thesis
    using sample_space_facts(1-4) d
  proof (cases rule: clone_user_space_result)
    case none
    with n show ?thesis by (simp add: sample_space_facts(6))
  next
    case (space c s')
    from clone_destroy_roundtrip [OF sample_space_facts(1-4) d space(1,2)] space(1,2) show ?thesis by blast
  qed
qed

end
