(* ===== verification/Space_Image.thy ===== *)
theory Space_Image
  imports Space_Clone
begin

text \<open>
  \<open>build_new_image\<close>, the memory half of \<open>exec\<close>: the module is at address 0, padded with zeros to a whole
  page, an empty stack page is at the top of user memory, and nothing else is mapped.
\<close>

subsection \<open>Building an image\<close>

text \<open>The entry of the \<open>k\<close>-th page of the user half.\<close>

definition page_pte :: "(u32 \<Rightarrow> page) \<Rightarrow> u32 \<Rightarrow> nat \<Rightarrow> u32" where
  "page_pte m d k = pte_at m d (k div 1024) (k mod 1024)"

lemma vaddr_index: "pd_of v = unat v div 4096 div 1024" "pt_of v = unat v div 4096 mod 1024"
proof -
  show "pd_of v = unat v div 4096 div 1024"
    by (simp add: pd_of_def drop_bit_eq_div unat_div div_mult2_eq [symmetric])
  have "unat (drop_bit 12 v AND mask 10) = unat (drop_bit 12 v) mod 2 ^ 10" by (rule unat_and_mask)
  then show "pt_of v = unat v div 4096 mod 1024"
    by (simp add: pt_of_def mask_numeral drop_bit_eq_div unat_div)
qed

lemma page_pte_vaddr: "pte_at m d (pd_of v) (pt_of v) = page_pte m d (unat v div 4096)"
  by (simp add: page_pte_def vaddr_index)

definition image_byte :: "(u32 \<Rightarrow> page) \<Rightarrow> u32 \<Rightarrow> nat \<Rightarrow> nat \<Rightarrow> u8" where
  "image_byte m mstart n v = (if v < n then phys_byte m (mstart + of_nat v) else 0)"

definition loaded :: "'a paging_scheme \<Rightarrow> u32 \<Rightarrow> u32 \<Rightarrow> nat \<Rightarrow> nat \<Rightarrow> 'a paging_scheme \<Rightarrow> bool" where
  "loaded s0 mstart d n l s \<longleftrightarrow> building d {} s0 s \<and> pde_at (pmem s) d 768 = page_directory s0 ! 768 \<and>
     (\<forall>k < 786432. if k * 4096 < l
        then present (page_pte (pmem s) d k) \<and>
          (\<forall>off < 4096. pmem s (pg (page_pte (pmem s) d k)) off = image_byte (pmem s0) mstart n (k * 4096 + unat off))
        else \<not> present (page_pte (pmem s) d k)) \<and>
     dir_slots (pmem s) d \<subseteq> {i. i * 4194304 < l}"

lemma page_pte_in_pages:
  "k < 786432 \<Longrightarrow> present (page_pte m d k) \<Longrightarrow> pg (page_pte m d k) \<in> pages m d"
  unfolding page_pte_def by (rule pages_slot) (auto simp: less_mult_imp_div_less)

lemma card_multiples: "0 < c \<Longrightarrow> card {i :: nat. i * c < l} \<le> l div c + 1"
proof -
  assume c: "0 < c"
  have "{i. i * c < l} \<subseteq> {..<l div c + 1}"
    using c by (auto simp: less_Suc_eq_le) (metis div_le_mono less_imp_le_nat nonzero_mult_div_cancel_right not_gr_zero)
  from card_mono [OF _ this] show ?thesis by simp
qed

lemma loaded_card:
  assumes "loaded s0 mstart d n l s" and "l \<le> 3221225472"
  shows "card (owned (pmem s) d) \<le> l div 4096 + l div 4194304 + 3"
proof -
  have ok: "space_ok (pmem s) d" and ds: "dir_slots (pmem s) d \<subseteq> {i. i * 4194304 < l}"
    and ps: "\<And>k. k < 786432 \<Longrightarrow> l \<le> k * 4096 \<Longrightarrow> \<not> present (page_pte (pmem s) d k)"
    using assms by (auto simp: loaded_def building_def not_less [symmetric] split: if_splits)
  have sub: "page_slots (pmem s) d \<subseteq> (\<lambda>k. (k div 1024, k mod 1024)) ` {k. k * 4096 < l}"
  proof
    fix x assume x: "x \<in> page_slots (pmem s) d"
    then obtain i j where ij: "x = (i, j)" "user i" "j < 1024" "present (pte_at (pmem s) d i j)" by (auto simp: page_slots_def)
    then have "i \<in> dir_slots (pmem s) d" by (auto simp: dir_slots_def pte_at_def split: if_splits)
    then have "i * 4194304 < l" using ds by blast
    then have "i < 768" using assms(2) by linarith
    then have k: "i * 1024 + j < 786432" using ij(3) by linarith
    have e: "(i * 1024 + j) div 1024 = i" "(i * 1024 + j) mod 1024 = j" using ij(3) by simp_all
    then have "present (page_pte (pmem s) d (i * 1024 + j))" using ij(4) by (simp only: page_pte_def)
    with ps [OF k] have "(i * 1024 + j) * 4096 < l" by linarith
    then show "x \<in> (\<lambda>k. (k div 1024, k mod 1024)) ` {k. k * 4096 < l}"
      by (intro image_eqI [of _ _ "i * 1024 + j"]) (simp_all only: e ij mem_Collect_eq)
  qed
  have fin: "finite {i. i * c < l}" if "0 < c" for c :: nat
    by (rule finite_subset [of _ "{..<l}"]) (use that in \<open>auto intro: le_less_trans [rotated]\<close>)
  have "card (page_slots (pmem s) d) \<le> l div 4096 + 1"
    using card_mono [OF _ sub] card_image_le [OF fin, of 4096 "\<lambda>k. (k div 1024, k mod 1024)"] card_multiples [of 4096 l] fin by fastforce
  moreover have "card (dir_slots (pmem s) d) \<le> l div 4194304 + 1"
    using card_mono [OF fin ds] card_multiples [of 4194304 l] by simp
  ultimately show ?thesis by (simp add: card_owned [OF ok])
qed

lemma loaded_add_page:
  assumes L: "loaded s0 mstart d n (k * 4096) s" and k: "k * 4096 < n" "n \<le> 3221221376"
    and B: "building d {} s0 s'" and K: "pde_at (pmem s') d 768 = pde_at (pmem s) d 768"
    and e: "\<And>k'. k' < 786432 \<Longrightarrow> page_pte (pmem s') d k' = (if k' = k then e else page_pte (pmem s) d k')"
    and pe: "present e" and c: "\<forall>off < 4096. pmem s' (pg e) off = image_byte (pmem s0) mstart n (k * 4096 + unat off)"
    and old: "\<forall>g \<in> pages (pmem s) d. pmem s' g = pmem s g" and ds: "dir_slots (pmem s') d \<subseteq> insert (k div 1024) (dir_slots (pmem s) d)"
    and l': "k * 4096 < l'" "l' \<le> k * 4096 + 4096"
  shows "loaded s0 mstart d n l' s'"
proof -
  have lt: "k' * 4096 < l' \<longleftrightarrow> k' = k \<or> k' * 4096 < k * 4096" for k' using l' by auto
  have row: "if k' * 4096 < l'
      then present (page_pte (pmem s') d k') \<and>
        (\<forall>off < 4096. pmem s' (pg (page_pte (pmem s') d k')) off = image_byte (pmem s0) mstart n (k' * 4096 + unat off))
      else \<not> present (page_pte (pmem s') d k')" if k': "k' < 786432" for k'
  proof (cases "k' = k")
    case True
    then show ?thesis using e [OF k'] pe c l' by simp
  next
    case False
    then have "page_pte (pmem s') d k' = page_pte (pmem s) d k'" using e [OF k'] by simp
    moreover have "present (page_pte (pmem s) d k') \<Longrightarrow> pmem s' (pg (page_pte (pmem s) d k')) = pmem s (pg (page_pte (pmem s) d k'))"
      using old page_pte_in_pages [OF k'] by blast
    ultimately show ?thesis using L k' False unfolding lt loaded_def by (auto split: if_splits)
  qed
  have "dir_slots (pmem s') d \<subseteq> {i. i * 4194304 < l'}"
  proof
    fix i assume "i \<in> dir_slots (pmem s') d"
    then consider "i = k div 1024" | "i \<in> dir_slots (pmem s) d" using ds by auto
    then show "i \<in> {i. i * 4194304 < l'}"
    proof cases
      case 1
      have "k div 1024 * 1024 \<le> k" by simp
      then have "i * 4194304 \<le> k * 4096" unfolding 1 by linarith
      with l' show ?thesis by simp
    next
      case 2
      then have "i * 4194304 < k * 4096" using L by (auto simp: loaded_def)
      with l' show ?thesis by simp
    qed
  qed
  moreover have "pde_at (pmem s') d 768 = page_directory s0 ! 768" using K L by (simp add: loaded_def)
  ultimately show ?thesis unfolding loaded_def using B row by (intro conjI allI impI) blast+
qed

lemma phys_byte_kept: "taken F s0 s \<Longrightarrow> pg a \<notin> avail_frames s0 \<Longrightarrow> phys_byte (pmem s) a = phys_byte (pmem s0) a"
  by (simp add: phys_byte_def taken_simps(9))

lemma page_slot_index: "k < 786432 \<Longrightarrow> user (k div 1024) \<and> k mod 1024 < 1024"
  by (auto simp: less_mult_imp_div_less)

lemma page_index_eq: "k div 1024 = k' div 1024 \<and> k mod 1024 = k' mod 1024 \<longleftrightarrow> k = (k' :: nat)"
  by (metis div_mult_mod_eq)

text \<open>One page more, or the frames ran out.\<close>

lemma load_page_cases:
  assumes L: "loaded s0 mstart d n l s" and v: "unat v = k * 4096" "k < 786432" and ab: "\<not> present (page_pte (pmem s) d k)"
    and l: "l \<le> n" "n \<le> 3221221376"
  obtains (none) s' where "pfa_alloc s = Some (0, s)" "destroy_user_space d s = Some s'" "taken {} s0 s'"
      "card (avail_frames s0) < n div 4096 + n div 4194304 + 5"
  | (unmapped) f s1 s2 s' where "pfa_alloc s = Some (f, s1)" "f \<noteq> 0" "map_user_page d v f s1 = Some (-1, s1)" "pfa_free f s1 = Some s2"
      "destroy_user_space d s2 = Some s'" "taken {} s0 s'" "card (avail_frames s0) < n div 4096 + n div 4194304 + 5"
  | (mapped) f s1 s2 where "pfa_alloc s = Some (f, s1)" "f \<noteq> 0" "pg f = f" "map_user_page d v f s1 = Some (0, s2)"
      "building d {} s0 s2" "pde_at (pmem s2) d 768 = pde_at (pmem s) d 768" "f \<in> avail_frames s0" "f \<in> pages (pmem s2) d"
      "\<And>k'. k' < 786432 \<Longrightarrow> page_pte (pmem s2) d k' = (if k' = k then f OR 7 else page_pte (pmem s) d k')"
      "\<forall>g \<in> pages (pmem s) d. g \<noteq> f \<and> pmem s2 g = pmem s g" "dir_slots (pmem s2) d \<subseteq> insert (k div 1024) (dir_slots (pmem s) d)"
proof -
  have B: "building d {} s0 s" using L by (simp add: loaded_def)
  have card: "card (owned (pmem s) d) \<le> n div 4096 + n div 4194304 + 3"
    using loaded_card [OF L] l div_le_mono [OF l(1), of 4096] div_le_mono [OF l(1), of 4194304] by linarith
  have fin: "finite (owned (pmem s) d)" by (simp add: owned_def tables_def pages_def)
  from B show thesis
  proof (cases rule: building_alloc)
    case none
    with taken_destroy [OF B] card that(1) show thesis by auto
  next
    case (frame f s1)
    have ix: "pd_of v = k div 1024" "pt_of v = k mod 1024" using v by (simp_all add: vaddr_index)
    have ki: "unat (drop_bit 22 v) = k div 1024" "unat (drop_bit 12 v AND 0x3FF) = k mod 1024"
      using ix by (simp_all add: pd_of_def pt_of_def)
    have ku: "k div 1024 \<noteq> 768" using page_slot_index [OF v(2)] by simp
    have ab1: "\<not> present (pte_at (pmem s1) d (k div 1024) (k mod 1024))" using ab by (simp add: page_pte_def frame(8))
    show thesis
    proof (rule map_user_page_cases [OF frame(7) _ ki(1) [symmetric] ku ki(2) [symmetric] ab1, of f])
      show "f \<in> {f}" by simp
    next
      assume a: "map_user_page d v f s1 = Some (-1, s1)" "avail_frames s0 = owned (pmem s1) d \<union> {f}"
      obtain s2 where s2: "pfa_free f s1 = Some s2" "building d ({f} - {f}) s0 s2"
        by (rule building_free [OF frame(7), of f]) simp_all
      from taken_destroy [of d "{}" s0 s2] s2 obtain s' where "destroy_user_space d s2 = Some s'" "taken {} s0 s'" by auto
      moreover have "card (avail_frames s0) < n div 4096 + n div 4194304 + 5"
        using card fin frame(5) by (simp add: a(2) frame(8))
      ultimately show thesis using frame(1,2) a(1) s2(1) by (intro that(2)) simp_all
    next
      fix s2 assume a: "map_user_page d v f s1 = Some (0, s2)" "building d ({f} - {f}) s0 s2"
        "pde_at (pmem s2) d 768 = pde_at (pmem s1) d 768"
        "\<And>i j. user i \<Longrightarrow> j < 1024 \<Longrightarrow> pte_at (pmem s2) d i j = (if i = k div 1024 \<and> j = k mod 1024 then f OR 7 else pte_at (pmem s1) d i j)"
        "pages (pmem s2) d = insert f (pages (pmem s1) d)" "\<And>g. g \<in> pages (pmem s1) d \<union> {f} \<Longrightarrow> pmem s2 g = pmem s1 g"
        "dir_slots (pmem s2) d \<subseteq> insert (k div 1024) (dir_slots (pmem s1) d)"
      have "page_pte (pmem s2) d k' = (if k' = k then f OR 7 else page_pte (pmem s) d k')" if "k' < 786432" for k'
        using a(4) page_slot_index [OF that] by (simp add: page_pte_def page_index_eq frame(8))
      moreover have "\<forall>g \<in> pages (pmem s) d. g \<noteq> f \<and> pmem s2 g = pmem s g"
        using a(6) frame(5) by (auto simp: frame(8) owned_def)
      ultimately show thesis
        using frame(1-3,6,8) a by (intro that(3) [of f s1 s2]) simp_all
    qed
  qed
qed

lemma load_step:
  assumes L: "loaded s0 mstart d (unat n) (unat l) s" and l: "l < n" "n \<le> 0xBFFFF000" "unat l mod 4096 = 0"
    and src: "\<forall>v < n. pg (mstart + v) \<notin> avail_frames s0"
    and s2: "building d {} s0 s2" "pde_at (pmem s2) d 768 = pde_at (pmem s) d 768" "f \<in> avail_frames s0" "pg f = f" "f \<in> pages (pmem s2) d"
      "\<And>k. k < 786432 \<Longrightarrow> page_pte (pmem s2) d k = (if k = unat l div 4096 then f OR 7 else page_pte (pmem s) d k)"
      "\<forall>g \<in> pages (pmem s) d. g \<noteq> f \<and> pmem s2 g = pmem s g"
      "dir_slots (pmem s2) d \<subseteq> insert (unat l div 4096 div 1024) (dir_slots (pmem s) d)"
  defines "c \<equiv> min_u32 4096 (n - l)"
  obtains s' where "copy_phys_region_to_frame f (mstart + l) c s2 = Some (0, s')" "loaded s0 mstart d (unat n) (unat (l + c)) s'"
proof -
  let ?k = "unat l div 4096"
  have le: "unat l < unat n" "unat n \<le> 3221221376" using l by (simp_all add: word_less_nat_alt word_le_nat_alt)
  have k: "?k * 4096 = unat l" using l(3) by (simp add: mod_0_imp_dvd)
  have c: "unat c = min 4096 (unat n - unat l)" using l(1) by (simp add: c_def min_u32_nat unat_sub less_imp_le)
  have lc: "unat (l + c) = unat l + unat c" using c le by (subst unat_add_lem [THEN iffD1]) simp_all
  have T: "taken (owned (pmem s2) d) s0 s2" using s2(1) by (simp add: building_def)
  have lo: "unat (l + off) = unat l + unat off" if "off < c" for off
  proof -
    have "unat off < unat c" using that by (simp add: word_less_nat_alt)
    then have "unat l + unat off < 2 ^ 32" using c le by simp
    then show ?thesis by (subst unat_add_lem [THEN iffD1]) simp_all
  qed
  have lon: "l + off < n" if "off < c" for off
    using lo [OF that] that c le by (simp add: word_less_nat_alt) linarith
  have far: "pg (mstart + l + off) \<noteq> pg f" if "off < c" for off
    using src lon [OF that] s2(3,4) by (auto simp: add.assoc)
  let ?c = "\<lambda>off. if off < c then phys_byte (pmem s2) (mstart + l + off) else if off < 4096 then 0 else pmem s2 f off"
  let ?s = "set_page f ?c s2"
  have "c \<le> 4096" using c by (simp add: word_le_nat_alt)
  from copy_phys_region_to_frame_eq [OF taken_simps(2) [OF T] far this, unfolded s2(4)]
  have run: "copy_phys_region_to_frame f (mstart + l) c s2 = Some (0, ?s)" by blast
  note F = building_fill [OF s2(1) disjI2 [OF s2(5)], where p = ?c]
  have same: "page_pte (pmem ?s) d k = page_pte (pmem s2) d k" if "k < 786432" for k
    using F(4) page_slot_index [OF that] unfolding page_pte_def by blast
  have e: "present (f OR 7)" "pg (f OR 7) = f" using flags_or [OF s2(4), of 7] by (simp_all add: present_def)
  have content: "?c off = image_byte (pmem s0) mstart (unat n) (?k * 4096 + unat off)" if off: "off < 4096" for off
  proof (cases "off < c")
    case True
    have a: "of_nat (unat l + unat off) = l + off" by simp
    have b: "unat l + unat off < unat n" using lo [OF True] lon [OF True] by (simp add: word_less_nat_alt)
    have "pg (mstart + (l + off)) \<notin> avail_frames s0" using src lon [OF True] by blast
    from phys_byte_kept [OF T this] True b show ?thesis unfolding image_byte_def k a by (simp add: add.assoc)
  next
    case False
    then have "unat n \<le> unat l + unat off" using c off le by (auto simp: word_less_nat_alt min_def split: if_splits)
    with False off show ?thesis unfolding image_byte_def k by simp
  qed
  have "loaded s0 mstart d (unat n) (unat (l + c)) ?s"
  proof (rule loaded_add_page [where k = ?k and s = s and e = "f OR 7"])
    show "loaded s0 mstart d (unat n) (?k * 4096) s" using L k by simp
    show "?k * 4096 < unat n" "unat n \<le> 3221221376" using le k by simp_all
    show "building d {} s0 ?s" by (rule F(1))
    show "pde_at (pmem ?s) d 768 = pde_at (pmem s) d 768" using F(3) [of 768] s2(2) by simp
    show "page_pte (pmem ?s) d k' = (if k' = ?k then f OR 7 else page_pte (pmem s) d k')" if "k' < 786432" for k'
      unfolding same [OF that] by (rule s2(6) [OF that])
    show "present (f OR 7)" by (rule e)
    show "\<forall>off < 4096. pmem ?s (pg (f OR 7)) off = image_byte (pmem s0) mstart (unat n) (?k * 4096 + unat off)"
      unfolding e using content by simp
    show "\<forall>g \<in> pages (pmem s) d. pmem ?s g = pmem s g" using s2(7) by simp
    show "dir_slots (pmem ?s) d \<subseteq> insert (?k div 1024) (dir_slots (pmem s) d)"
      using s2(8) unfolding dir_slots_def F(3) .
    show "?k * 4096 < unat (l + c)" "unat (l + c) \<le> ?k * 4096 + 4096" unfolding k lc using c le by auto
  qed
  with run that show thesis by blast
qed

lemma load_loop_ok:
  assumes "loaded s0 mstart d (unat n) (unat l) s" and "l \<le> n" "n \<le> 0xBFFFF000" "unat l mod 4096 = 0 \<or> l = n"
    and src: "\<forall>v < n. pg (mstart + v) \<notin> avail_frames s0"
  shows "\<exists>ok s'. load_loop d mstart n l s = Some (ok, s') \<and>
    (if ok then loaded s0 mstart d (unat n) (unat n) s'
     else taken {} s0 s' \<and> card (avail_frames s0) < unat n div 4096 + unat n div 4194304 + 5)"
  using assms(1-4)
proof (induction "unat (n - l)" arbitrary: l s rule: less_induct)
  case less
  note L = less.prems(1) and n = less.prems(3)
  show ?case
  proof (cases "l < n")
    case False
    with less.prems(2) have "l = n" by simp
    with L show ?thesis by (intro exI [of _ True] exI [of _ s]) (simp add: load_loop.simps)
  next
    case True
    let ?c = "min_u32 4096 (n - l)"
    have al: "unat l mod 4096 = 0" using less.prems(4) True by auto
    have nn: "unat l < unat n" "unat n \<le> 3221221376" using True n by (simp_all add: word_less_nat_alt word_le_nat_alt)
    have k: "unat l = unat l div 4096 * 4096" "unat l div 4096 < 786432"
      using al nn by (simp_all add: mod_0_imp_dvd less_mult_imp_div_less)
    have ab: "\<not> present (page_pte (pmem s) d (unat l div 4096))"
      using L k by (auto simp: loaded_def split: if_splits)
    show ?thesis
    proof (rule load_page_cases [OF L k(1,2) ab less_imp_le [OF nn(1)] nn(2)])
      fix s' assume a: "pfa_alloc s = Some (0, s)" "destroy_user_space d s = Some s'" "taken {} s0 s'"
        "card (avail_frames s0) < unat n div 4096 + unat n div 4194304 + 5"
      then have "load_loop d mstart n l s = Some (False, s')" using True by (subst load_loop.simps) simp
      with a(3,4) show ?thesis by auto
    next
      fix f s1 s2 s' assume a: "pfa_alloc s = Some (f, s1)" "f \<noteq> 0" "map_user_page d l f s1 = Some (-1, s1)" "pfa_free f s1 = Some s2"
        "destroy_user_space d s2 = Some s'" "taken {} s0 s'" "card (avail_frames s0) < unat n div 4096 + unat n div 4194304 + 5"
      then have "load_loop d mstart n l s = Some (False, s')" using True by (subst load_loop.simps) simp
      with a(6,7) show ?thesis by auto
    next
      fix f s1 s2 assume a: "pfa_alloc s = Some (f, s1)" "f \<noteq> 0" "pg f = f" "map_user_page d l f s1 = Some (0, s2)"
        "building d {} s0 s2" "pde_at (pmem s2) d 768 = pde_at (pmem s) d 768" "f \<in> avail_frames s0" "f \<in> pages (pmem s2) d"
        "\<And>k'. k' < 786432 \<Longrightarrow> page_pte (pmem s2) d k' = (if k' = unat l div 4096 then f OR 7 else page_pte (pmem s) d k')"
        "\<forall>g \<in> pages (pmem s) d. g \<noteq> f \<and> pmem s2 g = pmem s g"
        "dir_slots (pmem s2) d \<subseteq> insert (unat l div 4096 div 1024) (dir_slots (pmem s) d)"
      obtain s3 where s3: "copy_phys_region_to_frame f (mstart + l) ?c s2 = Some (0, s3)"
        "loaded s0 mstart d (unat n) (unat (l + ?c)) s3"
        by (rule load_step [OF L True n al src a(5,6,7,3,8) a(9-11)])
      have step: "load_loop d mstart n l s = load_loop d mstart n (l + ?c) s3"
        using True a(1,2,4) s3(1) by (subst load_loop.simps) simp
      have c: "unat ?c = min 4096 (unat n - unat l)" using True by (simp add: min_u32_nat unat_sub less_imp_le)
      then have lc: "unat (l + ?c) = unat l + unat ?c" using nn by (subst unat_add_lem [THEN iffD1]) simp_all
      have "\<exists>ok s'. load_loop d mstart n (l + ?c) s3 = Some (ok, s') \<and>
        (if ok then loaded s0 mstart d (unat n) (unat n) s'
         else taken {} s0 s' \<and> card (avail_frames s0) < unat n div 4096 + unat n div 4194304 + 5)"
      proof (rule less.hyps [OF _ s3(2) _ n])
        have "l + ?c \<le> n" using lc c nn by (simp add: word_le_nat_alt)
        then show "l + ?c \<le> n" .
        then show "unat (n - (l + ?c)) < unat (n - l)"
          using lc c nn True by (simp add: unat_sub less_imp_le)
        show "unat (l + ?c) mod 4096 = 0 \<or> l + ?c = n"
          using lc c nn al by (auto simp: word_unat_eq_iff min_def split: if_splits)
      qed
      with step show ?thesis by simp
    qed
  qed
qed

lemma put32_zero: "\<forall>o' < 4096. p o' = 0 \<Longrightarrow> o' < 4096 \<Longrightarrow> put32 p k 0 o' = 0"
  by (simp add: put32_def)

lemma clear_stack_frame:
  assumes "window_closed s"
  obtains z where "do { s \<leftarrow> paging_temp_map f s; s \<leftarrow> win_zero8 s; s \<leftarrow> win_write32 ((PAGE_SIZE - 8) div 4) 0 s;
      s \<leftarrow> win_write32 ((PAGE_SIZE - 8) div 4 + 1) 0 s; paging_temp_unmap s } = Some (set_page (pg f) z s)"
    "\<forall>off < 4096. z off = 0"
proof -
  have i: "(PAGE_SIZE - 8) div 4 = (1022 :: u32)" "(1022 :: u32) + 1 = 1023" by simp_all
  let ?z = "put32 (put32 (zero_page (pmem s (pg f))) (4 * 1022) 0) (4 * 1023) 0"
  have "do { s \<leftarrow> paging_temp_map f s; s \<leftarrow> win_zero8 s; s \<leftarrow> win_write32 1022 0 s;
      s \<leftarrow> win_write32 1023 0 s; paging_temp_unmap s } = Some (set_page (pg f) ?z s)"
    using assms by (simp add: open_window win_zero8_eq win_ops set_page_def)
  moreover have "\<forall>off < 4096. ?z off = 0"
    by (intro allI impI put32_zero) (simp_all add: zero_page_def)
  ultimately show thesis using that [of ?z] unfolding i by blast
qed

text \<open>The image after a run of the loading loop and of \<open>setup_user_stack\<close>.\<close>

definition image_read :: "(u32 \<Rightarrow> page) \<Rightarrow> u32 \<Rightarrow> u32 \<Rightarrow> u32 \<Rightarrow> u8 option" where
  "image_read m mstart n v = (if v < n then Some (phys_byte m (mstart + v))
     else if unat v div 4096 * 4096 < unat n \<or> 0xBFFFF000 \<le> v then Some 0 else None)"

lemma image_reads:
  assumes L: "loaded s0 mstart d (unat n) (unat n) s" and n: "n \<le> 0xBFFFF000"
    and ok: "space_ok (pmem s') d"
    and e: "\<And>k. k < 786432 \<Longrightarrow> page_pte (pmem s') d k = (if k = 786431 then f OR 7 else page_pte (pmem s) d k)"
    and f: "pg f = f" "\<forall>off < 4096. pmem s' f off = 0" and old: "\<forall>g \<in> pages (pmem s) d. pmem s' g = pmem s g"
    and v: "v < 0xC0000000"
  shows "user_read8 v (s'\<lparr>cr3 := d\<rparr>) = image_read (pmem s0) mstart n v"
proof -
  let ?k = "unat v div 4096" and ?o = "v AND 0xFFF"
  have vn: "unat v < 3221225472" "unat n \<le> 3221221376" using v n by (simp_all add: word_less_nat_alt word_le_nat_alt)
  have k: "?k < 786432" using vn(1) by (simp add: less_mult_imp_div_less)
  have o: "?o < 4096" by (rule le_less_trans [OF word_and_le1]) simp
  have ko: "?k * 4096 + unat ?o = unat v" by (simp add: unat_offset)
  have rd: "user_read8 v (s'\<lparr>cr3 := d\<rparr>) = (let e = page_pte (pmem s') d ?k in
    if present e then Some (pmem s' (pg e) ?o) else None)"
    using user_read8_pte [OF ok v] by (simp only: page_pte_vaddr)
  show ?thesis
  proof (cases "?k = 786431")
    case True
    then have "0xBFFFF000 \<le> v" using ko by (simp add: word_le_nat_alt)
    moreover have "\<not> v < n" using calculation n by auto
    ultimately show ?thesis
      using e [OF k] True f o flags_or [OF f(1), of 7] unfolding rd by (simp add: image_read_def present_def)
  next
    case False
    then have "?k < 786431" using k by simp
    then have "\<not> 0xBFFFF000 \<le> v" by (simp add: word_le_nat_alt)
    moreover have "page_pte (pmem s') d ?k = page_pte (pmem s) d ?k" using e [OF k] False by simp
    moreover have "if ?k * 4096 < unat n then present (page_pte (pmem s) d ?k) \<and>
        (\<forall>off < 4096. pmem s (pg (page_pte (pmem s) d ?k)) off = image_byte (pmem s0) mstart (unat n) (?k * 4096 + unat off))
      else \<not> present (page_pte (pmem s) d ?k)" using L k by (simp add: loaded_def)
    moreover have "present (page_pte (pmem s) d ?k) \<Longrightarrow> pmem s' (pg (page_pte (pmem s) d ?k)) = pmem s (pg (page_pte (pmem s) d ?k))"
      using old page_pte_in_pages [OF k] by blast
    moreover have "v < n \<Longrightarrow> ?k * 4096 < unat n" using ko by (simp add: word_less_nat_alt)
    ultimately show ?thesis
      using o ko unfolding rd by (auto simp: image_read_def image_byte_def word_less_nat_alt split: if_splits)
  qed
qed

lemma build_new_image_result:
  assumes "pfa_ok s" and "window_closed s" and "length (page_directory s) = 1024"
    and "mstart < mend" and "mend - mstart \<le> 0xBFFFF000" and "\<forall>v < mend - mstart. pg (mstart + v) \<notin> avail_frames s"
  obtains (none) s' where "build_new_image mstart mend s = Some (None, s')" "taken {} s s'"
      "card (avail_frames s) < unat (mend - mstart) div 4096 + unat (mend - mstart) div 4194304 + 5"
  | (image) d s' where "build_new_image mstart mend s = Some (Some (d, 0, 0xBFFFFFF8), s')" "building d {} s s'"
      "pde_at (pmem s') d 768 = page_directory s ! 768"
      "\<forall>v < 0xC0000000. user_read8 v (s'\<lparr>cr3 := d\<rparr>) = image_read (pmem s) mstart (mend - mstart) v"
  using assms(1-3)
proof (cases rule: create_user_pdt_cases)
  case none
  with less_le_not_le [THEN iffD1, OF assms(4)] show thesis by (intro that(1) [of s] taken_refl assms) (auto simp: build_new_image_def)
next
  case (space d t)
  let ?n = "mend - mstart"
  have d0: "d \<noteq> 0" using building_dir [OF space(2)] by simp
  have start: "build_new_image mstart mend s = do { (ok, s) \<leftarrow> load_loop d mstart ?n 0 t;
      if \<not> ok then Some (None, s)
      else do {
        (user_esp, s) \<leftarrow> setup_user_stack d s;
        case user_esp of
          None \<Rightarrow> do { s \<leftarrow> destroy_user_space d s; Some (None, s) }
        | Some user_esp \<Rightarrow> Some (Some (d, 0, user_esp), s) } }"
    using space(1) d0 less_le_not_le [THEN iffD1, OF assms(4)] by (auto simp: build_new_image_def)
  have ab: "\<not> present (pde_at (pmem t) d i)" if "user i" for i using space(4) that by simp
  then have "dir_slots (pmem t) d = {}" by (auto simp: dir_slots_def)
  moreover have "\<not> present (page_pte (pmem t) d k)" if "k < 786432" for k
    unfolding page_pte_def by (rule pte_absent, rule ab) (use page_slot_index [OF that] in simp)
  ultimately have "loaded s mstart d (unat ?n) (unat (0 :: u32)) t"
    using space(2,4) by (simp add: loaded_def)
  from load_loop_ok [OF this _ assms(5) _ assms(6)] obtain ok s1 where s1: "load_loop d mstart ?n 0 t = Some (ok, s1)"
    "if ok then loaded s mstart d (unat ?n) (unat ?n) s1
     else taken {} s s1 \<and> card (avail_frames s) < unat ?n div 4096 + unat ?n div 4194304 + 5" by auto
  show thesis
  proof (cases ok)
    case False
    with s1 show thesis using start by (intro that(1) [of s1]) auto
  next
    case True
    then have L: "loaded s mstart d (unat ?n) (unat ?n) s1" using s1(2) by simp
    have n: "unat ?n \<le> 3221221376" using assms(5) by (simp add: word_le_nat_alt)
    have ab: "\<not> present (page_pte (pmem s1) d 786431)" using L n by (auto simp: loaded_def split: if_splits)
    have rest: "build_new_image mstart mend s = do {
        (user_esp, s) \<leftarrow> setup_user_stack d s1;
        case user_esp of
          None \<Rightarrow> do { s \<leftarrow> destroy_user_space d s; Some (None, s) }
        | Some user_esp \<Rightarrow> Some (Some (d, 0, user_esp), s) }" unfolding start s1(1) using True by simp
    have va: "unat (0xBFFFF000 :: u32) = 786431 * 4096" by simp
    show thesis
    proof (rule load_page_cases [OF L va _ ab order.refl n])
      fix s' assume a: "pfa_alloc s1 = Some (0, s1)" "destroy_user_space d s1 = Some s'" "taken {} s s'"
        "card (avail_frames s) < unat ?n div 4096 + unat ?n div 4194304 + 5"
      then have "build_new_image mstart mend s = Some (None, s')" unfolding rest by (simp add: setup_user_stack_def)
      with a(3,4) show thesis by (intro that(1))
    next
      fix f s2 s3 s' assume a: "pfa_alloc s1 = Some (f, s2)" "f \<noteq> 0" "map_user_page d 0xBFFFF000 f s2 = Some (-1, s2)" "pfa_free f s2 = Some s3"
        "destroy_user_space d s3 = Some s'" "taken {} s s'" "card (avail_frames s) < unat ?n div 4096 + unat ?n div 4194304 + 5"
      then have "build_new_image mstart mend s = Some (None, s')" unfolding rest by (simp add: setup_user_stack_def)
      with a(6,7) show thesis by (intro that(1))
    next
      fix f s2 s3 assume a: "pfa_alloc s1 = Some (f, s2)" "f \<noteq> 0" "pg f = f" "map_user_page d 0xBFFFF000 f s2 = Some (0, s3)"
        "building d {} s s3" "pde_at (pmem s3) d 768 = pde_at (pmem s1) d 768" "f \<in> avail_frames s" "f \<in> pages (pmem s3) d"
        "\<And>k'. k' < 786432 \<Longrightarrow> page_pte (pmem s3) d k' = (if k' = 786431 then f OR 7 else page_pte (pmem s1) d k')"
        "\<forall>g \<in> pages (pmem s1) d. g \<noteq> f \<and> pmem s3 g = pmem s1 g" "dir_slots (pmem s3) d \<subseteq> insert (786431 div 1024) (dir_slots (pmem s1) d)"
      have wc: "window_closed s3" using a(5) taken_simps(2) by (auto simp: building_def)
      obtain z where z: "do { s \<leftarrow> paging_temp_map f s3; s \<leftarrow> win_zero8 s; s \<leftarrow> win_write32 ((PAGE_SIZE - 8) div 4) 0 s;
          s \<leftarrow> win_write32 ((PAGE_SIZE - 8) div 4 + 1) 0 s; paging_temp_unmap s } = Some (set_page f z s3)" "\<forall>off < 4096. z off = 0"
        by (rule clear_stack_frame [OF wc, of f, unfolded a(3)])
      let ?s = "set_page f z s3"
      have st: "setup_user_stack d s1 = Some (Some 0xBFFFFFF8, ?s)"
        using a(1,2,4) z(1) by (auto simp: setup_user_stack_def bind_eq_Some_conv)
      note F = building_fill [OF a(5) disjI2 [OF a(8)], where p = z]
      have ok: "space_ok (pmem ?s) d" using F(1) by (simp add: building_def)
      have same: "page_pte (pmem ?s) d k = (if k = 786431 then f OR 7 else page_pte (pmem s1) d k)" if "k < 786432" for k
        using F(4) page_slot_index [OF that] a(9) [OF that] unfolding page_pte_def by simp
      have "user_read8 v (?s\<lparr>cr3 := d\<rparr>) = image_read (pmem s) mstart ?n v" if v: "v < 0xC0000000" for v
        by (rule image_reads [OF L assms(5) ok same a(3) _ _ v]) (use z(2) a(10) in simp_all)
      moreover have "pde_at (pmem ?s) d 768 = page_directory s ! 768" using F(3) [of 768] a(6) L by (simp add: loaded_def)
      moreover have "build_new_image mstart mend s = Some (Some (d, 0, 0xBFFFFFF8), ?s)" unfolding rest st by simp
      ultimately show thesis using F(1) by (intro that(2) [of d ?s]) simp_all
    qed simp
  qed
qed

text \<open>
  C13.  What \<open>exec\<close> loads.  For a module of at most 3 GB less a page, none of whose frames is free,
  \<open>build_new_image\<close> returns.  If it returns a directory, the entry point is 0, the user stack pointer is
  8 below the top of the stack page, and user memory is exactly the image: the bytes of the module from
  address 0, zeros up to the end of its last page and in the stack page, and every other address below
  the kernel is unmapped; its frames are all taken from the free ones and nothing outside them has
  changed.  If it fails, the same frames are free as before, and there were fewer of them than the
  image can need.
\<close>

theorem build_new_image_loads:
  assumes "pfa_ok s" and "window_closed s" and "length (page_directory s) = 1024"
    and "mstart < mend" and "mend - mstart \<le> 0xBFFFF000" and "\<forall>v < mend - mstart. pg (mstart + v) \<notin> avail_frames s"
  shows "\<exists>r s'. build_new_image mstart mend s = Some (r, s') \<and>
    (\<forall>f. f \<notin> avail_frames s \<longrightarrow> pmem s' f = pmem s f) \<and>
    (case r of
       None \<Rightarrow> avail_frames s' = avail_frames s \<and>
         card (avail_frames s) < unat (mend - mstart) div 4096 + unat (mend - mstart) div 4194304 + 5
     | Some (d, entry', user_esp) \<Rightarrow> entry' = 0 \<and> user_esp = 0xBFFFFFF8 \<and>
         (\<forall>v < 0xC0000000. user_read8 v (s'\<lparr>cr3 := d\<rparr>) = image_read (pmem s) mstart (mend - mstart) v) \<and>
         pde_at (pmem s') d 768 = page_directory s ! 768 \<and> space_ok (pmem s') d \<and>
         owned (pmem s') d \<subseteq> avail_frames s \<and> avail_frames s' = avail_frames s - owned (pmem s') d)"
  using assms by (cases rule: build_new_image_result) (auto simp: building_def taken_def)

theorem build_new_image_loads_witness:
  "\<exists>d s'. build_new_image 0x3000 0x3005 sample_space = Some (Some (d, 0, 0xBFFFFFF8), s') \<and>
     user_read8 4 (s'\<lparr>cr3 := d\<rparr>) = Some 0x42 \<and> user_read8 5 (s'\<lparr>cr3 := d\<rparr>) = Some 0 \<and> user_read8 0x1000 (s'\<lparr>cr3 := d\<rparr>) = None"
proof -
  have src: "\<forall>v < 0x3005 - 0x3000. pg (0x3000 + v) \<notin> avail_frames sample_space"
  proof (intro allI impI)
    fix v :: u32 assume "v < 0x3005 - 0x3000"
    then have "0x3000 + v < 0x12C000" by (simp add: word_less_nat_alt unat_word_ariths)
    then have "pg (0x3000 + v) < 0x12C000" using word_and_le2 [of "0x3000 + v" "0xFFFFF000"] by (rule le_less_trans [rotated])
    then show "pg (0x3000 + v) \<notin> avail_frames sample_space" by (rule sample_space_facts(7))
  qed
  have "(0x3000 :: u32) < 0x3005" "(0x3005 :: u32) - 0x3000 \<le> 0xBFFFF000" by simp_all
  from build_new_image_loads [OF sample_space_facts(1-3) this src] obtain r s' where r:
    "build_new_image 0x3000 0x3005 sample_space = Some (r, s')" "r \<noteq> None"
    "\<And>d e u. r = Some (d, e, u) \<Longrightarrow> e = 0 \<and> u = 0xBFFFFFF8 \<and>
      (\<forall>v < 0xC0000000. user_read8 v (s'\<lparr>cr3 := d\<rparr>) = image_read (pmem sample_space) 0x3000 5 v)"
    by (fastforce simp: sample_space_facts(6) split: option.splits)
  have "phys_byte (pmem sample_space) (0x3000 + 4) = 0x42" by (simp add: phys_byte_def sample_space_def)
  then have "image_read (pmem sample_space) 0x3000 5 4 = Some 0x42" "image_read (pmem sample_space) 0x3000 5 5 = Some 0"
    "image_read (pmem sample_space) 0x3000 5 0x1000 = None" by (simp_all add: image_read_def)
  with r show ?thesis by (cases r) auto
qed

end
