(* ===== verification/Syscall.thy ===== *)
theory Syscall
  imports Process Space_Image
begin

text \<open>
  The system calls, \<open>src/syscall/syscall.c\<close>: \<open>exec\<close>, \<open>fork\<close>, \<open>yield\<close>, \<open>exit\<close> and the dispatcher that
  \<open>int 0x80\<close> reaches, over the address spaces of the theory \<open>User_Space\<close>, the scheduler, the kernel heap
  and the module loader.
\<close>

subsection \<open>The calls\<close>

text \<open>
  What a call does in the end: it returns a value in \<open>eax\<close>, or the processor is halted for good.  The
  frame, \<open>struct syscall_frame\<close>, has the layout of \<open>struct process_context\<close>.
\<close>

datatype sysret = Returns u32 | Halts

type_synonym syscall_frame = process_context

definition bytes_to_string :: "u8 list \<Rightarrow> string" where
  "bytes_to_string bs = map (\<lambda>b. char_of (unat b)) (takeWhile (\<lambda>b. b \<noteq> 0) bs)"

definition sys_exec :: "syscall_frame \<Rightarrow> 'a modules_scheme \<Rightarrow> (u32 \<times> syscall_frame \<times> 'a modules_scheme) option" where
  "sys_exec frame s = do {
     kernel_path \<leftarrow> copy_user_string (c_ebx frame) 64 s;
     case kernel_path of None \<Rightarrow> Some (-1, frame, s)
     | Some kernel_path \<Rightarrow> do {
         m \<leftarrow> module_loader_find_module_by_path (Some (bytes_to_string kernel_path)) s;
         case m of None \<Rightarrow> Some (-1, frame, serial_line ''[SYSCALL] exec: modulo nao encontrado'' s)
         | Some (mstart, mend) \<Rightarrow> do {
             let pcb = scheduler_get_current s;
             if pcb = 0 then Some (-1, frame, serial_line ''[SYSCALL] exec: processo corrente ausente'' s)
             else do {
               (image, s) \<leftarrow> build_new_image mstart mend s;
               case image of None \<Rightarrow> Some (-1, frame, serial_line ''[SYSCALL] exec: falha ao montar nova imagem'' s)
               | Some (new_pdt, new_entry, new_user_esp) \<Rightarrow> do {
                   c \<leftarrow> pcbs s pcb;
                   let old_pdt = pdt c;
                   s \<leftarrow> pcb_update pcb (\<lambda>c. c\<lparr>pdt := new_pdt, eip := new_entry, esp := new_user_esp, eflags := eflags c OR 0x200,
                          cs := 0x1B, ss := 0x23\<rparr>) s;
                   let s = update_cr3 new_pdt s;
                   s \<leftarrow> destroy_user_space old_pdt s;
                   c \<leftarrow> pcbs s pcb;
                   let frame = frame\<lparr>c_eip := new_entry, c_user_esp := new_user_esp, c_cs := cs c, c_user_ss := ss c,
                          c_eflags := c_eflags frame OR 0x200\<rparr>;
                   s \<leftarrow> pcb_update pcb (\<lambda>c. c\<lparr>state := PROCESS_STATE_READY\<rparr>) s;
                   let s = log_process_stat (pid c) STAT_EVENT_CREATED STAT_CONTEXT_EXEC s;
                   let s = serial_line ''[SYSCALL] exec concluido'' s;
                   Some (0, frame, s) } } } } }"

definition alloc_process_kernel_stack :: "u32 \<Rightarrow> 'a sched_scheme \<Rightarrow> (int \<times> 'a sched_scheme) option" where
  "alloc_process_kernel_stack p s =
     (if p = 0 then Some (-1, s)
      else do {
        (kstack, s) \<leftarrow> kmalloc PROCESS_KERNEL_STACK_SIZE s;
        if kstack = 0 then Some (-1, s)
        else do {
          s \<leftarrow> kheap_clear kstack 4096 s;
          s \<leftarrow> pcb_update p (\<lambda>c. c\<lparr>kernel_stack_base := kstack, kernel_esp0 := kstack + PROCESS_KERNEL_STACK_SIZE - 4\<rparr>) s;
          Some (0, s) } })"

definition save_context_from_syscall_frame :: "syscall_frame \<Rightarrow> process_context" where
  "save_context_from_syscall_frame frame = \<lparr>c_ebp = c_ebp frame, c_edi = c_edi frame, c_esi = c_esi frame, c_edx = c_edx frame,
     c_ecx = c_ecx frame, c_ebx = c_ebx frame, c_eax = c_eax frame, c_eip = c_eip frame, c_cs = c_cs frame,
     c_eflags = c_eflags frame, c_user_esp = c_user_esp frame, c_user_ss = c_user_ss frame\<rparr>"

definition sys_fork :: "syscall_frame \<Rightarrow> 'a sched_scheme \<Rightarrow> (u32 \<times> syscall_frame \<times> 'a sched_scheme) option" where
  "sys_fork frame s = do {
     let parent = scheduler_get_current s;
     if parent = 0 then Some (-1, frame, serial_line ''[SYSCALL] fork: processo corrente ausente'' s)
     else do {
       (child, s) \<leftarrow> kmalloc_pcb s;
       if child = 0 then Some (-1, frame, s)
       else do {
         cp \<leftarrow> pcbs s parent;
         let (child_pid, s) = scheduler_allocate_pid s;
         s \<leftarrow> pcb_update child (\<lambda>_. cp\<lparr>pid := child_pid, ppid := pid cp, state := PROCESS_STATE_READY, kernel_stack_base := 0,
                kernel_esp0 := 0, pdt := 0\<rparr>) s;
         (child_pdt, s) \<leftarrow> clone_user_space (pdt cp) s;
         if child_pdt = 0 then do {
           s \<leftarrow> kfree_pcb child s;
           Some (-1, frame, serial_line ''[SYSCALL] fork: falha ao clonar memoria'' s) }
         else do {
           (r, s) \<leftarrow> alloc_process_kernel_stack child s;
           if r < 0 then do {
             s \<leftarrow> destroy_user_space child_pdt s;
             s \<leftarrow> kfree_pcb child s;
             Some (-1, frame, serial_line ''[SYSCALL] fork: falha ao clonar kstack'' s) }
           else do {
             s \<leftarrow> pcb_update child (\<lambda>c. c\<lparr>pdt := child_pdt, eip := c_eip frame, esp := c_user_esp frame, eflags := c_eflags frame,
                    cs := c_cs frame, ss := c_user_ss frame,
                    pcb_context := (save_context_from_syscall_frame frame)\<lparr>c_eax := 0\<rparr>\<rparr>) s;
             (r, s) \<leftarrow> scheduler_enqueue_ready child s;
             cc \<leftarrow> pcbs s child;
             if r < 0 then do {
               s \<leftarrow> kfree (kernel_stack_base cc) s;
               s \<leftarrow> destroy_user_space child_pdt s;
               s \<leftarrow> kfree_pcb child s;
               Some (-1, frame, serial_line ''[SYSCALL] fork: fila ready cheia'' s) }
             else do {
               let s = log_process_stat (pid cc) STAT_EVENT_CREATED STAT_CONTEXT_FORK s;
               let s = serial_line ''[SYSCALL] fork concluido'' s;
               Some (child_pid, frame, s) } } } } } }"

definition sys_yield :: "syscall_frame \<Rightarrow> 'a sched_scheme \<Rightarrow> (u32 \<times> syscall_frame \<times> 'a sched_scheme) option" where
  "sys_yield frame s = do {
     (r, context, s) \<leftarrow> scheduler_schedule_from_context (Some frame) True STAT_CONTEXT_YIELD s;
     frame \<leftarrow> context;
     if r < 0 then Some (-1, frame, serial_line ''[SYSCALL] yield: falha no scheduler'' s)
     else Some (c_eax frame, frame, s) }"

definition sys_exit :: "syscall_frame \<Rightarrow> 'a sched_scheme \<Rightarrow> (sysret \<times> syscall_frame \<times> 'a sched_scheme) option" where
  "sys_exit frame s = do {
     let current = scheduler_get_current s;
     if current = 0 then Some (Returns (-1), frame, serial_line ''[SYSCALL] exit: processo corrente ausente'' s)
     else do {
       s \<leftarrow> pcb_update current (\<lambda>c. c\<lparr>state := PROCESS_STATE_TERMINATED\<rparr>) s;
       c \<leftarrow> pcbs s current;
       let s = log_process_exit (pid c) s;
       let old_pdt = pdt c;
       (r, context, s) \<leftarrow> scheduler_schedule_from_context (Some frame) False STAT_CONTEXT_EXIT s;
       frame \<leftarrow> context;
       if r > 0 then do {
         s \<leftarrow> destroy_user_space old_pdt s;
         Some (Returns (c_eax frame), frame, s) }
       else Some (Halts, frame, serial_line ''[SYSCALL] exit: sem processos prontos, entrando em idle'' s) } }"

definition syscall_dispatcher :: "u32 \<Rightarrow> syscall_frame \<Rightarrow> 'a modules_scheme \<Rightarrow> (sysret \<times> syscall_frame \<times> 'a modules_scheme) option" where
  "syscall_dispatcher syscall_number frame s = do {
     let s = serial_line ''[SYSCALL] syscall recebida: '' s;
     let s = serial_write_hex syscall_number s;
     if syscall_number = 0 then Some (Returns 0, frame, serial_line ''[SYSCALL] syscall_test chamada!'' s)
     else if syscall_number = 1 then Some (Returns 0, frame, serial_line ''[SYSCALL] syscall_write chamada!'' s)
     else if syscall_number = 2 then do { (r, frame, s) \<leftarrow> sys_exec frame s; Some (Returns r, frame, s) }
     else if syscall_number = 3 then do { (r, frame, s) \<leftarrow> sys_fork frame s; Some (Returns r, frame, s) }
     else if syscall_number = 4 then do { (r, frame, s) \<leftarrow> sys_yield frame s; Some (Returns r, frame, s) }
     else if syscall_number = 5 then sys_exit frame s
     else Some (Returns (-1), frame, serial_line ''[SYSCALL] syscall desconhecida!'' s) }"

text \<open>
  \<open>syscall_handler_128\<close> (\<open>src/interrupts/syscall_handler.s\<close>): the number is the \<open>eax\<close> of the frame, the
  result is stored back there, and \<open>iret\<close> resumes the frame.
\<close>

definition syscall_handler_128 :: "syscall_frame \<Rightarrow> 'a modules_scheme \<Rightarrow> (syscall_frame option \<times> 'a modules_scheme) option" where
  "syscall_handler_128 frame s = do {
     (r, frame, s) \<leftarrow> syscall_dispatcher (c_eax frame) frame s;
     Some (case r of Returns v \<Rightarrow> Some (frame\<lparr>c_eax := v\<rparr>) | Halts \<Rightarrow> None, s) }"

subsection \<open>Scheduling leaves memory alone\<close>

definition same_memory :: "'a sched_scheme \<Rightarrow> 'a sched_scheme \<Rightarrow> bool" where
  "same_memory s s' \<longleftrightarrow> bitmap s' = bitmap s \<and> start_frame s' = start_frame s \<and> total_frames s' = total_frames s \<and>
     page_directory s' = page_directory s \<and> kernel_page_table s' = kernel_page_table s \<and> pmem s' = pmem s \<and> stale s' \<subseteq> stale s \<and>
     hdrs s' = hdrs s \<and> freep s' = freep s \<and> heap_current s' = heap_current s \<and> heap_max s' = heap_max s \<and> base_addr s' = base_addr s \<and>
     sched.more s' = sched.more s"

lemma same_memory_refl [simp]: "same_memory s s"
  by (simp add: same_memory_def)

lemma same_memory_trans: "same_memory s s' \<Longrightarrow> same_memory s' s'' \<Longrightarrow> same_memory s s''"
  by (auto simp: same_memory_def)

lemma same_memory_kept:
  assumes "same_memory s s'"
  shows "pfa_ok s' = pfa_ok s" "avail_frames s' = avail_frames s" "managed_frames s' = managed_frames s"
    "pmem s' = pmem s" "page_directory s' = page_directory s" "window_closed s \<Longrightarrow> window_closed s'"
  using assms by (auto simp: same_memory_def pfa_ok_def avail_frames_def free_frames_def managed_frames_def window_closed_def)

lemma same_memory_upd [simp]:
  "same_memory s (t\<lparr>current_pcb := x1\<rparr>) = same_memory s t" "same_memory s (t\<lparr>pcbs := x2\<rparr>) = same_memory s t"
  "same_memory s (t\<lparr>ready_queue := x3\<rparr>) = same_memory s t" "same_memory s (t\<lparr>ready_head := x4\<rparr>) = same_memory s t"
  "same_memory s (t\<lparr>ready_tail := x5\<rparr>) = same_memory s t" "same_memory s (t\<lparr>ready_len := x6\<rparr>) = same_memory s t"
  "same_memory s (t\<lparr>remaining_ticks := x7\<rparr>) = same_memory s t" "same_memory s (serial_line l t) = same_memory s t"
  "same_memory s (log_process_stat pd ev cid t) = same_memory s t" "same_memory s (log_sjf_pick pd b t) = same_memory s t"
  "same_memory s (log_process_exit pd t) = same_memory s t" "same_memory s (tss_set_kernel_stack e t) = same_memory s t"
  by (simp_all add: same_memory_def serial_line_def log_process_stat_def log_sjf_pick_def log_process_exit_def tss_set_kernel_stack_def)

lemma same_memory_cr3: "same_memory s t \<Longrightarrow> same_memory s (update_cr3 d t)"
  by (simp add: same_memory_def update_cr3_def)

lemma pcb_update_memory: "pcb_update p f t = Some t' \<Longrightarrow> same_memory s t \<Longrightarrow> same_memory s t'"
  by (auto simp: pcb_update_def bind_eq_Some_conv split: option.splits)

lemma enqueue_memory: "scheduler_enqueue_ready p t = Some (r, t') \<Longrightarrow> same_memory s t \<Longrightarrow> same_memory s t'"
  by (auto simp: scheduler_enqueue_ready_def bind_eq_Some_conv split: if_splits)

lemma set_current_memory: "scheduler_set_current p t = Some t' \<Longrightarrow> same_memory s t \<Longrightarrow> same_memory s t'"
  by (auto simp: scheduler_set_current_def split: if_splits dest: pcb_update_memory)

lemma sjf_shift_memory: "sjf_shift i t = Some t' \<Longrightarrow> same_memory s t \<Longrightarrow> same_memory s t'"
  unfolding sjf_shift_def
  by (erule for_range_preserves) (auto simp: bind_eq_Some_conv)

lemma pick_next_memory:
  assumes "scheduler_pick_next t = Some (p, t')" and "same_memory s t"
  shows "same_memory s t'"
proof -
  have "scheduler_dequeue_ready t = Some (p, t') \<Longrightarrow> same_memory s t'"
    using assms(2) by (auto simp: scheduler_dequeue_ready_def bind_eq_Some_conv split: if_splits)
  moreover have "same_memory s t'" if "scheduler_dequeue_sjf t = Some (p, t')"
    using that assms(2) unfolding scheduler_dequeue_sjf_def
    by (auto simp: bind_eq_Some_conv split: if_splits prod.splits dest!: sjf_shift_memory)
  ultimately show ?thesis using assms by (auto simp: scheduler_pick_next_def split: if_splits)
qed

lemma enter_process_memory: "same_memory s t \<Longrightarrow> same_memory s (enter_process cc cn cid t)"
  by (simp add: enter_process_def same_memory_cr3)

lemma switch_memory:
  assumes "switch_to_next cur ctx cid t = Some (r, ctx', t')" and "same_memory s t"
  shows "same_memory s t'"
  using assms unfolding switch_to_next_def
  by (auto simp: bind_eq_Some_conv split: if_splits
      dest!: pick_next_memory pcb_update_memory set_current_memory intro: enter_process_memory)

lemma schedule_memory:
  assumes "scheduler_schedule_from_context (Some c) rq cid s = Some (r, ctx', s')"
  shows "same_memory s s'"
proof -
  let ?cur = "current_pcb s" and ?rr = "scheduling_policy s = POLICY_RR \<and> rq"
  define s0 where "s0 = (if ?rr then s\<lparr>remaining_ticks := quantum_ticks s\<rparr> else s)"
  have m0: "same_memory s s0" by (simp add: s0_def)
  show ?thesis
  proof (cases "?cur = 0 \<or> ?rr \<and> remaining_ticks s > 1")
    case True
    with assms show ?thesis
      by (cases "?cur = 0") (auto simp: scheduler_schedule_from_context_def scheduler_get_current_def)
  next
    case False
    let ?requeue = "\<lambda>s1. if rq then do {
               s \<leftarrow> pcb_update ?cur (scheduler_update_burst_prediction (pit_ticks s1)) s1;
               s \<leftarrow> pcb_update ?cur (\<lambda>c. c\<lparr>state := PROCESS_STATE_READY\<rparr>) s;
               (r, s) \<leftarrow> scheduler_enqueue_ready ?cur s;
               if r < 0 then do {
                 s \<leftarrow> pcb_update ?cur (\<lambda>c. c\<lparr>state := PROCESS_STATE_RUNNING\<rparr>) s;
                 Some (True, s) }
               else Some (False, s) }
             else Some (False, s1)"
    let ?rest = "\<lambda>(full, s2). if full then Some (0, Some c, s2)
         else do { (r, ctx, s) \<leftarrow> switch_to_next ?cur c cid s2; Some (r, Some ctx, s) }"
    have "scheduler_schedule_from_context (Some c) rq cid s = do { s1 \<leftarrow> pcb_update ?cur (save_context c) s0; x \<leftarrow> ?requeue s1; ?rest x }"
    proof -
      have "?cur \<noteq> 0" "\<not> (scheduling_policy s = POLICY_RR \<and> rq \<and> remaining_ticks s > 1)" using False by auto
      then show ?thesis
        unfolding scheduler_schedule_from_context_def scheduler_get_current_def s0_def Let_def option.case by (simp only: if_False)
    qed
    with assms have "do { s1 \<leftarrow> pcb_update ?cur (save_context c) s0; x \<leftarrow> ?requeue s1; ?rest x } = Some (r, ctx', s')" by simp
    then obtain s1 x where s1: "pcb_update ?cur (save_context c) s0 = Some s1" and x: "?requeue s1 = Some x" "?rest x = Some (r, ctx', s')"
      by (elim bind_SomeE) (rule that)
    obtain full s2 where "x = (full, s2)" by (cases x)
    with x have s2: "?requeue s1 = Some (full, s2)" and s3: "?rest (full, s2) = Some (r, ctx', s')" by simp_all
    have "same_memory s s1" by (rule pcb_update_memory [OF s1 m0])
    then have "same_memory s s2"
    proof (cases rq)
      case True
      with s2 obtain t1 t2 q t3 where t: "pcb_update ?cur (scheduler_update_burst_prediction (pit_ticks s1)) s1 = Some t1"
        "pcb_update ?cur (\<lambda>c. c\<lparr>state := PROCESS_STATE_READY\<rparr>) t1 = Some t2" "scheduler_enqueue_ready ?cur t2 = Some (q, t3)"
        "t3 = s2 \<or> pcb_update ?cur (\<lambda>c. c\<lparr>state := PROCESS_STATE_RUNNING\<rparr>) t3 = Some s2"
        by (auto elim!: bind_SomeE split: if_splits)
      then have "same_memory s t3" using \<open>same_memory s s1\<close> enqueue_memory pcb_update_memory by metis
      with t(4) pcb_update_memory show ?thesis by metis
    qed (use s2 in simp)
    then show ?thesis using s3 by (cases full) (auto elim!: bind_SomeE dest: switch_memory)
  qed
qed

definition mem_ok :: "'a paging_scheme \<Rightarrow> bool" where
  "mem_ok s \<longleftrightarrow> pfa_ok s \<and> window_closed s \<and> length (page_directory s) = 1024"

definition own_space :: "u32 \<Rightarrow> 'a paging_scheme \<Rightarrow> bool" where
  "own_space d s \<longleftrightarrow> d \<noteq> 0 \<and> space_ok (pmem s) d \<and> owned (pmem s) d \<inter> avail_frames s = {}"

lemma same_memory_ok: "same_memory s s' \<Longrightarrow> mem_ok s \<Longrightarrow> mem_ok s'"
  using same_memory_kept [of s s'] by (simp add: mem_ok_def)

lemma destroy_own_space:
  assumes "mem_ok s" and "own_space d s"
  obtains bm q where "destroy_user_space d s = Some (s\<lparr>bitmap := bm, pmem := (pmem s)(d := q)\<rparr>)"
    "mem_ok (s\<lparr>bitmap := bm, pmem := (pmem s)(d := q)\<rparr>)"
    "avail_frames (s\<lparr>bitmap := bm\<rparr>) = avail_frames s \<union> (owned (pmem s) d \<inter> managed_frames s)"
proof -
  have o: "pfa_ok s" "window_closed s" "length (page_directory s) = 1024" using assms(1) by (simp_all add: mem_ok_def)
  have d: "d \<noteq> 0" "space_ok (pmem s) d" using assms(2) by (simp_all add: own_space_def)
  from destroy_user_space_frees [OF o(1,2) space_okD(1) [OF d(2)] d(1) space_okD(2) [OF d(2)]] o that show thesis
    by (auto simp: mem_ok_def)
qed

lemma log_process_stat_abs [simp]: "abs_sched (log_process_stat pd ev cid s) = abs_sched s"
  by (simp add: abs_sched_def)

lemma sched_ok_frame:
  "sched_ok s \<Longrightarrow> ready_list s' = ready_list s \<Longrightarrow> rq_ok s' = rq_ok s \<Longrightarrow> dom (pcbs s) \<subseteq> dom (pcbs s') \<Longrightarrow>
   current_pcb s' = current_pcb s \<Longrightarrow> sched_ok s'"
  using queue_ok_frame [of s s'] unfolding sched_ok_def by auto

text \<open>The scheduler's view of a state depends on its own fields, \<open>cr3\<close>, the task state and the tick counter only.\<close>

lemma sched_fields:
  assumes "ready_queue s' = ready_queue s" "ready_head s' = ready_head s" "ready_tail s' = ready_tail s" "ready_len s' = ready_len s"
    and "pcbs s' = pcbs s" "current_pcb s' = current_pcb s"
  shows "ready_list s' = ready_list s" "sched_ok s' = sched_ok s"
    and "scheduling_policy s' = scheduling_policy s \<Longrightarrow> quantum_ticks s' = quantum_ticks s \<Longrightarrow> remaining_ticks s' = remaining_ticks s \<Longrightarrow>
      pit_ticks s' = pit_ticks s \<Longrightarrow> preemption_enabled s' = preemption_enabled s \<Longrightarrow> cr3 s' = cr3 s \<Longrightarrow> tss s' = tss s \<Longrightarrow>
      abs_sched s' = abs_sched s \<and> sched_inv s' = sched_inv s"
proof -
  have "ready_at s' = ready_at s" using assms by (simp add: ready_at_def fun_eq_iff)
  then show l: "ready_list s' = ready_list s" using assms by (simp add: ready_list_def)
  show o: "sched_ok s' = sched_ok s" using assms by (simp add: sched_ok_def queue_ok_def pcbs_valid_def rq_ok_def l)
  show "scheduling_policy s' = scheduling_policy s \<Longrightarrow> quantum_ticks s' = quantum_ticks s \<Longrightarrow> remaining_ticks s' = remaining_ticks s \<Longrightarrow>
      pit_ticks s' = pit_ticks s \<Longrightarrow> preemption_enabled s' = preemption_enabled s \<Longrightarrow> cr3 s' = cr3 s \<Longrightarrow> tss s' = tss s \<Longrightarrow>
      abs_sched s' = abs_sched s \<and> sched_inv s' = sched_inv s"
    using assms by (simp add: abs_sched_def sched_inv_def l o)
qed

lemma memory_sched_frame [simp]:
  "abs_sched (s\<lparr>bitmap := b, pmem := m\<rparr>) = abs_sched s" "ready_list (s\<lparr>bitmap := b, pmem := m\<rparr>) = ready_list s"
  "sched_ok (s\<lparr>bitmap := b, pmem := m\<rparr>) = sched_ok s" "sched_inv (s\<lparr>bitmap := b, pmem := m\<rparr>) = sched_inv s"
  using sched_fields [of "s\<lparr>bitmap := b, pmem := m\<rparr>" s] by simp_all

lemma spec_choice_procs:
  assumes "\<forall>p \<in> set (a_ready a). P p = a_procs a p"
  shows "spec_choice (a\<lparr>a_procs := P\<rparr>) = spec_choice a"
proof -
  have "arg_min_index (burst_key P) (a_ready a) = arg_min_index (burst_key (a_procs a)) (a_ready a)"
    using assms by (intro arg_min_index_cong) (simp add: burst_key_def)
  then show ?thesis by (simp add: spec_choice_def)
qed

lemma spec_exit:
  assumes "spec_schedule ctx False a = (r, ctx', a')" and "a_current a \<noteq> 0" "a_ready a \<noteq> []" "a_current a \<notin> set (a_ready a)"
    and "a_procs a (a_current a) = Some c"
  shows "r = 1" "a_procs a' (a_current a) = Some (save_context ctx c)" "a_current a' \<in> set (a_ready a)"
    "a_current a' = a_ready a ! spec_choice a" "a_ready a' = take (spec_choice a) (a_ready a) @ drop (Suc (spec_choice a)) (a_ready a)"
proof -
  let ?b = "a\<lparr>a_procs := (a_procs a)(a_current a \<mapsto> save_context ctx c)\<rparr>"
  have k: "spec_choice ?b < length (a_ready a)" using spec_choice_less [of ?b] assms(3) by simp
  then have m: "a_ready a ! spec_choice ?b \<in> set (a_ready a)" by simp
  then have "a_ready a ! spec_choice ?b \<noteq> a_current a" using assms(4) by metis
  moreover have "spec_switch ctx ?b = (r, ctx', a')"
    using assms(1,2,5) by (simp add: spec_schedule_def outgoing_def)
  moreover have "spec_choice ?b = spec_choice a" using assms(4) by (intro spec_choice_procs) auto
  ultimately show "r = 1" "a_procs a' (a_current a) = Some (save_context ctx c)" "a_current a' \<in> set (a_ready a)"
    "a_current a' = a_ready a ! spec_choice a" "a_ready a' = take (spec_choice a) (a_ready a) @ drop (Suc (spec_choice a)) (a_ready a)"
    using assms(3) m by (auto simp: spec_switch_def)
qed

lemma sys_exit_result:
  assumes "sched_at b s" and "ready_list s \<noteq> []" and "mem_ok s"
    and "pcbs s (current_pcb s) = Some c" and "own_space (pdt c) s"
  shows "\<exists>frame' s'. sys_exit frame s = Some (Returns (c_eax frame'), frame', s') \<and> sched_inv s' \<and>
    current_pcb s' = ready_list s ! chosen_index s \<and>
    ready_list s' = take (chosen_index s) (ready_list s) @ drop (Suc (chosen_index s)) (ready_list s) \<and>
    (\<exists>n. pcbs s (current_pcb s') = Some n \<and> cr3 s' = pdt n \<and> frame' = resume_context n) \<and>
    mset (current_pcb s' # ready_list s') = mset (ready_list s) \<and>
    (\<exists>n. pcbs s' (current_pcb s') = Some n \<and> cr3 s' = pdt n \<and>
       frame' = (pcb_context n)\<lparr>c_eflags := c_eflags (pcb_context n) OR 0x200\<rparr>) \<and>
    (\<exists>e. pcbs s' (current_pcb s) = Some e \<and> state e = PROCESS_STATE_TERMINATED) \<and> mem_ok s' \<and>
    avail_frames s' = avail_frames s \<union> (owned (pmem s) (pdt c) \<inter> managed_frames s) \<and>
    (\<forall>f. f \<noteq> pdt c \<longrightarrow> pmem s' f = pmem s f) \<and>
    (\<forall>p. map_option pdt (pcbs s' p) = map_option pdt (pcbs s p)) \<and>
    (\<exists>s1 bm q. same_memory s s1 \<and> s' = s1\<lparr>bitmap := bm, pmem := (pmem s)(pdt c := q)\<rparr>)"
proof -
  let ?cur = "current_pcb s" and ?e = "c\<lparr>state := PROCESS_STATE_TERMINATED\<rparr>"
  define t where "t = log_process_exit (pid c) (s\<lparr>pcbs := (pcbs s)(?cur \<mapsto> ?e)\<rparr>)"
  have cur: "?cur \<noteq> 0" "sched_ok s" "asched_inv (abs_sched s)" using assms(1) by (simp_all add: sched_at_def)
  have tf: "pcbs t = (pcbs s)(?cur \<mapsto> ?e)" "current_pcb t = ?cur" "ready_list t = ready_list s"
    "abs_sched t = (abs_sched s)\<lparr>a_procs := (pcbs s)(?cur \<mapsto> ?e)\<rparr>"
    by (simp_all add: t_def log_process_exit_def)
  have tm: "same_memory s t" by (simp add: t_def)
  have "rq_ok t = rq_ok s" unfolding t_def log_process_exit_def log_process_stat_frame by (simp add: rq_ok_def)
  then have tok: "sched_ok t" using cur(2) by (intro sched_ok_frame [of s t]) (auto simp: tf)
  obtain r frame' s1 where s1: "scheduler_schedule_from_context (Some frame) False STAT_CONTEXT_EXIT t = Some (r, Some frame', s1)"
    "sched_ok s1" "spec_schedule frame False (abs_sched t) = (r, frame', abs_sched s1)"
    using schedule_refines [OF tok] by blast
  have cr: "?cur \<notin> set (ready_list s)" using cur(3) by (simp add: asched_inv_def)
  have inv: "asched_inv (abs_sched t)"
    using cur(3) cr assms(4) by (auto simp: tf asched_inv_def ready_entries_def space_inv_def)
  have sc: "spec_choice (abs_sched t) = chosen_index s"
    unfolding tf(4) using cr by (subst spec_choice_procs) (auto simp: spec_choice_abs)
  have ex: "r = 1" "pcbs s1 ?cur = Some (save_context frame ?e)" "current_pcb s1 \<in> set (ready_list s)"
    "current_pcb s1 = ready_list s ! chosen_index s"
    "ready_list s1 = take (chosen_index s) (ready_list s) @ drop (Suc (chosen_index s)) (ready_list s)"
    using spec_exit [OF s1(3), of ?e] cur(1) cr assms(2) by (simp_all add: tf sc [unfolded tf(4)])
  have i1: "asched_inv (abs_sched s1)" "running (abs_sched s1)"
    using spec_schedule_inv [OF inv _ _ s1(3)] cur(1) by (simp_all add: tf)
  have "0 \<notin> set (ready_list s)" using cur(3) by (auto simp: asched_inv_def ready_entries_def)
  then have inv1: "sched_inv s1" using i1 s1(2) ex(3) by (auto simp: sched_inv_def)
  have ms: "mset (current_pcb s1 # ready_list s1) = mset (ready_list s)"
    using spec_schedule_mset(2) [OF s1(3)] cur(1) assms(2) by (simp add: tf)
  obtain n where n: "pcbs s1 (current_pcb s1) = Some n" "frame' = resumed n"
    using spec_schedule_switched(1) [OF s1(3) ex(1)] by auto
  have cr3: "cr3 s1 = pdt n" using i1(1) n(1) by (auto simp: asched_inv_def space_inv_def)
  have dom: "a_current (abs_sched t) \<in> dom (a_procs (abs_sched t))" "set (a_ready (abs_sched t)) \<subseteq> dom (a_procs (abs_sched t))"
    using inv by (auto simp: asched_inv_def ready_entries_def space_inv_def)
  have pd: "map_option pdt (pcbs s1 p) = map_option pdt (pcbs s p)" for p
    using spec_schedule_pdt [OF s1(3) dom, of p] assms(4) by (simp add: tf split: if_splits)
  have other: "current_pcb s1 \<noteq> ?cur" using ex(3) cr by metis
  then obtain m where m: "pcbs s (current_pcb s1) = Some m" "frame' = resume_context m"
    using spec_schedule_resumes(1) [OF s1(3) ex(1) dom(2)] by (auto simp: tf)
  moreover have "cr3 s1 = pdt m" using pd [of "current_pcb s1"] n(1) m(1) cr3 by simp
  ultimately have res: "\<exists>n. pcbs s (current_pcb s1) = Some n \<and> cr3 s1 = pdt n \<and> frame' = resume_context n" by blast
  have m1: "same_memory s s1" by (rule same_memory_trans [OF tm schedule_memory [OF s1(1)]])
  note k = same_memory_kept [OF m1]
  have "own_space (pdt c) s1" using assms(5) by (simp add: own_space_def k)
  from destroy_own_space [OF same_memory_ok [OF m1 assms(3)] this, unfolded k] obtain bm q where d:
    "destroy_user_space (pdt c) s1 = Some (s1\<lparr>bitmap := bm, pmem := (pmem s)(pdt c := q)\<rparr>)"
    "mem_ok (s1\<lparr>bitmap := bm, pmem := (pmem s)(pdt c := q)\<rparr>)"
    "avail_frames (s1\<lparr>bitmap := bm\<rparr>) = avail_frames s \<union> (owned (pmem s) (pdt c) \<inter> managed_frames s)" by blast
  let ?s = "s1\<lparr>bitmap := bm, pmem := (pmem s)(pdt c := q)\<rparr>"
  have "sys_exit frame s = Some (Returns (c_eax frame'), frame', ?s)"
    using cur(1) assms(4) s1(1) ex(1) d(1) by (simp add: sys_exit_def scheduler_get_current_def t_def)
  moreover have "state (save_context frame ?e) = PROCESS_STATE_TERMINATED" by (simp add: save_context_def)
  moreover note pd
  moreover have "\<exists>s1 bm q. same_memory s s1 \<and> ?s = s1\<lparr>bitmap := bm, pmem := (pmem s)(pdt c := q)\<rparr>" using m1 by blast
  ultimately show ?thesis
    using inv1 ms n cr3 ex(2,4,5) res d(2,3)
    by (intro exI [of _ frame'] exI [of _ ?s]) (simp add: resumed_def)
qed

text \<open>
  C11.  \<open>exit\<close> while another process waits.  The call returns into the process that the policy picks, with
  the registers that were saved for it before the call and its page directory loaded; the process that ended is TERMINATED and is
  neither running nor waiting, everyone else still is, the scheduling invariant holds, and the free
  frames grow by exactly the frames of its address space; no other page of memory changes.
\<close>

theorem sys_exit_ends_process:
  assumes "sched_inv s" and "ready_list s \<noteq> []" and "mem_ok s"
    and "pcbs s (current_pcb s) = Some c" and "own_space (pdt c) s"
  shows "\<exists>frame' s'. sys_exit frame s = Some (Returns (c_eax frame'), frame', s') \<and> sched_inv s' \<and>
    current_pcb s' = ready_list s ! chosen_index s \<and>
    (\<exists>n. pcbs s (current_pcb s') = Some n \<and> cr3 s' = pdt n \<and> frame' = resume_context n) \<and>
    mset (current_pcb s' # ready_list s') = mset (ready_list s) \<and>
    (\<exists>n. pcbs s' (current_pcb s') = Some n \<and> cr3 s' = pdt n \<and>
       frame' = (pcb_context n)\<lparr>c_eflags := c_eflags (pcb_context n) OR 0x200\<rparr>) \<and>
    (\<exists>e. pcbs s' (current_pcb s) = Some e \<and> state e = PROCESS_STATE_TERMINATED) \<and> mem_ok s' \<and>
    avail_frames s' = avail_frames s \<union> (owned (pmem s) (pdt c) \<inter> managed_frames s) \<and>
    (\<forall>f. f \<noteq> pdt c \<longrightarrow> pmem s' f = pmem s f)"
  using sys_exit_result [of True s c frame] assms by (simp, blast)

lemma user_read8_cong:
  assumes "space_ok (pmem s) d" and "\<forall>f \<in> owned (pmem s) d. pmem s' f = pmem s f" and "v < 0xC0000000"
  shows "user_read8 v (s'\<lparr>cr3 := d\<rparr>) = user_read8 v (s\<lparr>cr3 := d\<rparr>)"
proof -
  have m: "pmem s' (pg d) = pmem s (pg d)" "\<forall>f \<in> tables (pmem s) d. pmem s' f = pmem s f"
    using assms(2) by (auto simp: owned_def)
  note c = space_cong [of "pmem s'" d "pmem s", OF m]
  note u = user_vaddr [OF assms(3)]
  let ?e = "pte_at (pmem s) d (pd_of v) (pt_of v)"
  have "present ?e \<Longrightarrow> pmem s' (pg ?e) = pmem s (pg ?e)"
    using assms(2) pages_slot [OF u(2,3)] by (auto simp: owned_def)
  moreover have "pte_at (pmem s') d (pd_of v) (pt_of v) = ?e" using c(2) u(2) by simp
  moreover have "space_ok (pmem s') d" using c(4) assms(1) by simp
  ultimately show ?thesis
    by (simp add: user_read8_pte [OF assms(1,3)] user_read8_pte [OF \<open>space_ok (pmem s') d\<close> assms(3)])
qed

lemma taken_fields:
  assumes "taken F s t"
  obtains b m where "t = s\<lparr>bitmap := b, pmem := m\<rparr>"
  using assms by (auto simp: taken_def)

text \<open>What \<open>exec\<close> may change.\<close>

definition exec_frame :: "'a modules_scheme \<Rightarrow> 'a modules_scheme \<Rightarrow> bool" where
  "exec_frame s s' \<longleftrightarrow> (\<exists>b m P d S l. S \<subseteq> stale s \<and> s' = s\<lparr>bitmap := b, pmem := m, pcbs := P, cr3 := d, stale := S, serial_log := l\<rparr>)"

lemma sys_exec_effect:
  assumes "mem_ok s" and "current_pcb s \<noteq> 0" "pcbs s (current_pcb s) = Some c" "own_space (pdt c) s"
    and "copy_user_string (c_ebx frame) 64 s = Some (Some path)"
    and "module_loader_find_module_by_path (Some (bytes_to_string path)) s = Some (Some (mstart, mend))"
    and "mstart < mend" "mend - mstart \<le> 0xBFFFF000" "\<forall>v < mend - mstart. pg (mstart + v) \<notin> avail_frames s"
  shows "\<exists>r frame' s'. sys_exec frame s = Some (r, frame', s') \<and> mem_ok s' \<and> exec_frame s s' \<and>
    (if r = 0 then
       (\<forall>v < 0xC0000000. user_read8 v s' = image_read (pmem s) mstart (mend - mstart) v) \<and>
       own_space (cr3 s') s' \<and> owned (pmem s') (cr3 s') \<subseteq> avail_frames s \<and>
       avail_frames s' = avail_frames s - owned (pmem s') (cr3 s') \<union> (owned (pmem s) (pdt c) \<inter> managed_frames s) \<and>
       frame' = frame\<lparr>c_eip := 0, c_user_esp := 0xBFFFFFF8, c_cs := 0x1B, c_user_ss := 0x23, c_eflags := c_eflags frame OR 0x200\<rparr> \<and>
       pcbs s' = (pcbs s)(current_pcb s \<mapsto> c\<lparr>pdt := cr3 s', eip := 0, esp := 0xBFFFFFF8, eflags := eflags c OR 0x200,
          cs := 0x1B, ss := 0x23, state := PROCESS_STATE_READY\<rparr>) \<and>
       (\<forall>f. f \<notin> avail_frames s \<longrightarrow> f \<noteq> pdt c \<longrightarrow> pmem s' f = pmem s f) \<and> pde_at (pmem s') (cr3 s') 768 = page_directory s ! 768
     else r = -1 \<and> frame' = frame \<and> cr3 s' = cr3 s \<and> pcbs s' = pcbs s \<and> avail_frames s' = avail_frames s \<and>
       (\<forall>f. f \<notin> avail_frames s \<longrightarrow> pmem s' f = pmem s f) \<and>
       card (avail_frames s) < unat (mend - mstart) div 4096 + unat (mend - mstart) div 4194304 + 5)"
proof -
  have o: "pfa_ok s" "window_closed s" "length (page_directory s) = 1024" using assms(1) by (simp_all add: mem_ok_def)
  have old: "pdt c \<noteq> 0" "space_ok (pmem s) (pdt c)" "owned (pmem s) (pdt c) \<inter> avail_frames s = {}"
    using assms(4) by (simp_all add: own_space_def)
  show ?thesis
    using o assms(7-9)
  proof (cases rule: build_new_image_result)
    case (none s1)
    obtain b m where s1: "s1 = s\<lparr>bitmap := b, pmem := m\<rparr>" by (rule taken_fields [OF none(2)])
    let ?s = "serial_line ''[SYSCALL] exec: falha ao montar nova imagem'' s1"
    have run: "sys_exec frame s = Some (-1, frame, ?s)"
      using assms(2,5,6) none(1) by (simp add: sys_exec_def scheduler_get_current_def)
    have "same_memory s1 ?s" by simp
    note k = same_memory_kept [OF this]
    have "cr3 ?s = cr3 s" "pcbs ?s = pcbs s" by (simp_all add: s1 serial_line_def)
    moreover have "mem_ok ?s" using taken_simps(1,2,4) [OF none(2)] o(3) by (simp add: mem_ok_def k)
    moreover have "exec_frame s ?s" unfolding exec_frame_def
      by (intro exI [of _ b] exI [of _ m] exI [of _ "pcbs s"] exI [of _ "cr3 s"] exI [of _ "stale s"] exI [of _ "serial_log ?s"])
        (simp add: s1 serial_line_def)
    ultimately show ?thesis
      using none(2,3) run by (intro exI [of _ "-1"] exI [of _ frame] exI [of _ ?s]) (simp add: k taken_def)
  next
    case (image d s1)
    have T: "taken (owned (pmem s1) d) s s1" and ok: "space_ok (pmem s1) d" using image(2) by (simp_all add: building_def)
    note T' = taken_simps [OF T]
    obtain b m where s1: "s1 = s\<lparr>bitmap := b, pmem := m\<rparr>" by (rule taken_fields [OF T])
    let ?c = "c\<lparr>pdt := d, eip := 0, esp := 0xBFFFFFF8, eflags := eflags c OR 0x200, cs := 0x1B, ss := 0x23\<rparr>"
    let ?s2 = "update_cr3 d (s1\<lparr>pcbs := (pcbs s)(current_pcb s \<mapsto> ?c)\<rparr>)"
    have m2: "same_memory s1 ?s2" by (intro same_memory_cr3) simp
    note k2 = same_memory_kept [OF m2]
    have "mem_ok s1" using T' o(3) by (simp add: mem_ok_def)
    then have ok2: "mem_ok ?s2" by (rule same_memory_ok [OF m2])
    note K = taken_keeps_space [OF T old(2,3)]
    have own2: "own_space (pdt c) ?s2"
      using old K(3,4) T'(7) unfolding own_space_def k2 by auto
    obtain bm q where ds: "destroy_user_space (pdt c) ?s2 = Some (?s2\<lparr>bitmap := bm, pmem := (pmem s1)(pdt c := q)\<rparr>)"
      "mem_ok (?s2\<lparr>bitmap := bm, pmem := (pmem s1)(pdt c := q)\<rparr>)"
      "avail_frames (?s2\<lparr>bitmap := bm\<rparr>) = avail_frames s1 \<union> (owned (pmem s) (pdt c) \<inter> managed_frames s1)"
      by (rule destroy_own_space [OF ok2 own2, unfolded k2 K(3)])
    let ?s3 = "?s2\<lparr>bitmap := bm, pmem := (pmem s1)(pdt c := q)\<rparr>"
    let ?fc = "?c\<lparr>state := PROCESS_STATE_READY\<rparr>"
    let ?s4 = "serial_line ''[SYSCALL] exec concluido'' (log_process_stat (pid c) STAT_EVENT_CREATED STAT_CONTEXT_EXEC
      (?s3\<lparr>pcbs := (pcbs s)(current_pcb s \<mapsto> ?fc)\<rparr>))"
    let ?frame = "frame\<lparr>c_eip := 0, c_user_esp := 0xBFFFFFF8, c_cs := 0x1B, c_user_ss := 0x23, c_eflags := c_eflags frame OR 0x200\<rparr>"
    have p1: "pcbs s1 = pcbs s" by (simp add: s1)
    have run: "sys_exec frame s = Some (0, ?frame, ?s4)"
      using assms(2,3,5,6) image(1) ds(1) by (simp add: sys_exec_def scheduler_get_current_def p1 update_cr3_def)
    have m4: "same_memory ?s3 ?s4" by simp
    note k4 = same_memory_kept [OF m4] and mo4 = same_memory_ok [OF m4 ds(2)]
    have ef: "exec_frame s ?s4" unfolding exec_frame_def
      by (intro exI [of _ bm] exI [of _ "(pmem s1)(pdt c := q)"] exI [of _ "(pcbs s)(current_pcb s \<mapsto> ?fc)"] exI [of _ d] exI [of _ "{}"]
          exI [of _ "serial_log ?s4"]) (simp add: s1 serial_line_def update_cr3_def log_process_stat_def)
    have f4: "cr3 ?s4 = d" "pcbs ?s4 = (pcbs s)(current_pcb s \<mapsto> ?fc)" by (simp_all add: serial_line_def update_cr3_def)
    have od: "pdt c \<in> owned (pmem s) (pdt c)" using space_okD(1) [OF old(2)] by (simp add: owned_def)
    then have far: "pdt c \<notin> owned (pmem s1) d" using old(3) T'(8) by auto
    have agree: "\<forall>f \<in> owned (pmem s1) d. pmem ?s4 f = pmem s1 f" using far by (auto simp: k4)
    have m: "pmem ?s4 (pg d) = pmem s1 (pg d)" "\<forall>f \<in> tables (pmem s1) d. pmem ?s4 f = pmem s1 f"
      using agree by (auto simp: owned_def)
    note c4 = space_cong [of "pmem ?s4" d "pmem s1", OF m]
    have "user_read8 v ?s4 = image_read (pmem s) mstart (mend - mstart) v" if v: "v < 0xC0000000" for v
    proof -
      have "?s4\<lparr>cr3 := d\<rparr> = ?s4" by (simp add: serial_line_def log_process_stat_def update_cr3_def)
      with user_read8_cong [OF ok agree v] image(4) v show ?thesis by simp
    qed
    moreover have av: "avail_frames ?s4 = avail_frames s - owned (pmem ?s4) d \<union> (owned (pmem s) (pdt c) \<inter> managed_frames s)"
      unfolding c4(3) k4(2) using ds(3) T'(7) T by (simp add: taken_def)
    moreover have "own_space d ?s4"
      using c4 ok av old(3) T'(8) building_dir [OF image(2)] by (auto simp: own_space_def)
    moreover have "\<forall>f. f \<notin> avail_frames s \<longrightarrow> f \<noteq> pdt c \<longrightarrow> pmem ?s4 f = pmem s f" using T'(9) by (simp add: k4)
    moreover have "pde_at (pmem ?s4) d 768 = page_directory s ! 768" using m(1) image(3) by (simp add: pde_at_def)
    ultimately show ?thesis
      using run T'(8) c4(3) f4 mo4 ef by (intro exI [of _ 0] exI [of _ ?frame] exI [of _ ?s4]) simp
  qed
qed

text \<open>
  C10.  \<open>exec\<close>.  For a module that is found, the call returns.  On success user memory, as the processor
  sees it, is exactly the image of the module; the frame returns to its first instruction with the new
  stack, in user mode with interrupts on; the control block agrees with it; the new space is made of
  frames that were free, has the kernel's entry, and the old one has been given back.  The process is left marked READY although
  it is the one that runs.  On failure the result is -1, and the frame, the control blocks, the page
  directory in use, the free frames and every page in use are as before; this happens only when there
  were fewer free frames than the image can need.
\<close>

theorem sys_exec_replaces_image:
  assumes "mem_ok s" and "current_pcb s \<noteq> 0" "pcbs s (current_pcb s) = Some c" "own_space (pdt c) s"
    and "copy_user_string (c_ebx frame) 64 s = Some (Some path)"
    and "module_loader_find_module_by_path (Some (bytes_to_string path)) s = Some (Some (mstart, mend))"
    and "mstart < mend" "mend - mstart \<le> 0xBFFFF000" "\<forall>v < mend - mstart. pg (mstart + v) \<notin> avail_frames s"
  shows "\<exists>r frame' s'. sys_exec frame s = Some (r, frame', s') \<and>
    (if r = 0 then
       (\<forall>v < 0xC0000000. user_read8 v s' = image_read (pmem s) mstart (mend - mstart) v) \<and>
       own_space (cr3 s') s' \<and> owned (pmem s') (cr3 s') \<subseteq> avail_frames s \<and>
       avail_frames s' = avail_frames s - owned (pmem s') (cr3 s') \<union> (owned (pmem s) (pdt c) \<inter> managed_frames s) \<and>
       frame' = frame\<lparr>c_eip := 0, c_user_esp := 0xBFFFFFF8, c_cs := 0x1B, c_user_ss := 0x23, c_eflags := c_eflags frame OR 0x200\<rparr> \<and>
       pcbs s' = (pcbs s)(current_pcb s \<mapsto> c\<lparr>pdt := cr3 s', eip := 0, esp := 0xBFFFFFF8, eflags := eflags c OR 0x200,
          cs := 0x1B, ss := 0x23, state := PROCESS_STATE_READY\<rparr>) \<and>
       (\<forall>f. f \<notin> avail_frames s \<longrightarrow> f \<noteq> pdt c \<longrightarrow> pmem s' f = pmem s f) \<and> pde_at (pmem s') (cr3 s') 768 = page_directory s ! 768
     else r = -1 \<and> frame' = frame \<and> cr3 s' = cr3 s \<and> pcbs s' = pcbs s \<and> avail_frames s' = avail_frames s \<and>
       (\<forall>f. f \<notin> avail_frames s \<longrightarrow> pmem s' f = pmem s f) \<and>
       card (avail_frames s) < unat (mend - mstart) div 4096 + unat (mend - mstart) div 4194304 + 5)"
  using sys_exec_effect [OF assms] by blast

definition sample_exec :: modules where
  "sample_exec = sample_modules\<lparr>bitmap := (replicate 2048 0)[64 := 7], page_directory := replicate 1024 0,
     kernel_page_table := replicate 1024 0, pmem := (\<lambda>_ _. 0)(0x200000 := put32 (\<lambda>_. 0) 0 0x201007,
       0x201000 := put32 (\<lambda>_. 0) 0 0x202007, 0x202000 := (\<lambda>off. if off = 0x10 then 0x6D else 0), 0x1000 := (\<lambda>_. 0x42)),
     loaded_modules := [\<lparr>mod_start = 0x1000, mod_end = 0x1005, cmdline = ''m'' @ [NUL]\<rparr>], loaded_modules_count := 1\<rparr>"

lemma sample_exec_facts:
  "mem_ok sample_exec" "sched_inv sample_exec" "ready_list sample_exec \<noteq> []" "current_pcb sample_exec = 0x1000"
  "pcbs sample_exec 0x1000 = Some (sample_pcb 1 1 3)" "own_space 0x200000 sample_exec"
  "owned (pmem sample_exec) 0x200000 = {0x200000, 0x201000, 0x202000}"
  "cr3 sample_exec = 0x200000" "f < 0x12C000 \<Longrightarrow> f \<notin> avail_frames sample_exec" "5 \<le> card (avail_frames sample_exec)" "pte_at (pmem sample_exec) 0x200000 0 0 = 0x202007"
proof -
  show p: "current_pcb sample_exec = 0x1000" "pcbs sample_exec 0x1000 = Some (sample_pcb 1 1 3)" "cr3 sample_exec = 0x200000"
    by (simp_all add: sample_exec_def sample_modules_def sample_state_def)
  have "ready_list sample_exec = ready_list sample_modules \<and> sched_inv sample_exec = sched_inv sample_modules"
    using sched_fields [of sample_exec sample_modules] by (simp add: sample_exec_def)
  then show "ready_list sample_exec \<noteq> []" "sched_inv sample_exec" by (simp_all add: sample_modules_def)
  show mo: "mem_ok sample_exec"
    by (simp add: mem_ok_def pfa_ok_def window_closed_def sample_exec_def sample_modules_def sample_state_def)
  have sp: "space_ok (pmem sample_exec) 0x200000" "owned (pmem sample_exec) 0x200000 = {0x200000, 0x201000, 0x202000}"
    "pte_at (pmem sample_exec) 0x200000 0 0 = 0x202007"
    by (rule one_page_space [where ?e1.0 = "0x201007" and ?e2.0 = "0x202007" and t = "0x201000" and f = "0x202000"]; simp add: sample_exec_def present_def)+
  then show "owned (pmem sample_exec) 0x200000 = {0x200000, 0x201000, 0x202000}" "pte_at (pmem sample_exec) 0x200000 0 0 = 0x202007" by simp_all
  have av: "\<exists>k \<ge> 300. unat f = k * 4096 \<and> k \<noteq> 512 \<and> k \<noteq> 513 \<and> k \<noteq> 514" if "f \<in> avail_frames sample_exec" for f
  proof -
    from that obtain k where k: "f = of_nat k * 4096" "300 \<le> k" "k < 16384" "\<not> used (bitmap sample_exec) k"
      by (auto simp: avail_frames_def free_frames_def sample_exec_def sample_modules_def sample_state_def)
    have "unat f = k * 4096" using k by (simp add: unat_frame_addr)
    moreover have "used (bitmap sample_exec) 512" "used (bitmap sample_exec) 513" "used (bitmap sample_exec) 514"
      by (simp_all add: used_def sample_exec_def bit_simps)
    ultimately show ?thesis using k by metis
  qed
  have "k \<in> {300..<305} \<Longrightarrow> \<not> used (bitmap sample_exec) k" for k by (auto simp: used_def sample_exec_def)
  then have "{300..<305} \<subseteq> free_frames sample_exec"
    by (auto simp: free_frames_def) (simp_all add: sample_exec_def sample_modules_def sample_state_def)
  from card_mono [OF _ this] show "5 \<le> card (avail_frames sample_exec)"
    using mo card_avail_frames [of sample_exec] by (simp add: mem_ok_def)
  show "f \<notin> avail_frames sample_exec" if "f < 0x12C000" using av [of f] that by (auto simp: word_less_nat_alt)
  have "0x200000 \<notin> avail_frames sample_exec" "0x201000 \<notin> avail_frames sample_exec" "0x202000 \<notin> avail_frames sample_exec"
    using av [of "0x200000"] av [of "0x201000"] av [of "0x202000"] by auto
  then show "own_space 0x200000 sample_exec" using sp by (auto simp: own_space_def)
qed

theorem sys_exit_ends_process_witness:
  "\<exists>frame' s'. sys_exit (sample_context 9) sample_exec = Some (Returns (c_eax frame'), frame', s') \<and> sched_inv s' \<and>
     {0x200000, 0x201000, 0x202000} \<subseteq> avail_frames s'"
proof -
  have c: "pcbs sample_exec (current_pcb sample_exec) = Some (sample_pcb 1 1 3)" using sample_exec_facts(4,5) by simp
  have p: "pdt (sample_pcb 1 1 3) = 0x200000" by (simp add: sample_pcb_def)
  have "0x200000 \<in> managed_frames sample_exec" "0x201000 \<in> managed_frames sample_exec" "0x202000 \<in> managed_frames sample_exec"
    using sample_exec_facts(1) managed_aligned [of sample_exec "0x200000"] managed_aligned [of sample_exec "0x201000"]
      managed_aligned [of sample_exec "0x202000"]
    by (simp_all add: mem_ok_def) (simp_all add: sample_exec_def sample_modules_def sample_state_def)
  with sys_exit_ends_process [OF sample_exec_facts(2,3,1) c, unfolded p, OF sample_exec_facts(6)] show ?thesis
    unfolding sample_exec_facts(7) by blast
qed

theorem sys_exec_replaces_image_witness:
  "\<exists>r frame' s'. sys_exec ((sample_context 9)\<lparr>c_ebx := 0x10\<rparr>) sample_exec = Some (r, frame', s') \<and>
     r = 0 \<and> c_eip frame' = 0 \<and> user_read8 4 s' = Some 0x42 \<and> user_read8 5 s' = Some 0"
proof -
  let ?frame = "(sample_context 9)\<lparr>c_ebx := 0x10\<rparr>"
  have c: "current_pcb sample_exec \<noteq> 0" "pcbs sample_exec (current_pcb sample_exec) = Some (sample_pcb 1 1 3)"
    using sample_exec_facts(4,5) by simp_all
  have p: "pdt (sample_pcb 1 1 3) = 0x200000" by (simp add: sample_pcb_def)
  have sp: "space_ok (pmem sample_exec) 0x200000" using sample_exec_facts(6) by (simp add: own_space_def)
  have "sample_exec\<lparr>cr3 := 0x200000\<rparr> = sample_exec" using sample_exec_facts(8) by simp
  then have rd: "user_read8 v sample_exec = (let e = pte_at (pmem sample_exec) 0x200000 (pd_of v) (pt_of v) in
    if present e then Some (pmem sample_exec (pg e) (v AND 0xFFF)) else None)" if "v < 0xC0000000" for v
    using user_read8_pte [OF sp that] by simp
  have "user_read8 0x10 sample_exec = Some 0x6D" "user_read8 0x11 sample_exec = Some 0"
    using rd [of "0x10"] rd [of "0x11"]
    by (simp_all add: pd_of_def pt_of_def sample_exec_facts(11) present_def) (simp_all add: sample_exec_def)
  then have str: "copy_user_string (c_ebx ?frame) 64 sample_exec = Some (Some [0x6D, 0])"
    by (simp add: copy_user_string_def copy_user_string_loop.simps)
  have "bytes_to_string [0x6D, 0] = ''m''" by (simp add: bytes_to_string_def) code_simp
  then have fm: "module_loader_find_module_by_path (Some (bytes_to_string [0x6D, 0])) sample_exec = Some (Some (0x1000, 0x1005))"
    by (simp add: module_loader_find_module_by_path_def find_module_loop.simps sample_exec_def c_string_def)
  have src: "\<forall>v < 0x1005 - 0x1000. pg (0x1000 + v) \<notin> avail_frames sample_exec"
  proof (intro allI impI)
    fix v :: u32 assume "v < 0x1005 - 0x1000"
    then have "0x1000 + v < 0x12C000" by (simp add: word_less_nat_alt unat_word_ariths)
    then have "pg (0x1000 + v) < 0x12C000" using word_and_le2 [of "0x1000 + v" "0xFFFFF000"] by (rule le_less_trans [rotated])
    then show "pg (0x1000 + v) \<notin> avail_frames sample_exec" by (rule sample_exec_facts(9))
  qed
  have b: "phys_byte (pmem sample_exec) (0x1000 + 4) = 0x42" by (simp add: phys_byte_def sample_exec_def)
  have "(0x1000 :: u32) < 0x1005" "(0x1005 :: u32) - 0x1000 \<le> 0xBFFFF000" by simp_all
  from sys_exec_replaces_image [OF sample_exec_facts(1) c, unfolded p, OF sample_exec_facts(6) str fm this src] b sample_exec_facts(10)
  show ?thesis by (fastforce simp: image_read_def split: if_splits)
qed

lemma serial_line_sched [simp]:
  "sched_inv (serial_line l s) = sched_inv s" "sched_ok (serial_line l s) = sched_ok s" "abs_sched (serial_line l s) = abs_sched s"
  "ready_list (serial_line l s) = ready_list s" "pcbs (serial_line l s) = pcbs s" "current_pcb (serial_line l s) = current_pcb s"
  using sched_fields [of "serial_line l s" s] by (simp_all add: serial_line_def)

lemmas call_defs = syscall_handler_128_def syscall_dispatcher_def serial_write_hex_def

text \<open>
  C18.  \<open>yield\<close>, from \<open>int 0x80\<close> to \<open>iret\<close>.  The call returns and keeps the scheduling invariant and the set of
  processes that run or wait.  If another process gets the processor, the registers loaded by \<open>iret\<close> are
  exactly those that its control block held before the call (with interrupts enabled): the value stored
  in \<open>eax\<close> as the result of the call is its own, and the caller's registers are in the caller's control
  block.  Otherwise the caller goes on with its own registers.
\<close>

theorem yield_switches_exactly:
  assumes "sched_inv s" and "c_eax frame = 4"
  shows "\<exists>frame' s'. syscall_handler_128 frame s = Some (Some frame', s') \<and> sched_inv s' \<and>
    mset (current_pcb s' # ready_list s') = mset (current_pcb s # ready_list s) \<and>
    (\<forall>p. p \<noteq> current_pcb s \<and> p \<noteq> current_pcb s' \<longrightarrow> pcbs s' p = pcbs s p) \<and>
    (if current_pcb s' \<noteq> current_pcb s
     then (\<exists>n. pcbs s (current_pcb s') = Some n \<and> frame' = resume_context n) \<and>
       (\<exists>n c. pcbs s' (current_pcb s') = Some n \<and> pcbs s' (current_pcb s) = Some c \<and> pcb_context c = frame \<and>
          frame' = (pcb_context n)\<lparr>c_eflags := c_eflags (pcb_context n) OR 0x200\<rparr>)
     else (frame' = frame \<or> (\<exists>n. pcbs s' (current_pcb s) = Some n \<and> frame' = (pcb_context n)\<lparr>c_eflags := c_eflags (pcb_context n) OR 0x200\<rparr>)) \<and>
       (c_cs frame \<noteq> 0 \<longrightarrow> frame' = frame \<or> frame' = frame\<lparr>c_eflags := c_eflags frame OR 0x200\<rparr>))"
proof -
  define t where "t = serial_line (hex_buffer 4) (serial_line ''[SYSCALL] syscall recebida: '' s)"
  have inv: "sched_ok t" "asched_inv (abs_sched t)" "running (abs_sched t)" "current_pcb t \<noteq> 0" "current_pcb t = current_pcb s"
    "ready_list t = ready_list s" "pcbs t = pcbs s"
    using assms(1) by (simp_all add: t_def sched_inv_def)
  obtain r frame' s' where s': "scheduler_schedule_from_context (Some frame) True STAT_CONTEXT_YIELD t = Some (r, Some frame', s')" "sched_ok s'"
    "spec_schedule frame True (abs_sched t) = (r, frame', abs_sched s')" using schedule_refines [OF inv(1)] by blast
  have i: "asched_inv (abs_sched s')" "running (abs_sched s')" "current_pcb s' \<in> insert (current_pcb t) (set (ready_list t))"
    using spec_schedule_inv [OF inv(2) _ _ s'(3)] inv(3,4) by simp_all
  have "0 \<notin> set (ready_list t)" using inv(2) by (auto simp: asched_inv_def ready_entries_def)
  then have si: "sched_inv s'" using i s'(2) inv(4) by (auto simp: sched_inv_def)
  have "r = 0 \<or> r = 1" using s'(3) inv(4) by (auto simp: spec_schedule_def spec_switch_def split: if_splits)
  then have "sys_yield frame t = Some (c_eax frame', frame', s')" using s'(1) by (auto simp: sys_yield_def)
  then have run: "syscall_handler_128 frame s = Some (Some frame', s')"
    using assms(2) by (simp add: call_defs t_def)
  have stay: "frame' = frame \<and> current_pcb s' = current_pcb s" if "r \<noteq> 1"
    using spec_schedule_stays [OF s'(3) that] inv(5) by simp
  have "mset (current_pcb s' # ready_list s') = mset (current_pcb s # ready_list s)"
    using spec_schedule_mset(1) [OF s'(3)] inv(4-6) by simp
  moreover have "\<forall>p. p \<noteq> current_pcb s \<and> p \<noteq> current_pcb s' \<longrightarrow> pcbs s' p = pcbs s p"
    using spec_schedule_others [OF s'(3)] inv(5,7) by simp
  moreover have "if current_pcb s' \<noteq> current_pcb s
     then (\<exists>n. pcbs s (current_pcb s') = Some n \<and> frame' = resume_context n) \<and>
       (\<exists>n c. pcbs s' (current_pcb s') = Some n \<and> pcbs s' (current_pcb s) = Some c \<and> pcb_context c = frame \<and> frame' = resumed n)
     else (frame' = frame \<or> (\<exists>n. pcbs s' (current_pcb s) = Some n \<and> frame' = resumed n)) \<and>
       (c_cs frame \<noteq> 0 \<longrightarrow> frame' = frame \<or> frame' = frame\<lparr>c_eflags := c_eflags frame OR 0x200\<rparr>)"
  proof (cases "r = 1")
    case True
    have "set (a_ready (abs_sched t)) \<subseteq> dom (a_procs (abs_sched t))" using sched_ok_ready [OF inv(1)] by simp
    note new = spec_schedule_resumes [OF s'(3) True this] spec_schedule_switched [OF s'(3) True]
    show ?thesis
    proof (cases "current_pcb s' = current_pcb s")
      case True
      then show ?thesis using new(2,3) inv(5) by simp
    next
      case False
      then show ?thesis using new(1,3,4) inv(5,7) by auto
    qed
  qed (use stay in simp)
  ultimately show ?thesis using run si unfolding resumed_def by blast
qed

theorem yield_switches_exactly_witness:
  "\<exists>frame' s'. syscall_handler_128 ((sample_context 9)\<lparr>c_eax := 4\<rparr>) sample_exec = Some (Some frame', s') \<and> sched_inv s' \<and>
     (if current_pcb s' \<noteq> 0x1000 then \<exists>n. pcbs sample_exec (current_pcb s') = Some n \<and> frame' = resume_context n
      else frame' = (sample_context 9)\<lparr>c_eax := 4\<rparr> \<or>
        frame' = (sample_context 9)\<lparr>c_eax := 4, c_eflags := c_eflags (sample_context 9) OR 0x200\<rparr>)"
proof -
  have "c_eax ((sample_context 9)\<lparr>c_eax := 4\<rparr>) = 4" "c_cs ((sample_context 9)\<lparr>c_eax := 4\<rparr>) \<noteq> 0" by (simp_all add: sample_context_def)
  with yield_switches_exactly [OF sample_exec_facts(2) this(1)] show ?thesis
    unfolding sample_exec_facts(4) by (auto split: if_splits)
qed

text \<open>
  C38.  \<open>exit\<close> of the last process.  When no process waits the processor halts for good with interrupts
  disabled by the gate: the process that asked to end is marked RUNNING again, is still the current
  process, and none of its memory is released.
\<close>

theorem sys_exit_last_halts:
  assumes "sched_inv s" and "ready_list s = []" and "c_eax frame = 5"
  shows "\<exists>s'. syscall_handler_128 frame s = Some (None, s') \<and> current_pcb s' = current_pcb s \<and> running (abs_sched s') \<and>
    avail_frames s' = avail_frames s"
proof -
  have cur: "current_pcb s \<noteq> 0" using assms(1) by (simp add: sched_inv_def)
  obtain c where c: "pcbs s (current_pcb s) = Some c" using assms(1) by (auto simp: sched_inv_def running_def)
  define u where "u = serial_line (hex_buffer 5) (serial_line ''[SYSCALL] syscall recebida: '' s)"
  define t where "t = log_process_exit (pid c) (u\<lparr>pcbs := (pcbs s)(current_pcb s \<mapsto> c\<lparr>state := PROCESS_STATE_TERMINATED\<rparr>)\<rparr>)"
  have tf: "current_pcb t = current_pcb s" "ready_list t = []"
    using assms(2) by (simp_all add: t_def u_def log_process_exit_def)
  have "rq_ok t = rq_ok u" unfolding t_def log_process_exit_def log_process_stat_frame by (simp add: rq_ok_def)
  moreover have "sched_ok u" using assms(1) by (simp add: u_def sched_inv_def)
  ultimately have tok: "sched_ok t"
    by (intro sched_ok_frame [of u t]) (auto simp: t_def u_def log_process_exit_def)
  obtain r frame' s1 where s1: "scheduler_schedule_from_context (Some frame) False STAT_CONTEXT_EXIT t = Some (r, Some frame', s1)"
    "spec_schedule frame False (abs_sched t) = (r, frame', abs_sched s1)" using schedule_refines [OF tok] by blast
  have "r = 0 \<and> a_current a = current_pcb s \<and> running a" if "spec_schedule frame False (abs_sched t) = (r, frame', a)" for a
    using that cur tf by (auto simp: spec_schedule_def spec_switch_def running_def)
  from this [OF s1(2)] have r: "r = 0" "current_pcb s1 = current_pcb s" "running (abs_sched s1)" by simp_all
  let ?s = "serial_line ''[SYSCALL] exit: sem processos prontos, entrando em idle'' s1"
  have "pcbs u (current_pcb u) = Some c" "current_pcb u = current_pcb s" using c by (simp_all add: u_def)
  then have "sys_exit frame u = Some (Halts, frame', ?s)"
    using s1(1) r(1) cur c by (simp add: sys_exit_def scheduler_get_current_def t_def) (simp add: u_def)
  then have run: "syscall_handler_128 frame s = Some (None, ?s)" using assms(3) by (simp add: call_defs u_def)
  have "same_memory s t" by (simp add: t_def u_def)
  then have "same_memory s ?s" using schedule_memory [OF s1(1)] by (simp add: same_memory_trans [of s t s1])
  with run r show ?thesis by (auto simp: same_memory_kept)
qed

theorem sys_exit_last_halts_witness:
  "\<exists>s'. syscall_handler_128 ((sample_context 9)\<lparr>c_eax := 5\<rparr>) (sample_exec\<lparr>ready_tail := 31, ready_len := 0\<rparr>) = Some (None, s') \<and>
     running (abs_sched s')"
proof -
  let ?s = "sample_exec\<lparr>ready_tail := 31, ready_len := 0\<rparr>"
  have l: "ready_list ?s = []" by (simp add: ready_list_def)
  have "rq_ok ?s" by (simp add: rq_ok_def sample_exec_def sample_modules_def sample_state_def)
  moreover have "asched_inv (abs_sched ?s)" "running (abs_sched ?s)"
    using sample_exec_facts(2) by (auto simp: sched_inv_def asched_inv_def ready_entries_def space_inv_def running_def l)
  ultimately have "sched_inv ?s"
    using sample_exec_facts(4,5) by (simp add: sched_inv_def sched_ok_def queue_ok_def pcbs_valid_def l domIff)
  from sys_exit_last_halts [OF this l, of "(sample_context 9)\<lparr>c_eax := 5\<rparr>"] show ?thesis by auto
qed

text \<open>
  A call number that is not one of the six returns -1 and changes nothing but the log; neither do
  the calls 0 and 1, which return 0 (the call named \<open>write\<close> writes nothing).
\<close>

theorem unknown_call_rejected:
  assumes "c_eax frame \<notin> {2, 3, 4, 5}"
  shows "\<exists>ls. syscall_handler_128 frame s =
    Some (Some (frame\<lparr>c_eax := if c_eax frame \<le> 1 then 0 else -1\<rparr>), s\<lparr>serial_log := serial_log s @ ls\<rparr>)"
proof -
  have "c_eax frame = 0 \<or> c_eax frame = 1" if "c_eax frame \<le> 1" using that by (simp add: word_le_nat_alt word_unat_eq_iff) linarith
  with assms show ?thesis by (auto simp: call_defs serial_line_def)
qed

theorem unknown_call_rejected_witness:
  "\<exists>s'. syscall_handler_128 ((sample_context 9)\<lparr>c_eax := 77\<rparr>) sample_exec = Some (Some ((sample_context 9)\<lparr>c_eax := -1\<rparr>), s')"
proof -
  have "\<not> (77 :: u32) \<le> 1" by (simp add: word_le_nat_alt)
  then show ?thesis using unknown_call_rejected [of "(sample_context 9)\<lparr>c_eax := 77\<rparr>" sample_exec] by auto
qed

end
