(* ===== verification/Heap_Blocks.thy ===== *)
theory Heap_Blocks
  imports Kheap
begin

text \<open>
  The shape of the kernel heap, apart from the code: chains of headers from one address to another, the
  circular free list that starts at the sentinel, and the blocks that tile the heap.  The lemmas say
  how the three change when two blocks are merged, when one is split and when the heap grows; the
  theory of the heap's invariant applies them to \<open>kfree\<close>, \<open>kmalloc\<close> and \<open>morecore\<close>.
\<close>

subsection \<open>Chains of headers\<close>

fun seg :: "(u32 \<Rightarrow> u32) \<Rightarrow> u32 \<Rightarrow> u32 list \<Rightarrow> u32 \<Rightarrow> bool" where
  "seg nx x [] y \<longleftrightarrow> x = y"
| "seg nx x (a # as) y \<longleftrightarrow> x = a \<and> seg nx (nx a) as y"

lemma seg_append: "seg nx x (as @ bs) y \<longleftrightarrow> (\<exists>z. seg nx x as z \<and> seg nx z bs y)"
  by (induction as arbitrary: x) auto

lemma seg_snoc: "seg nx x (as @ [a]) y \<longleftrightarrow> seg nx x as a \<and> nx a = y"
  by (auto simp: seg_append)

lemma seg_cong: "(\<And>a. a \<in> set as \<Longrightarrow> nx a = nx' a) \<Longrightarrow> seg nx x as y \<longleftrightarrow> seg nx' x as y"
  by (induction as arbitrary: x) auto

lemma seg_start: "seg nx x as y \<Longrightarrow> as \<noteq> [] \<Longrightarrow> x = hd as"
  by (cases as) auto

text \<open>A member that does not point at the end of the chain is followed there by its successor.\<close>

lemma seg_successor:
  assumes "seg nx x as z" and "a \<in> set as" and "nx a \<noteq> z"
  obtains pre post where "as = pre @ a # nx a # post"
proof -
  from assms(2) obtain pre post where as: "as = pre @ a # post" by (meson split_list)
  with assms(1) have "seg nx (nx a) post z" by (auto simp: seg_append)
  with assms(3) obtain post' where "post = nx a # post'" by (cases post) auto
  with as show thesis by (intro that) simp
qed

text \<open>A circular chain can be read from any of its members.\<close>

lemma seg_rotate:
  assumes "seg nx b (pre @ f # post) b"
  shows "seg nx (nx f) (post @ pre @ [f]) (nx f)"
  using assms by (auto simp: seg_append)

subsection \<open>The free list\<close>

definition links :: "(u32 \<Rightarrow> header) \<Rightarrow> u32 \<Rightarrow> u32" where
  "links h a = hnext (h a)"

lemma seg_links_upd [simp]: "p \<notin> set as \<Longrightarrow> seg (links (h(p := v))) x as y \<longleftrightarrow> seg (links h) x as y"
  by (rule seg_cong) (auto simp: links_def)

lemma seg_links_Cons: "seg (links h) x (a # as) y \<longleftrightarrow> x = a \<and> seg (links h) (hnext (h a)) as y"
  by (simp add: links_def)

lemma seg_links_cong: "\<forall>a \<in> set as. hnext (h' a) = hnext (h a) \<Longrightarrow> seg (links h') x as y \<longleftrightarrow> seg (links h) x as y"
  by (rule seg_cong) (simp add: links_def)

definition ring :: "(u32 \<Rightarrow> header) \<Rightarrow> u32 \<Rightarrow> u32 list \<Rightarrow> bool" where
  "ring h b qs \<longleftrightarrow> seg (links h) b (b # qs) b \<and> sorted_wrt (<) (b # qs) \<and> hsize (h b) = 0"

lemma ring_distinct: "ring h b qs \<Longrightarrow> distinct (b # qs)"
  by (auto simp: ring_def strict_sorted_iff)

lemma sorted_wrt_split:
  fixes b :: u32
  assumes "sorted_wrt (<) xs" and "b \<notin> set xs"
  obtains pre post where "xs = pre @ post" "\<forall>x \<in> set pre. x < b" "\<forall>x \<in> set post. b < x"
proof -
  have "\<exists>pre post. xs = pre @ post \<and> (\<forall>x \<in> set pre. x < b) \<and> (\<forall>x \<in> set post. b < x)"
    using assms
  proof (induction xs)
    case (Cons x xs)
    show ?case
    proof (cases "x < b")
      case True
      from Cons obtain pre post where "xs = pre @ post" "\<forall>x \<in> set pre. x < b" "\<forall>x \<in> set post. b < x" by auto
      with True show ?thesis by (intro exI [of _ "x # pre"] exI [of _ post]) simp
    next
      case False
      with Cons.prems have "\<forall>y \<in> set (x # xs). b < y" by auto
      then show ?thesis by (intro exI [of _ "[]"] exI [of _ "x # xs"]) simp
    qed
  qed simp
  then show thesis using that by blast
qed

text \<open>An address above the sentinel and outside the list has its place after a member \<open>p\<close>.\<close>

lemma ring_place:
  assumes "ring h b qs" and "b < a" and "a \<notin> set qs"
  obtains pre p post where "b # qs = pre @ p # post" "\<forall>x \<in> set (pre @ [p]). x < a" "\<forall>x \<in> set post. a < x"
proof -
  have "sorted_wrt (<) qs" using assms(1) by (simp add: ring_def)
  then obtain pre post where q: "qs = pre @ post" "\<forall>x \<in> set pre. x < a" "\<forall>x \<in> set post. a < x"
    using assms(3) by (rule sorted_wrt_split)
  show thesis
  proof (rule that)
    show "b # qs = butlast (b # pre) @ last (b # pre) # post"
      using q(1) append_butlast_last_id [of "b # pre"] by (metis append.assoc append_Cons append_Nil list.distinct(1))
    show "\<forall>x \<in> set (butlast (b # pre) @ [last (b # pre)]). x < a"
      using q(2) assms(2) by (metis append_butlast_last_id list.distinct(1) set_ConsD)
  qed (rule q(3))
qed

text \<open>The next header of \<open>p\<close> is the one listed after it, or the sentinel.\<close>

lemma ring_next:
  assumes "ring h b qs" and "b # qs = pre @ p # post"
  shows "hnext (h p) = hd (post @ [b])" and "seg (links h) b (pre @ [p]) (hnext (h p))"
    and "seg (links h) (hnext (h p)) post b"
proof -
  have "seg (links h) b (pre @ p # post) b" using assms by (simp only: ring_def)
  then show "seg (links h) b (pre @ [p]) (hnext (h p))" and *: "seg (links h) (hnext (h p)) post b"
    by (auto simp: seg_append links_def)
  show "hnext (h p) = hd (post @ [b])" using * by (cases post) auto
qed

lemma ring_cong:
  assumes "ring h b qs" and "\<forall>a \<in> set (b # qs). hnext (h' a) = hnext (h a)" and "hsize (h' b) = 0"
  shows "ring h' b qs"
  using assms(1,3) seg_links_cong [OF assms(2), of b b] by (simp only: ring_def)

lemma seg_unique:
  "seg nx x as z \<Longrightarrow> seg nx x bs z \<Longrightarrow> z \<notin> set as \<Longrightarrow> z \<notin> set bs \<Longrightarrow> as = bs"
proof (induction as arbitrary: x bs)
  case Nil
  then show ?case by (cases bs) auto
next
  case (Cons a as)
  then obtain bs' where "bs = a # bs'" by (cases bs) auto
  with Cons show ?case by auto
qed

lemma ring_unique: "ring h b qs \<Longrightarrow> ring h b qs' \<Longrightarrow> qs = qs'"
  using seg_unique [of "links h" "links h b" qs b qs'] ring_distinct [of h b qs] ring_distinct [of h b qs']
  by (auto simp: ring_def)

text \<open>The list with the member after \<open>p\<close> unlinked.\<close>

lemma ring_unlink:
  assumes "ring h b qs" and "b # qs = pre @ p # q # post"
  shows "ring (h(p := h p\<lparr>hnext := hnext (h q)\<rparr>)) b (remove1 q qs)" (is "ring ?h b _")
    and "b # remove1 q qs = pre @ p # post"
proof -
  have d: "distinct (pre @ p # q # post)" using ring_distinct [OF assms(1)] assms(2) by simp
  then have ne: "b \<noteq> q" using assms(2) by (cases pre) auto
  then have "b # remove1 q qs = remove1 q (pre @ p # q # post)" using assms(2) by (metis remove1.simps(2))
  also have "\<dots> = pre @ p # post" using d by (auto simp: remove1_append)
  finally show l: "b # remove1 q qs = pre @ p # post" .
  have n: "seg (links h) b pre p" "seg (links h) (hnext (h q)) post b" "hnext (h p) = q"
    using ring_next [OF assms] by (auto simp: seg_snoc links_def)
  have "seg (links ?h) b (pre @ p # post) b"
    using n d by (auto simp: seg_append links_def)
  moreover have "sorted_wrt (<) (pre @ p # post)"
    using assms by (auto simp: ring_def sorted_wrt_append)
  moreover have "hsize (?h b) = 0" using assms(1) by (auto simp: ring_def)
  ultimately show "ring ?h b (remove1 q qs)" unfolding ring_def l by simp
qed

text \<open>The list with \<open>a\<close> linked in after \<open>p\<close>.\<close>

lemma ring_link:
  assumes "ring h b qs" and "b # qs = pre @ p # post" and "\<forall>x \<in> set (pre @ [p]). x < a" and "\<forall>x \<in> set post. a < x"
    and "hnext (h a) = hnext (h p)"
  shows "ring (h(p := h p\<lparr>hnext := a\<rparr>)) b (tl (pre @ p # a # post))" (is "ring ?h b ?qs")
    and "b # tl (pre @ p # a # post) = pre @ p # a # post"
proof -
  have hd: "b = hd (pre @ p # post)" using assms(2) by (metis list.sel(1))
  then show l: "b # ?qs = pre @ p # a # post" by (cases pre) auto
  have d: "distinct (pre @ p # post)" using ring_distinct [OF assms(1)] assms(2) by simp
  have n: "seg (links h) b pre p" "seg (links h) (hnext (h p)) post b"
    using ring_next [OF assms(1,2)] by (auto simp: seg_snoc links_def)
  have "a \<noteq> p" using assms(3) by auto
  then have "seg (links ?h) b (pre @ p # a # post) b"
    using n d assms(5) by (auto simp: seg_append links_def)
  moreover have "sorted_wrt (<) (pre @ p # a # post)"
    using assms(1-4) by (auto simp: ring_def sorted_wrt_append)
  moreover have "hsize (?h b) = 0" using assms(1) by (auto simp: ring_def)
  ultimately show "ring ?h b ?qs" unfolding ring_def l by simp
qed

subsection \<open>The blocks\<close>

text \<open>A block is its header and the units after it; \<open>bend\<close> is the address just past it.\<close>

definition bend :: "(u32 \<Rightarrow> header) \<Rightarrow> u32 \<Rightarrow> nat" where
  "bend h a = unat a + 8 * unat (hsize (h a))"

definition tiles :: "(u32 \<Rightarrow> header) \<Rightarrow> nat \<Rightarrow> nat \<Rightarrow> u32 set \<Rightarrow> bool" where
  "tiles h lo hi B \<longleftrightarrow>
     (\<forall>a \<in> B. lo \<le> unat a \<and> bend h a \<le> hi \<and> unat a mod 8 = 0 \<and> 0 < hsize (h a)) \<and>
     (\<forall>a \<in> B. \<forall>b \<in> B. a < b \<longrightarrow> bend h a \<le> unat b) \<and>
     (\<forall>x. lo \<le> x \<and> x < hi \<longrightarrow> (\<exists>a \<in> B. unat a \<le> x \<and> x < bend h a))"

lemma bend_upd [simp]: "a \<noteq> p \<Longrightarrow> bend (h(p := v)) a = bend h a" "bend (h(a := v)) a = unat a + 8 * unat (hsize v)"
  by (simp_all add: bend_def)

lemma tiles_block:
  assumes "tiles h lo hi B" and "a \<in> B"
  shows "lo \<le> unat a" "bend h a \<le> hi" "unat a mod 8 = 0" "0 < hsize (h a)" "unat a < bend h a"
  using assms by (auto simp: tiles_def bend_def word_less_nat_alt)

lemma tiles_apart: "tiles h lo hi B \<Longrightarrow> a \<in> B \<Longrightarrow> b \<in> B \<Longrightarrow> a < b \<Longrightarrow> bend h a \<le> unat b"
  by (simp add: tiles_def)

lemma tiles_cong: "\<forall>a \<in> B. hsize (h' a) = hsize (h a) \<Longrightarrow> tiles h' lo hi B \<longleftrightarrow> tiles h lo hi B"
  by (simp add: tiles_def bend_def)

lemma unat_add_small: "unat (a :: u32) + unat b < 2 ^ 32 \<Longrightarrow> unat (a + b) = unat a + unat b"
  by (subst unat_add_lem [THEN iffD1]) simp_all

lemma unat_units: "8 * unat (k :: u32) < 2 ^ 32 \<Longrightarrow> unat (k * 8) = 8 * unat k"
  by (subst unat_mult_lem [THEN iffD1]) simp_all

lemma unat_bend:
  assumes "bend h a < 2 ^ 32"
  shows "unat (a + hsize (h a) * 8) = bend h a"
proof -
  have "unat (hsize (h a) * 8) = 8 * unat (hsize (h a))" using assms by (intro unat_units) (simp add: bend_def)
  then show ?thesis using assms by (subst unat_add_small) (simp_all add: bend_def)
qed

text \<open>Two neighbours become one block.\<close>

lemma tiles_merge:
  assumes t: "tiles h lo hi B" "hi < 2 ^ 32" and ab: "a \<in> B" "b \<in> B" "bend h a = unat b"
    and sz: "hsize v = hsize (h a) + hsize (h b)"
  shows "tiles (h(a := v)) lo hi (B - {b})" and "bend (h(a := v)) a = bend h b"
proof -
  have lt: "a < b" using tiles_block(5) [OF t(1) ab(1)] ab(3) by (simp add: word_less_nat_alt)
  have "unat (hsize (h a)) + unat (hsize (h b)) < 2 ^ 32"
    using tiles_block(2) [OF t(1) ab(2)] ab(3) t(2) by (simp add: bend_def)
  then have sz': "unat (hsize v) = unat (hsize (h a)) + unat (hsize (h b))"
    unfolding sz by (rule unat_add_small)
  then show be: "bend (h(a := v)) a = bend h b" using ab(3) by (simp add: bend_def)
  have pos: "0 < hsize v" using sz' tiles_block(4) [OF t(1) ab(1)] by (simp add: word_less_nat_alt)
  have apart: "bend h b \<le> unat c" if "c \<in> B" "a < c" "c \<noteq> b" for c
  proof -
    have "bend h a \<le> unat c" using tiles_apart [OF t(1) ab(1) that(1,2)] .
    then have "b < c" using that(3) ab(3) by (simp add: word_less_nat_alt word_unat_eq_iff)
    then show ?thesis using tiles_apart [OF t(1) ab(2) that(1)] by simp
  qed
  have eq: "bend (h(a := v)) c = (if c = a then bend h b else bend h c)" for c using be by auto
  show "tiles (h(a := v)) lo hi (B - {b})" unfolding tiles_def
  proof (intro conjI ballI allI impI)
    fix c assume "c \<in> B - {b}"
    then show "lo \<le> unat c" "bend (h(a := v)) c \<le> hi" "unat c mod 8 = 0" "0 < hsize ((h(a := v)) c)"
      using tiles_block [OF t(1), of c] tiles_block [OF t(1) ab(2)] pos by (auto simp: eq)
  next
    fix c d assume "c \<in> B - {b}" "d \<in> B - {b}" "c < d"
    then show "bend (h(a := v)) c \<le> unat d" using apart tiles_apart [OF t(1), of c d] by (auto simp: eq)
  next
    fix x assume "lo \<le> x \<and> x < hi"
    then obtain c where c: "c \<in> B" "unat c \<le> x" "x < bend h c" using t(1) unfolding tiles_def by blast
    show "\<exists>c \<in> B - {b}. unat c \<le> x \<and> x < bend (h(a := v)) c"
    proof (cases "c = b \<or> c = a")
      case True
      have "unat a < unat b" using lt by (simp add: word_less_nat_alt)
      moreover have "unat b < bend h b" using tiles_block(5) [OF t(1) ab(2)] .
      ultimately show ?thesis using True c ab lt by (intro bexI [of _ a]) (auto simp: eq simp del: bend_upd)
    qed (use c in \<open>auto simp: eq\<close>)
  qed
qed

text \<open>A block becomes two, the first with \<open>k\<close> units.\<close>

lemma tiles_split:
  assumes t: "tiles h lo hi B" "hi < 2 ^ 32" and a: "a \<in> B" and k: "0 < k" "k < hsize (h a)"
    and sz: "hsize v = k" "hsize w = hsize (h a) - k"
  defines "b \<equiv> a + k * 8"
  shows "tiles (h(a := v, b := w)) lo hi (insert b B)" and "b \<notin> B" and "unat b = unat a + 8 * unat k"
    and "bend (h(a := v, b := w)) b = bend h a"
proof -
  have le: "unat k < unat (hsize (h a))" "0 < unat k" using k by (simp_all add: word_less_nat_alt)
  have top: "bend h a \<le> hi" using tiles_block(2) [OF t(1) a] .
  have "unat (k * 8) = 8 * unat k" using top t(2) le by (intro unat_units) (simp add: bend_def)
  then show ub: "unat b = unat a + 8 * unat k"
    unfolding b_def using top t(2) le by (subst unat_add_small) (simp_all add: bend_def)
  have uw: "unat (hsize w) = unat (hsize (h a)) - unat k"
    unfolding sz using le by (simp add: unat_sub word_le_nat_alt)
  have lt: "a < b" using ub le by (simp add: word_less_nat_alt)
  have inside: "bend h c \<le> unat a \<or> bend h a \<le> unat c" if "c \<in> B" "c \<noteq> a" for c
    using tiles_apart [OF t(1) that(1) a] tiles_apart [OF t(1) a that(1)] that(2) by (cases c a rule: linorder_cases) auto
  show nb: "b \<notin> B"
  proof
    assume "b \<in> B"
    then have "bend h b \<le> unat a \<or> bend h a \<le> unat b" using inside lt by auto
    moreover have "unat b < bend h b" using tiles_block(5) [OF t(1) \<open>b \<in> B\<close>] .
    ultimately show False using ub le by (auto simp: bend_def)
  qed
  let ?h = "h(a := v, b := w)"
  show bb: "bend ?h b = bend h a" using ub uw le by (simp add: bend_def)
  have ba: "bend ?h a = unat b" using lt ub sz by (auto simp: bend_def)
  have bc: "bend ?h c = bend h c" if "c \<noteq> a" "c \<noteq> b" for c using that by simp
  show "tiles ?h lo hi (insert b B)" unfolding tiles_def
  proof (intro conjI ballI allI impI)
    fix c assume c: "c \<in> insert b B"
    consider "c = b" | "c = a" | "c \<in> B" "c \<noteq> a" "c \<noteq> b" using c by auto
    then have "lo \<le> unat c \<and> bend ?h c \<le> hi \<and> unat c mod 8 = 0 \<and> 0 < unat (hsize (?h c))"
    proof cases
      case 1
      then show ?thesis using bb top ub le uw tiles_block [OF t(1) a] by auto
    next
      case 2
      then show ?thesis using ba top ub le lt sz tiles_block [OF t(1) a] by (auto simp: bend_def)
    next
      case 3
      then show ?thesis using tiles_block [OF t(1), of c] by (auto simp: word_less_nat_alt)
    qed
    then show "lo \<le> unat c" "bend ?h c \<le> hi" "unat c mod 8 = 0" "0 < hsize (?h c)"
      by (auto simp: word_less_nat_alt)
  next
    fix c d assume cd: "c \<in> insert b B" "d \<in> insert b B" "c < d"
    note s = tiles_block(5) [OF t(1)] tiles_apart [OF t(1)]
    consider "c = b" "d \<in> B" | "c = a" "d = b" | "c = a" "d \<in> B" "d \<noteq> a" "d \<noteq> b"
      | "c \<in> B" "c \<noteq> a" "c \<noteq> b" "d = b" | "c \<in> B" "c \<noteq> a" "c \<noteq> b" "d \<in> B"
      using cd by auto
    then show "bend ?h c \<le> unat d"
    proof cases
      case 1
      then have "d \<noteq> a" using cd(3) lt by auto
      then show ?thesis using 1 bb inside [of d] s(1) [of d] cd(3) ub by (auto simp: word_less_nat_alt)
    next
      case 2
      then show ?thesis using ba by simp
    next
      case 3
      then have "bend h a \<le> unat d" using s(2) [OF a] cd(3) by simp
      then show ?thesis using 3 ba ub le by (simp add: bend_def)
    next
      case 4
      then show ?thesis using inside [of c] s(1) [of c] cd(3) ub le bc by (auto simp: word_less_nat_alt bend_def)
    next
      case 5
      then show ?thesis using s(2) [of c d] cd(3) bc by simp
    qed
  next
    fix x assume "lo \<le> x \<and> x < hi"
    then obtain c where c: "c \<in> B" "unat c \<le> x" "x < bend h c" using t(1) unfolding tiles_def by blast
    show "\<exists>c \<in> insert b B. unat c \<le> x \<and> x < bend ?h c"
    proof (cases "c = a")
      case True
      then show ?thesis using c ba bb a by (cases "x < unat b") auto
    next
      case False
      then have "c \<noteq> b" using nb c(1) by auto
      then show ?thesis using c False bc by (intro bexI [of _ c]) auto
    qed
  qed
qed

text \<open>The heap grows by a block at its end.\<close>

lemma tiles_extend:
  assumes t: "tiles h lo hi B" and b: "unat b = hi" "lo \<le> hi" "hi mod 8 = 0" "0 < hsize v" "hi' = hi + 8 * unat (hsize v)"
  shows "tiles (h(b := v)) lo hi' (insert b B)" and "b \<notin> B"
proof -
  have lt: "a < b" "bend h a \<le> hi" if "a \<in> B" for a
    using tiles_block [OF t that] b(1) by (simp_all add: word_less_nat_alt)
  then show nb: "b \<notin> B" by auto
  let ?h = "h(b := v)"
  have bb: "bend ?h b = hi'" using b by (simp add: bend_def)
  have ba: "bend ?h a = bend h a" if "a \<in> B" for a using that nb by (metis bend_upd(1))
  show "tiles ?h lo hi' (insert b B)" unfolding tiles_def
  proof (intro conjI ballI allI impI)
    fix c assume "c \<in> insert b B"
    then show "lo \<le> unat c" "bend ?h c \<le> hi'" "unat c mod 8 = 0" "0 < hsize (?h c)"
      using tiles_block [OF t, of c] b bb ba nb by auto
  next
    fix c d assume "c \<in> insert b B" "d \<in> insert b B" "c < d"
    then show "bend ?h c \<le> unat d" using lt ba tiles_apart [OF t, of c d] b(1) nb less_asym by fastforce
  next
    fix x assume x: "lo \<le> x \<and> x < hi'"
    show "\<exists>c \<in> insert b B. unat c \<le> x \<and> x < bend ?h c"
    proof (cases "x < hi")
      case True
      then obtain c where "c \<in> B" "unat c \<le> x" "x < bend h c" using t x unfolding tiles_def by blast
      then show ?thesis using ba by auto
    next
      case False
      then show ?thesis using x b(1) bb by auto
    qed
  qed
qed

subsection \<open>Free and allocated blocks together\<close>

text \<open>
  \<open>blocks h b lo hi qs A\<close>: between \<open>lo\<close> and \<open>hi\<close> the heap is the free blocks \<open>qs\<close>, listed from the sentinel
  \<open>b\<close> in the order of their addresses, and the allocated blocks \<open>A\<close>.  Two free blocks touch when the
  first ends where the second begins.
\<close>

definition blocks :: "(u32 \<Rightarrow> header) \<Rightarrow> u32 \<Rightarrow> nat \<Rightarrow> nat \<Rightarrow> u32 list \<Rightarrow> u32 set \<Rightarrow> bool" where
  "blocks h b lo hi qs A \<longleftrightarrow> ring h b qs \<and> tiles h lo hi (set qs \<union> A) \<and> set qs \<inter> A = {} \<and> unat b < lo \<and> hi < 2 ^ 32"

definition touching :: "(u32 \<Rightarrow> header) \<Rightarrow> u32 list \<Rightarrow> (u32 \<times> u32) set" where
  "touching h qs = {(x, y). x \<in> set qs \<and> y \<in> set qs \<and> bend h x = unat y}"

lemma blocksD:
  assumes "blocks h b lo hi qs A"
  shows "ring h b qs" "tiles h lo hi (set qs \<union> A)" "set qs \<inter> A = {}" "unat b < lo" "hi < 2 ^ 32"
  using assms by (simp_all add: blocks_def)

lemma blocks_above:
  assumes "blocks h b lo hi qs A" and "a \<in> set qs \<union> A"
  shows "b < a" "bend h a < 2 ^ 32" "unat (a + hsize (h a) * 8) = bend h a"
proof -
  note t = tiles_block [OF blocksD(2) [OF assms(1)] assms(2)]
  show "b < a" using t(1) blocksD(4) [OF assms(1)] by (simp add: word_less_nat_alt)
  show "bend h a < 2 ^ 32" using t(2) blocksD(5) [OF assms(1)] by simp
  then show "unat (a + hsize (h a) * 8) = bend h a" by (rule unat_bend)
qed

text \<open>Linking an allocated block in makes it free.\<close>

lemma blocks_link:
  assumes bl: "blocks h b lo hi qs A" and a: "a \<in> A" and at: "b # qs = pre @ p # post"
    and ord: "\<forall>x \<in> set (pre @ [p]). x < a" "\<forall>x \<in> set post. a < x"
  defines "h' \<equiv> h(a := h a\<lparr>hnext := hnext (h p)\<rparr>, p := h p\<lparr>hnext := a\<rparr>)" and "qs' \<equiv> tl (pre @ p # a # post)"
  shows "blocks h' b lo hi qs' (A - {a})" and "b # qs' = pre @ p # a # post"
    and "touching h qs = {} \<Longrightarrow> touching h' qs' \<subseteq> {(p, a), (a, hd (post @ [b]))}"
    and "\<forall>x. hsize (h' x) = hsize (h x)" "bend h' = bend h"
proof -
  note D = blocksD [OF bl]
  have an: "a \<notin> set qs" "a \<noteq> b" using a D(3) blocks_above(1) [OF bl, of a] by auto
  have pa: "p \<noteq> a" using ord(1) by auto
  have "ring (h(a := h a\<lparr>hnext := hnext (h p)\<rparr>)) b qs" using D(1) an by (intro ring_cong [OF D(1)]) (auto simp: ring_def)
  from ring_link [OF this at ord] pa have r: "ring h' b qs'" and l: "b # qs' = pre @ p # a # post"
    unfolding h'_def qs'_def by simp_all
  from l show "b # qs' = pre @ p # a # post" .
  show sz: "\<forall>x. hsize (h' x) = hsize (h x)" by (simp add: h'_def)
  then show be: "bend h' = bend h" by (simp add: bend_def fun_eq_iff)
  have "set (b # qs') = insert a (set (b # qs))" unfolding l at by auto
  moreover have "b \<notin> set qs'" "b \<notin> set qs" using ring_distinct [OF r] ring_distinct [OF D(1)] by simp_all
  ultimately have set: "set qs' = insert a (set qs)" using an(2) by auto
  then have u: "set qs' \<union> (A - {a}) = set qs \<union> A" using a by auto
  have "tiles h' lo hi (set qs \<union> A)" using D(2) sz tiles_cong [of _ h' h] by blast
  then show "blocks h' b lo hi qs' (A - {a})"
    unfolding blocks_def u using r set D by auto
  have "x = p \<and> y = a" if none: "touching h qs = {}" and xy: "(x, y) \<in> touching h' qs'"
    and ne: "\<not> (x = a \<and> y = hd (post @ [b]))" for x y
  proof -
    have x: "x \<in> set qs'" "y \<in> set qs'" "bend h x = unat y" using xy unfolding touching_def be by auto
    then have mem: "x \<in> set qs \<union> A" "y \<in> set qs \<union> A" using set a by auto
    have lt: "x < y" using tiles_block(5) [OF D(2) mem(1)] x(3) by (simp add: word_less_nat_alt)
    have sorted: "sorted_wrt (<) (pre @ p # a # post)" using r unfolding ring_def l by simp
    note far = tiles_apart [OF D(2)]
    have inL: "x \<in> set (pre @ p # a # post)" "y \<in> set (pre @ p # a # post)" using x(1,2) by (simp_all flip: l)
    have old: "z \<in> set qs" if "z \<in> set (pre @ p # post)" "b < z" for z using that by (auto simp flip: at)
    note ab = blocks_above(1) [OF bl]
    consider "x = a" | "y = a" | "x \<in> set qs" "y \<in> set qs" using x set by auto
    then show ?thesis
    proof cases
      case 1
      then have y: "y \<in> set post" using inL(2) lt ord(1) by fastforce
      then obtain z post' where z: "post = z # post'" by (cases post) auto
      then have "z < y" using y ne 1 sorted by (auto simp: sorted_wrt_append)
      moreover have "a < z" using z ord(2) by simp
      moreover have "z \<in> set qs" using z ab [of a] a \<open>a < z\<close> by (intro old) auto
      ultimately show ?thesis using far [of a z] 1 x(3) a by (simp add: word_less_nat_alt)
    next
      case 2
      then have "x \<in> set (pre @ [p])" using inL(1) lt ord(2) by fastforce
      moreover have "x \<notin> set pre"
      proof
        assume "x \<in> set pre"
        then have "x < p" using sorted by (auto simp: sorted_wrt_append)
        moreover have "p \<in> set qs" using ab [OF mem(1)] \<open>x < p\<close> by (intro old) auto
        ultimately have "bend h x \<le> unat p" using far [of x p] mem(1) by simp
        moreover have "unat p < unat a" using ord(1) by (simp add: word_less_nat_alt)
        ultimately show False using 2 x(3) by simp
      qed
      ultimately show ?thesis using 2 by simp
    next
      case 3
      then show ?thesis using none x(3) by (auto simp: touching_def)
    qed
  qed
  then show "touching h' qs' \<subseteq> {(p, a), (a, hd (post @ [b]))}" if "touching h qs = {}" using that by auto
qed

text \<open>Two neighbouring free blocks become one.\<close>

lemma blocks_merge:
  assumes bl: "blocks h b lo hi qs A" and at: "b # qs = pre @ x # y # post" and x: "x \<noteq> b" and be: "bend h x = unat y"
  defines "h' \<equiv> h(x := \<lparr>hnext = hnext (h y), hsize = hsize (h x) + hsize (h y)\<rparr>)"
  shows "blocks h' b lo hi (remove1 y qs) A" and "b # remove1 y qs = pre @ x # post"
    and "touching h' (remove1 y qs) \<subseteq> {(u, v). (u, v) \<in> touching h qs \<and> u \<noteq> x \<and> v \<noteq> y} \<union> {(x, v) |v. (y, v) \<in> touching h qs}"
    and "bend h' x = bend h y" "hsize (h x) \<le> hsize (h' x)" "hsize (h y) \<le> hsize (h' x)"
proof -
  note D = blocksD [OF bl]
  have d: "distinct (b # qs)" using ring_distinct [OF D(1)] .
  have "x \<in> set (b # qs)" "y \<in> set (tl (b # qs))" unfolding at by (simp, cases pre) auto
  then have in': "x \<in> set qs" "y \<in> set qs" using x by auto
  note m = tiles_merge [OF D(2,5), of x y "\<lparr>hnext = hnext (h y), hsize = hsize (h x) + hsize (h y)\<rparr>", folded h'_def]
  have be': "bend h' x = bend h y" using m(2) in' be by simp
  then show "bend h' x = bend h y" .
  have r: "ring h' b (remove1 y qs)"
    by (rule ring_cong [OF ring_unlink(1) [OF D(1) at]]) (use x D(1) in \<open>auto simp: h'_def ring_def\<close>)
  show l: "b # remove1 y qs = pre @ x # post" by (rule ring_unlink(2) [OF D(1) at])
  have set: "set (remove1 y qs) = set qs - {y}" using d by simp
  have "set (remove1 y qs) \<union> A = set qs \<union> A - {y}" using in'(2) D(3) set by auto
  then have "tiles h' lo hi (set (remove1 y qs) \<union> A)" using m(1) in' be by simp
  then show "blocks h' b lo hi (remove1 y qs) A" using r D set by (auto simp: blocks_def)
  have "bend h' u = (if u = x then bend h y else bend h u)" for u using be' by (auto simp: h'_def)
  then show "touching h' (remove1 y qs) \<subseteq> {(u, v). (u, v) \<in> touching h qs \<and> u \<noteq> x \<and> v \<noteq> y} \<union> {(x, v) |v. (y, v) \<in> touching h qs}"
    unfolding touching_def set using in' by (auto split: if_splits)
  have "bend h x \<le> bend h' x" "unat x \<le> unat y" using be' be tiles_block(5) [OF D(2), of y] tiles_block(5) [OF D(2), of x] in' by auto
  then show "hsize (h x) \<le> hsize (h' x)" "hsize (h y) \<le> hsize (h' x)"
    using be' by (auto simp: bend_def word_le_nat_alt)
qed

text \<open>
  The two halves of \<open>kfree\<close> on the headers: block \<open>a\<close> takes over its upper neighbour or points at it, and \<open>p\<close>
  takes over \<open>a\<close> or points at it.
\<close>

definition link_up :: "u32 \<Rightarrow> u32 \<Rightarrow> (u32 \<Rightarrow> header) \<Rightarrow> u32 \<Rightarrow> header" where
  "link_up a p h = (let n = hnext (h p) in
     if a + hsize (h a) * 8 = n then h(a := \<lparr>hnext = hnext (h n), hsize = hsize (h a) + hsize (h n)\<rparr>)
     else h(a := h a\<lparr>hnext := n\<rparr>))"

definition link_low :: "u32 \<Rightarrow> u32 \<Rightarrow> (u32 \<Rightarrow> header) \<Rightarrow> u32 \<Rightarrow> header" where
  "link_low a p h =
     (if p + hsize (h p) * 8 = a then h(p := \<lparr>hnext = hnext (h a), hsize = hsize (h p) + hsize (h a)\<rparr>)
      else h(p := h p\<lparr>hnext := a\<rparr>))"

lemma blocks_link_up:
  assumes bl: "blocks h b lo hi qs A" and none: "touching h qs = {}" and a: "a \<in> A" and at: "b # qs = pre @ p # post"
    and ord: "\<forall>x \<in> set (pre @ [p]). x < a" "\<forall>x \<in> set post. a < x"
  defines "h1 \<equiv> (link_up a p h)(p := h p\<lparr>hnext := a\<rparr>)"
  shows "\<exists>qs1 post1. blocks h1 b lo hi qs1 (A - {a}) \<and> b # qs1 = pre @ p # a # post1 \<and> touching h1 qs1 \<subseteq> {(p, a)} \<and>
    hsize (h a) \<le> hsize (h1 a)"
proof -
  note D = blocksD [OF bl]
  let ?n = "hnext (h p)"
  let ?h0 = "h(a := h a\<lparr>hnext := ?n\<rparr>, p := h p\<lparr>hnext := a\<rparr>)" and ?qs0 = "tl (pre @ p # a # post)"
  note l = blocks_link [OF bl a at ord]
  have n: "?n = hd (post @ [b])" by (rule ring_next(1) [OF D(1) at])
  have ba: "b < a" and u: "unat (a + hsize (h a) * 8) = bend h a" using blocks_above [OF bl, of a] a by auto
  have pa: "p \<noteq> a" using ord(1) by auto
  have ne: "bend h a \<noteq> unat b" using tiles_block(5) [OF D(2), of a] a ba by (auto simp: word_less_nat_alt)
  show ?thesis
  proof (cases "a + hsize (h a) * 8 = ?n")
    case True
    then have be: "bend h a = unat ?n" using u by simp
    then have "post \<noteq> []" using ne n by auto
    then obtain post' where post: "post = ?n # post'" using n by (cases post) auto
    have an: "a < ?n" "p < ?n" using ord post by (metis list.set_intros(1), metis Un_iff list.set_intros(1) order_less_trans set_append)
    have at': "b # ?qs0 = (pre @ [p]) @ a # ?n # post'" using l(2) post by simp
    have be': "bend ?h0 a = unat ?n" using be l(5) by simp
    have ab: "a \<noteq> b" using ba by auto
    note m = blocks_merge [OF l(1) at' ab be']
    have h1: "?h0(a := \<lparr>hnext = hnext (?h0 ?n), hsize = hsize (?h0 a) + hsize (?h0 ?n)\<rparr>) = h1"
      using True pa an by (auto simp: h1_def link_up_def fun_eq_iff)
    have "touching h1 (remove1 ?n ?qs0) \<subseteq> {(p, a)}"
      using m(3) l(3) [OF none] an(1) order_less_imp_not_eq2 [OF an(2)] unfolding h1 n [symmetric] by auto
    then show ?thesis using m(1,2,5) unfolding h1
      by (intro exI [of _ "remove1 ?n ?qs0"] exI [of _ post']) (use pa in auto)
  next
    case False
    then have be: "bend h a \<noteq> unat ?n" using u by (metis word_unat_eq_iff)
    have h1: "?h0 = h1" using False by (simp add: h1_def link_up_def)
    have "touching ?h0 ?qs0 \<subseteq> {(p, a)}"
      using l(3) [OF none] be unfolding n [symmetric] by (auto simp: touching_def l(5))
    then show ?thesis using l(1,2) pa unfolding h1 [symmetric]
      by (intro exI [of _ ?qs0] exI [of _ post]) auto
  qed
qed

text \<open>What \<open>kfree\<close> leaves behind: the block is free, and no two free blocks touch.\<close>

lemma blocks_free:
  assumes bl: "blocks h b lo hi qs A" and none: "touching h qs = {}" and a: "a \<in> A" and at: "b # qs = pre @ p # post"
    and ord: "\<forall>x \<in> set (pre @ [p]). x < a" "\<forall>x \<in> set post. a < x"
  defines "h' \<equiv> link_low a p (link_up a p h)"
  shows "\<exists>qs'. blocks h' b lo hi qs' (A - {a}) \<and> touching h' qs' = {} \<and> p \<in> set (b # qs') \<and>
    (\<exists>c \<in> set qs'. hsize (h a) \<le> hsize (h' c)) \<and> (\<forall>c \<in> A - {a}. h' c = h c)"
proof -
  let ?h1 = "(link_up a p h)(p := h p\<lparr>hnext := a\<rparr>)"
  obtain qs1 post1 where 1: "blocks ?h1 b lo hi qs1 (A - {a})" "b # qs1 = pre @ p # a # post1" "touching ?h1 qs1 \<subseteq> {(p, a)}"
    "hsize (h a) \<le> hsize (?h1 a)" using blocks_link_up [OF bl none a at ord] by blast
  have pa: "p \<noteq> a" using ord(1) by auto
  have up: "link_up a p h p = h p" "c \<noteq> a \<Longrightarrow> link_up a p h c = h c" for c
    using pa by (simp_all add: link_up_def)
  have "p \<in> set (b # qs)" using at by simp
  then have "p \<notin> A" using blocksD(3) [OF bl] blocks_above(1) [OF bl, of p] by auto
  then have keep: "\<forall>c \<in> A - {a}. h' c = h c" using up by (auto simp: h'_def link_low_def)
  have ba: "b < a" using blocks_above(1) [OF bl] a by simp
  have "a \<in> set (b # qs1)" using 1(2) by simp
  then have aq: "a \<in> set qs1" using ba by auto
  have pq: "p \<in> set (b # qs1)" using 1(2) by simp
  show ?thesis
  proof (cases "p + hsize (h p) * 8 = a")
    case True
    have pb: "p \<noteq> b" using True pa blocksD(1) [OF bl] by (auto simp: ring_def)
    then have "p \<in> set qs" using \<open>p \<in> set (b # qs)\<close> by simp
    then have "bend h p = unat a" using blocks_above(3) [OF bl, of p] True by simp
    then have be: "bend ?h1 p = unat a" by (simp add: bend_def)
    note m = blocks_merge [OF 1(1,2) pb be]
    have h': "?h1(p := \<lparr>hnext = hnext (?h1 a), hsize = hsize (?h1 p) + hsize (?h1 a)\<rparr>) = h'"
      using True pa up by (simp add: h'_def link_low_def)
    have "touching h' (remove1 a qs1) = {}" using m(3) 1(3) pa unfolding h' by auto
    moreover have "p \<in> set (remove1 a qs1)" using pq pb pa by simp
    moreover have "hsize (h a) \<le> hsize (h' p)" using m(6) 1(4) unfolding h' by simp
    ultimately show ?thesis using m(1) keep unfolding h' by (intro exI [of _ "remove1 a qs1"]) auto
  next
    case False
    have h': "?h1 = h'" using False up by (simp add: h'_def link_low_def)
    have "p \<in> set qs1 \<Longrightarrow> bend ?h1 p \<noteq> unat a"
    proof -
      assume "p \<in> set qs1"
      then have "p \<noteq> b" using ring_distinct [OF blocksD(1) [OF 1(1)]] by auto
      then have "p \<in> set qs" using \<open>p \<in> set (b # qs)\<close> by simp
      then have "bend h p \<noteq> unat a" using blocks_above(3) [OF bl, of p] False by (metis UnI1 word_unat_eq_iff)
      then show ?thesis by (simp add: bend_def)
    qed
    then have "(p, a) \<notin> touching ?h1 qs1" by (simp add: touching_def)
    then have "touching h' qs1 = {}" using 1(3) unfolding h' [symmetric] by blast
    then show ?thesis using 1(1,4) aq pq keep unfolding h' by (intro exI [of _ qs1]) auto
  qed
qed

text \<open>\<open>kmalloc\<close> takes a whole free block,\<close>

lemma blocks_take:
  assumes bl: "blocks h b lo hi qs A" and none: "touching h qs = {}" and at: "b # qs = pre @ x # p # post"
  defines "h' \<equiv> h(x := h x\<lparr>hnext := hnext (h p)\<rparr>)"
  shows "blocks h' b lo hi (remove1 p qs) (insert p A)" "touching h' (remove1 p qs) = {}" "x \<in> set (b # remove1 p qs)"
    "p \<notin> A" "\<forall>a \<in> A. h' a = h a" "hsize (h' p) = hsize (h p)"
proof -
  note D = blocksD [OF bl]
  note r = ring_unlink [OF D(1) at, folded h'_def]
  have d: "distinct (b # qs)" using ring_distinct [OF D(1)] .
  have "x \<in> set (b # qs)" and p: "p \<in> set qs" using arg_cong [OF at, of tl] at by (simp, cases pre) auto
  then have xA: "x \<notin> A" using D(3) blocks_above(1) [OF bl, of b] by auto
  show pA: "p \<notin> A" using p D(3) by auto
  have set: "set (remove1 p qs) = set qs - {p}" using d by simp
  have u: "set (remove1 p qs) \<union> insert p A = set qs \<union> A" using p set by auto
  have sz: "\<forall>x. hsize (h' x) = hsize (h x)" by (simp add: h'_def)
  then have "tiles h' lo hi (set qs \<union> A)" using D(2) tiles_cong [of _ h' h] by blast
  then show "blocks h' b lo hi (remove1 p qs) (insert p A)"
    unfolding blocks_def u using r(1) D set by auto
  show "touching h' (remove1 p qs) = {}" using none sz set by (auto simp: touching_def bend_def)
  show "x \<in> set (b # remove1 p qs)" unfolding r(2) by simp
  show "\<forall>a \<in> A. h' a = h a" using xA by (auto simp: h'_def)
  show "hsize (h' p) = hsize (h p)" using sz by simp
qed

text \<open>or the end of a larger one.\<close>

lemma blocks_split:
  assumes bl: "blocks h b lo hi qs A" and none: "touching h qs = {}" and p: "p \<in> set qs" and n: "0 < n" "n < hsize (h p)"
  defines "q \<equiv> p + (hsize (h p) - n) * 8"
  defines "h' \<equiv> h(p := h p\<lparr>hsize := hsize (h p) - n\<rparr>, q := h q\<lparr>hsize := n\<rparr>)"
  shows "blocks h' b lo hi qs (insert q A)" "touching h' qs = {}" "q \<notin> set qs \<union> A" "q \<noteq> p" "\<forall>a \<in> A. h' a = h a" "hsize (h' q) = n"
    "lo \<le> unat q" "unat q < hi"
proof -
  note D = blocksD [OF bl]
  let ?k = "hsize (h p) - n"
  have k: "0 < ?k" "?k < hsize (h p)" "hsize (h p) - ?k = n"
    using n by (auto simp: word_less_nat_alt unat_sub word_le_nat_alt)
  have pB: "p \<in> set qs \<union> A" using p by simp
  note s = tiles_split [OF D(2,5) pB k(1,2), of "h p\<lparr>hsize := ?k\<rparr>" "h q\<lparr>hsize := n\<rparr>", folded q_def, folded h'_def]
  have s1: "tiles h' lo hi (insert q (set qs \<union> A))" and s4: "bend h' q = bend h p" using s(1,4) k(3) by simp_all
  show q: "q \<notin> set qs \<union> A" by (rule s(2)) (use k(3) in simp_all)
  have uq: "unat q = unat p + 8 * unat ?k" by (rule s(3)) (use k(3) in simp_all)
  show qp: "q \<noteq> p" using q p by auto
  note b = tiles_block [OF s1, of q]
  show "lo \<le> unat q" "unat q < hi" using b by simp_all
  then have "q \<noteq> b" using D(4) by auto
  then have "ring h' b qs"
    using q p D(1) ring_distinct [OF D(1)] by (intro ring_cong [OF D(1)]) (auto simp: h'_def ring_def)
  then show "blocks h' b lo hi qs (insert q A)"
    using s1 D q by (auto simp: blocks_def)
  have "bend h' x = (if x = p then unat q else bend h x)" if "x \<in> set qs" for x
    using that q qp uq by (auto simp: h'_def bend_def)
  then show "touching h' qs = {}" using none q by (auto simp: touching_def word_unat_eq_iff [symmetric] split: if_splits)
  show "\<forall>a \<in> A. h' a = h a" using q p D(3) by (auto simp: h'_def)
  show "hsize (h' q) = n" by (simp add: h'_def)
qed

text \<open>The heap grows by an allocated block.\<close>

lemma blocks_extend:
  assumes bl: "blocks h b lo hi qs A" and none: "touching h qs = {}" and a: "unat a = hi" "lo \<le> hi" "hi mod 8 = 0" "0 < n"
    "hi' = hi + 8 * unat n" "hi' < 2 ^ 32"
  defines "h' \<equiv> h(a := h a\<lparr>hsize := n\<rparr>)"
  shows "blocks h' b lo hi' qs (insert a A)" "touching h' qs = {}" "a \<notin> A" "\<forall>x \<in> A. h' x = h x"
proof -
  note D = blocksD [OF bl]
  note e = tiles_extend [OF D(2) a(1-3), of "h a\<lparr>hsize := n\<rparr>" hi', folded h'_def]
  have na: "a \<notin> set qs \<union> A" using e(2) a by simp
  have "a \<noteq> b" using D(4) a(1,2) by auto
  then have "ring h' b qs" using na D(1) by (intro ring_cong [OF D(1)]) (auto simp: h'_def ring_def)
  then show "blocks h' b lo hi' qs (insert a A)"
    using e(1) a D na by (auto simp: blocks_def)
  have "bend h' x = bend h x" if "x \<in> set qs" for x using that na by (auto simp: h'_def bend_def)
  then show "touching h' qs = {}" using none by (auto simp: touching_def)
  show "a \<notin> A" "\<forall>x \<in> A. h' x = h x" using na by (auto simp: h'_def)
qed

end
