(* ===== verification/Heap_Inv.thy ===== *)
theory Heap_Inv
  imports Heap_Blocks "HOL-Library.Sublist"
begin

text \<open>
  The kernel heap keeps its invariant.  \<open>heap_mem\<close> is about the pages of the heap, \<open>free_list\<close> about the
  circular list and the blocks, \<open>heap_ok\<close> is both.  The lemmas follow the code: \<open>ksbrk\<close> maps pages or
  fails, the search of \<open>kfree\<close> ends at the right place, \<open>morecore\<close> adds a block, and the search of
  \<open>kmalloc\<close> goes round the list at most twice, with at most one call of \<open>morecore\<close> in between.
\<close>

subsection \<open>Growing the heap\<close>

text \<open>
  What \<open>ksbrk\<close> does to the memory of the kernel: it takes frames and maps pages of the kernel's 4 MB.
  Nothing that was mapped is lost, and the window of \<open>paging_temp_map\<close> is left alone.
\<close>

definition grown :: "'a paging_scheme \<Rightarrow> 'a paging_scheme \<Rightarrow> bool" where
  "grown s s' \<longleftrightarrow> (\<exists>bm K S. s' = s\<lparr>bitmap := bm, kernel_page_table := K, stale := S\<rparr> \<and> S \<subseteq> stale s) \<and>
     length (kernel_page_table s') = length (kernel_page_table s) \<and>
     kernel_page_table s' ! 1023 = kernel_page_table s ! 1023 \<and>
     pfa_ok s' \<and> managed_frames s' = managed_frames s \<and> avail_frames s' \<subseteq> avail_frames s \<and>
     (\<forall>x. kmapped x s \<longrightarrow> kmapped x s')"

lemma grown_refl: "pfa_ok s \<Longrightarrow> grown s s"
proof -
  have "s = s\<lparr>bitmap := bitmap s, kernel_page_table := kernel_page_table s, stale := stale s\<rparr>" by simp
  then show "pfa_ok s \<Longrightarrow> grown s s" unfolding grown_def by blast
qed

lemma grown_trans: "grown s t \<Longrightarrow> grown t u \<Longrightarrow> grown s u"
  unfolding grown_def by fastforce

lemma grownD:
  assumes "grown s s'"
  shows "pfa_ok s'" "avail_frames s' \<subseteq> avail_frames s" "managed_frames s' = managed_frames s" "\<forall>x. kmapped x s \<longrightarrow> kmapped x s'"
  using assms by (simp_all add: grown_def)

lemma grown_ok: "grown s s' \<Longrightarrow> paging_ok s \<Longrightarrow> paging_ok s'"
  by (auto simp: grown_def paging_ok_def)

lemma kernel_region:
  assumes "0xC0000000 \<le> unat (x :: u32)" and "unat x < 0xC0400000"
  shows "drop_bit 22 x = (768 :: u32)" and "unat (drop_bit 12 x AND 0x3FF) = unat x div 4096 - 0xC0000"
proof -
  obtain y :: u32 where x: "x = 0xC0000000 + y" by (metis add.commute diff_add_cancel)
  have "unat (x - 0xC0000000) = unat x - 0xC0000000"
    using assms(1) by (subst unat_sub) (simp_all add: word_le_nat_alt)
  then have y: "unat y = unat x - 0xC0000000" using x by simp
  then have lt: "unat y < 2 ^ 22" using assms(2) by simp
  show "drop_bit 22 x = (768 :: u32)" unfolding x by (rule kernel_vaddr(1) [OF lt])
  have "unat x = 0xC0000 * 4096 + unat y" using y assms(1) by simp
  then have "unat x div 4096 = 0xC0000 + unat y div 4096" by (simp only: div_mult_self3)
  then show "unat (drop_bit 12 x AND 0x3FF) = unat x div 4096 - 0xC0000"
    unfolding x using kernel_vaddr(2) [OF lt] by simp
qed

lemma kmapped_map:
  assumes "length (kernel_page_table s) = 1024" and "drop_bit 22 a = (768 :: u32)" and "v AND 1 \<noteq> (0 :: u32)"
  shows "kmapped x (s\<lparr>kernel_page_table := (kernel_page_table s)[unat (drop_bit 12 a AND 0x3FF) := v],
      stale := stale s - {drop_bit 12 a}\<rparr>) \<longleftrightarrow> kmapped x s \<or> drop_bit 12 x = drop_bit 12 a"
proof (cases "drop_bit 12 x = drop_bit 12 a")
  case True
  then have "drop_bit 22 x = (768 :: u32)" using assms(2) page_number_eq [of x a] by simp
  with True show ?thesis
    using assms pt_index_less [of a] by (simp add: kmapped_def word_less_nat_alt)
next
  case False
  have "drop_bit 12 x AND 0x3FF \<noteq> drop_bit 12 a AND 0x3FF" if "drop_bit 22 x = (768 :: u32)"
    using False that assms(2) page_number_eq [of x a] by simp
  then have "drop_bit 22 x = (768 :: u32) \<longrightarrow> unat (drop_bit 12 x AND 0x3FF) \<noteq> unat (drop_bit 12 a AND 0x3FF)"
    by (simp add: word_unat_eq_iff)
  with False show ?thesis
    using assms(1) pt_index_less [of x] by (auto simp: kmapped_def word_less_nat_alt)
qed

lemma same_page:
  assumes "unat (a :: u32) mod 4096 = 0" and "unat a \<le> unat x" and "unat x < unat a + 4096"
  shows "drop_bit 12 x = drop_bit 12 a"
proof -
  have "unat x div 4096 = unat a div 4096"
  proof -
    from assms(1) obtain k where k: "unat a = 4096 * k" by (metis mod_0_imp_dvd dvdE)
    with assms(2,3) have "unat x div 4096 = k" by (intro div_nat_eqI) auto
    with k show ?thesis by simp
  qed
  then show ?thesis by (simp add: word_unat_eq_iff drop_bit_eq_div unat_div)
qed

lemma map_heap_page:
  assumes ok: "paging_ok s" "pfa_ok (s\<lparr>bitmap := bm\<rparr>)" "managed_frames (s\<lparr>bitmap := bm\<rparr>) = managed_frames s"
    "avail_frames (s\<lparr>bitmap := bm\<rparr>) \<subseteq> avail_frames s"
    and a: "unat a mod 4096 = 0" "0xC0000000 \<le> unat a" "unat a < 0xC03FF000"
  shows "\<exists>s'. paging_map_page a f 3 (s\<lparr>bitmap := bm\<rparr>) = Some s' \<and> grown s s' \<and>
    avail_frames s' = avail_frames (s\<lparr>bitmap := bm\<rparr>) \<and> (\<forall>x. unat a \<le> unat x \<and> unat x < unat a + 4096 \<longrightarrow> kmapped x s')"
proof -
  have k: "drop_bit 22 a = (768 :: u32)" using a by (intro kernel_region) auto
  have "unat (drop_bit 12 a AND 0x3FF) = unat a div 4096 - 0xC0000" using a by (intro kernel_region) auto
  then have i: "unat (drop_bit 12 a AND 0x3FF) \<noteq> 1023" using a(3) by auto
  have p: "((f AND 0xFFFFF000) OR 3) AND 1 \<noteq> (0 :: u32)" by (simp add: mask_or_3)
  let ?t = "s\<lparr>bitmap := bm\<rparr>"
  let ?u = "?t\<lparr>kernel_page_table := (kernel_page_table ?t)[unat (drop_bit 12 a AND 0x3FF) := (f AND 0xFFFFF000) OR 3],
      stale := stale ?t - {drop_bit 12 a}\<rparr>"
  have m: "paging_map_page a f 3 ?t = Some ?u"
    using ok(1) k by (intro map_kernel_page) (simp_all add: paging_ok_def)
  have km: "kmapped x ?u \<longleftrightarrow> kmapped x ?t \<or> drop_bit 12 x = drop_bit 12 a" for x
    using ok(1) by (intro kmapped_map k p) (simp_all add: paging_ok_def)
  have kt: "kmapped x ?t = kmapped x s" for x by (simp add: kmapped_def)
  have av: "avail_frames ?u = avail_frames ?t" "managed_frames ?u = managed_frames ?t" "pfa_ok ?u = pfa_ok ?t"
    by (simp_all add: avail_frames_def free_frames_def managed_frames_def pfa_ok_def)
  have "grown s ?u" unfolding grown_def av
    using ok i km kt by (auto simp: paging_ok_def)
  moreover have "kmapped x ?u" if "unat a \<le> unat x" "unat x < unat a + 4096" for x
    using km same_page [OF a(1) that] by simp
  ultimately show ?thesis using m av(1) by blast
qed

lemma ksbrk_loop_maps:
  assumes "paging_ok s" and "pfa_ok s" and "unat addr mod 4096 = 0" and "0xC0000000 \<le> unat addr"
    and "unat limit = unat addr + 4096 * n" and "unat limit \<le> 0xC03FF000"
  shows "\<exists>s'. ksbrk_loop addr limit s = Some (n \<le> card (avail_frames s), s') \<and> grown s s' \<and>
    card (avail_frames s) \<le> card (avail_frames s') + n \<and>
    (n \<le> card (avail_frames s) \<longrightarrow> (\<forall>x. unat addr \<le> unat x \<and> unat x < unat limit \<longrightarrow> kmapped x s'))"
  using assms
proof (induction n arbitrary: addr s)
  case 0
  then have eq: "unat limit = unat addr" by simp
  then have "\<not> addr < limit" by (simp add: word_less_nat_alt)
  then have "ksbrk_loop addr limit s = Some (True, s)" by (subst ksbrk_loop.simps) simp
  then show ?case using grown_refl [OF "0"(2)] eq by (intro exI [of _ s]) auto
next
  case (Suc n)
  have lt: "addr < limit" using Suc.prems(5) by (simp add: word_less_nat_alt)
  show ?case
  proof (rule pfa_alloc_cases [OF Suc.prems(2)])
    assume "pfa_alloc s = Some (0, s)" "avail_frames s = {}"
    then show ?thesis using lt grown_refl [OF Suc.prems(2)] by (intro exI [of _ s]) (subst ksbrk_loop.simps, simp)
  next
    fix f bm
    assume f: "pfa_alloc s = Some (f, s\<lparr>bitmap := bm\<rparr>)" "f \<in> avail_frames s" "f \<noteq> 0"
      "unat f mod 4096 = 0" "pfa_ok (s\<lparr>bitmap := bm\<rparr>)"
      "avail_frames (s\<lparr>bitmap := bm\<rparr>) = avail_frames s - {f}"
      "managed_frames (s\<lparr>bitmap := bm\<rparr>) = managed_frames s"
    have sub: "avail_frames (s\<lparr>bitmap := bm\<rparr>) \<subseteq> avail_frames s" using f(6) by auto
    have top: "unat addr < 0xC03FF000" using lt Suc.prems(6) by (simp only: word_less_nat_alt)
    obtain t where t: "paging_map_page addr f 3 (s\<lparr>bitmap := bm\<rparr>) = Some t" "grown s t"
      "avail_frames t = avail_frames (s\<lparr>bitmap := bm\<rparr>)" "\<forall>x. unat addr \<le> unat x \<and> unat x < unat addr + 4096 \<longrightarrow> kmapped x t"
      using map_heap_page [OF Suc.prems(1) f(5,7) sub Suc.prems(3,4) top, of f] by blast
    have card: "card (avail_frames s) = Suc (card (avail_frames t))"
      unfolding t(3) f(6) using card_Suc_Diff1 [OF _ f(2)] by (simp add: avail_frames_def)
    have ok: "paging_ok t" "pfa_ok t" using grown_ok [OF t(2) Suc.prems(1)] grownD(1) [OF t(2)] by auto
    have a: "unat (addr + 4096) = unat addr + 4096"
      using top by (intro unat_add_small [of _ 4096, simplified]) simp
    have b: "unat (addr + 4096) mod 4096 = 0" "0xC0000000 \<le> unat (addr + 4096)" "unat limit = unat (addr + 4096) + 4096 * n"
      using Suc.prems(3-5) unfolding a by simp_all
    obtain s' where s': "ksbrk_loop (addr + 4096) limit t = Some (n \<le> card (avail_frames t), s')" "grown t s'"
      "card (avail_frames t) \<le> card (avail_frames s') + n"
      "n \<le> card (avail_frames t) \<longrightarrow> (\<forall>x. unat (addr + 4096) \<le> unat x \<and> unat x < unat limit \<longrightarrow> kmapped x s')"
      using Suc.IH [OF ok b Suc.prems(6)] by blast
    have "kmapped x s'" if "n \<le> card (avail_frames t)" "unat addr \<le> unat x" "unat x < unat limit" for x
      using that t(4) s'(4) a grownD(4) [OF s'(2)] by (cases "unat x < unat addr + 4096") auto
    moreover have "ksbrk_loop addr limit s = Some (Suc n \<le> card (avail_frames s), s')"
      using lt f(1,3) t(1) s'(1) card by (subst ksbrk_loop.simps) simp
    ultimately show ?thesis using card s'(3) grown_trans [OF t(2) s'(2)] by (intro exI [of _ s']) simp
  qed
qed

text \<open>The memory of the heap: its bounds are page aligned, and the sentinel and every page in between are mapped.\<close>

definition heap_mem :: "nat \<Rightarrow> 'a kheap_scheme \<Rightarrow> bool" where
  "heap_mem lo s \<longleftrightarrow> paging_ok s \<and> pfa_ok s \<and> heap_max s = TEMP_MAP_VADDR \<and>
     lo mod 4096 = 0 \<and> unat (heap_current s) mod 4096 = 0 \<and>
     0xC0000000 \<le> unat (base_addr s) \<and> unat (base_addr s) < lo \<and>
     lo \<le> unat (heap_current s) \<and> unat (heap_current s) \<le> 0xC03FF000 \<and> kmapped (base_addr s) s \<and>
     (\<forall>x. lo \<le> unat x \<and> unat x < unat (heap_current s) \<longrightarrow> kmapped x s)"

lemma kmapped_hdrs [simp]:
  "kmapped x (s\<lparr>hdrs := h\<rparr>) = kmapped x s" "kmapped x (s\<lparr>freep := p\<rparr>) = kmapped x s"
  "kmapped x (s\<lparr>heap_current := p\<rparr>) = kmapped x s"
  by (simp_all add: kmapped_def)

lemma heap_mem_hdrs [simp]:
  "heap_mem lo (s\<lparr>hdrs := h\<rparr>) = heap_mem lo s" "heap_mem lo (s\<lparr>freep := p\<rparr>) = heap_mem lo s"
  by (simp_all add: heap_mem_def paging_ok_def pfa_ok_def)

lemma grown_heap:
  assumes "grown s (s' :: 'a kheap_scheme)"
  shows "hdrs s' = hdrs s" "freep s' = freep s" "heap_current s' = heap_current s" "heap_max s' = heap_max s"
    "base_addr s' = base_addr s"
  using assms by (auto simp: grown_def)

lemma grown_heap_mem: "heap_mem lo s \<Longrightarrow> grown s s' \<Longrightarrow> heap_mem lo s'"
  using grown_heap [of s s'] grown_ok [of s s'] by (auto simp: heap_mem_def grown_def)

lemma round_up_pages:
  assumes "unat nbytes mod 4096 = 0" and "unat nbytes \<le> 0x3F800000"
  shows "(nbytes + PAGE_SIZE - 1) AND NOT (PAGE_SIZE - 1) = nbytes"
proof -
  have "unat (nbytes + 4095 AND - 4096) = (unat nbytes + 4095) div 4096 * 4096"
    using assms(2) by (intro unat_page_round_up) simp
  also have "\<dots> = unat nbytes" using assms(1) by (auto simp: mod_eq_0_iff_dvd)
  finally show ?thesis by (simp add: word_unat_eq_iff add.commute)
qed

lemma ksbrk_cases:
  assumes m: "heap_mem lo s" and n: "unat nbytes = 4096 * n" "unat nbytes \<le> 0x3F800000"
  obtains "ksbrk nbytes s = Some (PTR_FAIL, s)" "0xC03FF000 < unat (heap_current s) + unat nbytes"
  | s' where "ksbrk nbytes s = Some (PTR_FAIL, s')" "grown s s'" "card (avail_frames s) < n"
  | s' where "ksbrk nbytes s = Some (heap_current s, s'\<lparr>heap_current := heap_current s + nbytes\<rparr>)" "grown s s'"
      "heap_mem lo (s'\<lparr>heap_current := heap_current s + nbytes\<rparr>)" "unat (heap_current s + nbytes) = unat (heap_current s) + unat nbytes"
      "card (avail_frames s) \<le> card (avail_frames s') + n"
proof -
  let ?c = "heap_current s"
  have r: "(nbytes + PAGE_SIZE - 1) AND NOT (PAGE_SIZE - 1) = nbytes" using n by (intro round_up_pages) auto
  have c: "unat ?c \<le> 0xC03FF000" "heap_max s = 0xC03FF000" "paging_ok s" "pfa_ok s" "unat ?c mod 4096 = 0" "0xC0000000 \<le> unat ?c"
    using m by (auto simp: heap_mem_def)
  have u: "unat (?c + nbytes) = unat ?c + unat nbytes" using c(1) n(2) by (intro unat_add_small) simp
  show thesis
  proof (cases "0xC03FF000 < unat ?c + unat nbytes")
    case True
    then have "ksbrk nbytes s = Some (PTR_FAIL, s)"
      unfolding ksbrk_def r Let_def using c(2) u by (simp add: word_less_nat_alt)
    with True show thesis by (intro that(1))
  next
    case False
    then obtain s' where s': "ksbrk_loop ?c (?c + nbytes) s = Some (n \<le> card (avail_frames s), s')" "grown s s'"
      "card (avail_frames s) \<le> card (avail_frames s') + n"
      "n \<le> card (avail_frames s) \<longrightarrow> (\<forall>x. unat ?c \<le> unat x \<and> unat x < unat (?c + nbytes) \<longrightarrow> kmapped x s')"
      using ksbrk_loop_maps [OF c(3-6), of "?c + nbytes" n] u n(1) by auto
    have k: "ksbrk nbytes s = Some (if n \<le> card (avail_frames s) then (?c, s'\<lparr>heap_current := ?c + nbytes\<rparr>) else (PTR_FAIL, s'))"
      unfolding ksbrk_def r Let_def using False c(2) u s'(1) grown_heap [OF s'(2)] by (simp add: word_less_nat_alt)
    have h: "heap_mem lo s'" using grown_heap_mem [OF m s'(2)] .
    show thesis
    proof (cases "n \<le> card (avail_frames s)")
      case True
      have "kmapped x s'" if "lo \<le> unat x" "unat x < unat (?c + nbytes)" for x
        using True h s'(4) that grown_heap [OF s'(2)] unfolding heap_mem_def by (cases "unat x < unat ?c") auto
      then have "heap_mem lo (s'\<lparr>heap_current := ?c + nbytes\<rparr>)"
        using h u n(1) c(5) False grown_heap [OF s'(2)] by (auto simp: heap_mem_def paging_ok_def pfa_ok_def)
      with True k s'(2,3) u show thesis by (intro that(3)) auto
    next
      case False
      with k s'(2) show thesis by (intro that(2)) auto
    qed
  qed
qed

subsection \<open>Releasing a block\<close>

definition free_list :: "nat \<Rightarrow> u32 set \<Rightarrow> u32 list \<Rightarrow> 'a kheap_scheme \<Rightarrow> bool" where
  "free_list lo A qs s \<longleftrightarrow> blocks (hdrs s) (base_addr s) lo (unat (heap_current s)) qs A \<and>
     touching (hdrs s) qs = {} \<and> freep s \<in> set (base_addr s # qs)"

lemma free_listD:
  assumes "free_list lo A qs s"
  shows "blocks (hdrs s) (base_addr s) lo (unat (heap_current s)) qs A" "touching (hdrs s) qs = {}"
    "freep s \<in> set (base_addr s # qs)"
  using assms by (simp_all add: free_list_def)

text \<open>Every header of the heap can be read.\<close>

lemma headers_mapped:
  assumes "heap_mem lo s" and "blocks h (base_addr s) lo (unat (heap_current s)) qs A" and "a \<in> set (base_addr s # qs) \<union> A"
  shows "kmapped a s"
proof (cases "a = base_addr s")
  case True
  then show ?thesis using assms(1) by (simp add: heap_mem_def)
next
  case False
  then have "a \<in> set qs \<union> A" using assms(3) by auto
  from tiles_block [OF blocksD(2) [OF assms(2)] this] assms(1) show ?thesis by (auto simp: heap_mem_def)
qed

lemma kfree_find_step:
  assumes "kmapped p s"
  shows "kfree_find a p s = (let n = hnext (hdrs s p) in
    if a > p \<and> a < n \<or> p \<ge> n \<and> (a > p \<or> a < n) then Some p else kfree_find a n s)"
  using assms by (subst kfree_find.simps) (auto simp: hdr_read_def)

lemma kfree_find_forward:
  assumes "seg (links (hdrs s)) x (xs @ [p]) z" and "\<forall>y \<in> set (xs @ [p]). kmapped y s \<and> y < a"
    and "sorted_wrt (<) (xs @ [p])" and "a < z \<or> z \<le> p"
  shows "kfree_find a x s = Some p"
  using assms
proof (induction xs arbitrary: x)
  case Nil
  then show ?case using kfree_find_step [of p s a] by (auto simp: links_def)
next
  case (Cons y ys)
  let ?n = "hnext (hdrs s y)"
  have x: "x = y" "seg (links (hdrs s)) ?n (ys @ [p]) z" using Cons.prems(1) by (simp_all only: append_Cons seg_links_Cons)
  have "?n \<in> set (ys @ [p])" using seg_start [OF x(2)] by (metis Nil_is_append_conv hd_in_set list.distinct(1))
  then have "y < ?n" "?n < a" using Cons.prems(2,3) by auto
  moreover have "kfree_find a ?n s = Some p" using Cons.IH [OF x(2)] Cons.prems by auto
  ultimately show ?case using Cons.prems(2) x(1) kfree_find_step [of y s a] by auto
qed

lemma kfree_find_around:
  assumes "seg (links (hdrs s)) x xs b" and "\<forall>y \<in> set xs. kmapped y s \<and> a < y" and "sorted_wrt (<) xs" and "b < a"
  shows "kfree_find a x s = kfree_find a b s"
  using assms
proof (induction xs arbitrary: x)
  case (Cons y ys)
  let ?n = "hnext (hdrs s y)"
  have x: "x = y" "seg (links (hdrs s)) ?n ys b" using Cons.prems(1) by (simp_all only: append_Cons seg_links_Cons)
  have "?n = b \<or> y < ?n" using seg_start [OF x(2)] x(2) Cons.prems(3) by (cases ys) auto
  moreover have "a < y" using Cons.prems(2) by simp
  moreover have "kfree_find a ?n s = kfree_find a b s" using Cons.IH [OF x(2)] Cons.prems by auto
  ultimately show ?case using Cons.prems(2,4) x(1) kfree_find_step [of y s a] by auto
qed simp

text \<open>The search ends at the place of the block, wherever it starts.\<close>

lemma kfree_find_place:
  assumes r: "ring (hdrs s) b qs" and m: "\<forall>x \<in> set (b # qs). kmapped x s" and f: "f \<in> set (b # qs)"
    and at: "b # qs = pre @ p # post" and ord: "\<forall>x \<in> set (pre @ [p]). x < a" "\<forall>x \<in> set post. a < x"
  shows "kfree_find a f s = Some p"
proof -
  let ?z = "hnext (hdrs s p)"
  note n = ring_next [OF r at]
  have sorted: "sorted_wrt (<) (pre @ p # post)" using r at by (simp only: ring_def)
  have bp: "b \<le> p" using sorted at by (cases pre) auto
  have "b = hd (pre @ [p])" using at by (cases pre) auto
  then have ba: "b < a" using ord(1) by (cases pre) auto
  have z: "a < ?z \<or> ?z \<le> p" using n(1) ord(2) bp by (cases post) auto
  have m1: "\<forall>x \<in> set (pre @ [p]). kmapped x s \<and> x < a" and m2: "\<forall>x \<in> set post. kmapped x s \<and> a < x"
    using m ord unfolding at by auto
  have fwd: "kfree_find a x s = Some p" if sg: "seg (links (hdrs s)) x (xs @ [p]) ?z" and sf: "suffix (xs @ [p]) (pre @ [p])" for x xs
  proof (rule kfree_find_forward [OF sg _ _ z])
    obtain ys where ys: "pre @ [p] = ys @ (xs @ [p])" using sf by (auto elim: suffixE)
    show "\<forall>y \<in> set (xs @ [p]). kmapped y s \<and> y < a" using m1 unfolding ys by auto
    have "sorted_wrt (<) (pre @ [p])" using sorted by (auto simp: sorted_wrt_append)
    then show "sorted_wrt (<) (xs @ [p])" unfolding ys by (auto simp: sorted_wrt_append)
  qed
  show ?thesis
  proof (cases "f \<in> set post")
    case True
    then obtain us vs where us: "post = us @ f # vs" by (meson split_list)
    have "seg (links (hdrs s)) f (f # vs) b" using n(3) unfolding us by (auto simp: seg_append)
    moreover have "sorted_wrt (<) (f # vs)" using sorted unfolding us by (auto simp: sorted_wrt_append)
    ultimately have "kfree_find a f s = kfree_find a b s" using m2 ba unfolding us by (intro kfree_find_around [where xs = "f # vs"]) auto
    also have "\<dots> = Some p" by (rule fwd [OF n(2)]) simp
    finally show ?thesis .
  next
    case False
    then have "f \<in> set (pre @ [p])" using f unfolding at by auto
    then obtain us vs where us: "pre @ [p] = us @ f # vs" by (meson split_list)
    have "f # vs = butlast (f # vs) @ [p]" using us by (metis append_butlast_last_id last_appendR last_snoc list.distinct(1))
    moreover have "seg (links (hdrs s)) f (f # vs) ?z" using n(2) unfolding us by (auto simp: seg_append)
    ultimately show ?thesis using us by (metis fwd suffixI)
  qed
qed

lemma header_fields: "h\<lparr>hsize := x, hnext := y\<rparr> = \<lparr>hnext = y, hsize = x\<rparr>" "h\<lparr>hnext := y, hsize := x\<rparr> = \<lparr>hnext = y, hsize = x\<rparr>"
  by (rule header.equality; simp)+

lemma kfree_links:
  assumes "kfree_find a (freep s) s = Some p" and "kmapped a s" and "kmapped p s" and "kmapped (hnext (hdrs s p)) s"
    and "p \<noteq> a" and "hnext (hdrs s p) \<noteq> a" and "a + 8 \<noteq> 0"
  shows "kfree (a + 8) s = Some (s\<lparr>hdrs := link_low a p (link_up a p (hdrs s)), freep := p\<rparr>)"
  using assms by (simp add: kfree_def hdr_read_def hdr_write_def link_up_def link_low_def header_fields)

lemma kfree_blocks:
  assumes m: "heap_mem lo s" and fl: "free_list lo A qs s" and a: "a \<in> A"
  shows "\<exists>h p qs'. kfree (a + 8) s = Some (s\<lparr>hdrs := h, freep := p\<rparr>) \<and> free_list lo (A - {a}) qs' (s\<lparr>hdrs := h, freep := p\<rparr>) \<and>
    (\<exists>c \<in> set qs'. hsize (hdrs s a) \<le> hsize (h c)) \<and> (\<forall>c \<in> A - {a}. h c = hdrs s c)"
proof -
  let ?h = "hdrs s" and ?b = "base_addr s"
  note D = free_listD [OF fl] and R = blocksD [OF free_listD(1) [OF fl]]
  have ba: "?b < a" using blocks_above(1) [OF D(1)] a by simp
  have aq: "a \<notin> set (?b # qs)" using R(3) a ba by auto
  obtain pre p post where at: "?b # qs = pre @ p # post" and ord: "\<forall>x \<in> set (pre @ [p]). x < a" "\<forall>x \<in> set post. a < x"
    using ring_place [OF R(1) ba] aq by (metis list.set_intros(2))
  note mapped = headers_mapped [OF m D(1)]
  have p: "p \<in> set (?b # qs)" using at by simp
  have n: "hnext (?h p) \<in> set (?b # qs)"
    unfolding ring_next(1) [OF R(1) at] using arg_cong [OF at, of set] by (cases post) auto
  have top: "unat a + 8 \<le> bend ?h a" using tiles_block(4) [OF R(2), of a] a by (simp add: bend_def word_less_nat_alt)
  then have "unat (a + 8) = unat a + 8" using blocks_above(2) [OF D(1), of a] a by (intro unat_add_small [of _ 8, simplified]) simp
  then have "a + 8 \<noteq> 0" by (metis add_is_0 unat_0 zero_neq_numeral)
  moreover have "kfree_find a (freep s) s = Some p"
    using mapped by (intro kfree_find_place [OF R(1) _ D(3) at ord]) blast
  ultimately have k: "kfree (a + 8) s = Some (s\<lparr>hdrs := link_low a p (link_up a p ?h), freep := p\<rparr>)"
    using mapped p n a aq by (intro kfree_links) auto
  from blocks_free [OF D(1,2) a at ord] obtain qs' where
    "blocks (link_low a p (link_up a p ?h)) ?b lo (unat (heap_current s)) qs' (A - {a})"
    "touching (link_low a p (link_up a p ?h)) qs' = {}" "p \<in> set (?b # qs')"
    "\<exists>c \<in> set qs'. hsize (?h a) \<le> hsize (link_low a p (link_up a p ?h) c)"
    "\<forall>c \<in> A - {a}. link_low a p (link_up a p ?h) c = ?h c" by blast
  then show ?thesis using k by (intro exI [of _ "link_low a p (link_up a p ?h)"] exI [of _ p] exI [of _ qs']) (simp add: free_list_def)
qed

subsection \<open>Asking for more memory\<close>

text \<open>The bytes \<open>morecore\<close> asks for: at least \<open>NALLOC\<close> units, and whole pages.\<close>

definition core_bytes :: "nat \<Rightarrow> nat" where
  "core_bytes n = (8 * max 128 n + 4095) div 4096 * 4096"

lemma core_bytes_ge: "8 * n \<le> core_bytes n" "8 * 128 \<le> core_bytes n"
proof -
  have "8 * max 128 n \<le> core_bytes n" unfolding core_bytes_def by (simp add: minus_mod_eq_div_mult [symmetric])
  then show "8 * n \<le> core_bytes n" "8 * 128 \<le> core_bytes n" by simp_all
qed

lemma morecore_bytes:
  assumes "unat nunits \<le> 0x7F00000"
  defines "n \<equiv> (if nunits < NALLOC then NALLOC else nunits)"
  shows "unat ((n * sizeof_Header + PAGE_SIZE - 1) AND NOT (PAGE_SIZE - 1)) = core_bytes (unat nunits)"
    and "core_bytes (unat nunits) \<le> 0x3F800000"
proof -
  have n: "unat n = max 128 (unat nunits)" unfolding n_def by (simp add: word_less_nat_alt max_def)
  have "unat (n * 8) = 8 * unat n" using n assms(1) by (intro unat_units) simp
  then have "unat (n * 8 + 4095 AND - 4096) = core_bytes (unat nunits)"
    using unat_page_round_up [of "n * 8"] n assms(1) by (simp add: core_bytes_def)
  then show "unat ((n * sizeof_Header + PAGE_SIZE - 1) AND NOT (PAGE_SIZE - 1)) = core_bytes (unat nunits)"
    by (simp add: add.commute)
  show "core_bytes (unat nunits) \<le> 0x3F800000"
    unfolding core_bytes_def using assms(1) div_le_mono [of "8 * max 128 (unat nunits) + 4095" "0x3F800000 + 4095" 4096] by simp
qed

text \<open>What any operation of the heap may change: the frames and pages of \<open>grown\<close>, and its own variables.\<close>

definition heap_step :: "'a kheap_scheme \<Rightarrow> 'a kheap_scheme \<Rightarrow> bool" where
  "heap_step s s' \<longleftrightarrow> (\<exists>t h p c. grown s t \<and> s' = t\<lparr>hdrs := h, freep := p, heap_current := c\<rparr>)"

text \<open>How much of the frames and of the addresses of the heap a call uses at most.\<close>

definition uses :: "nat \<Rightarrow> 'a kheap_scheme \<Rightarrow> 'a kheap_scheme \<Rightarrow> bool" where
  "uses n s s' \<longleftrightarrow> 4096 * card (avail_frames s) \<le> 4096 * card (avail_frames s') + n \<and>
     unat (heap_current s') \<le> unat (heap_current s) + n"

lemma morecore_cases:
  fixes s :: "'a kheap_scheme"
  assumes m: "heap_mem lo s" and fl: "free_list lo A qs s" and n: "unat nunits \<le> 0x7F00000"
  obtains s' where "morecore nunits s = Some (0, s')" "grown s s'" "heap_mem lo s'" "free_list lo A qs s'"
      "0xC03FF000 < unat (heap_current s) + core_bytes (unat nunits) \<or> 4096 * card (avail_frames s) < core_bytes (unat nunits)"
  | s' qs' where "morecore nunits s = Some (freep s', s')" "heap_step s s'" "heap_mem lo s'" "free_list lo A qs' s'"
      "\<exists>c \<in> set qs'. nunits \<le> hsize (hdrs s' c)" "\<forall>a \<in> A. hdrs s' a = hdrs s a" "uses (core_bytes (unat nunits)) s s'"
proof -
  note D = free_listD [OF fl] and R = blocksD [OF free_listD(1) [OF fl]]
  let ?N = "core_bytes (unat nunits)"
  define k where "k = (if nunits < NALLOC then NALLOC else nunits)"
  define nbytes where "nbytes = (k * sizeof_Header + PAGE_SIZE - 1) AND NOT (PAGE_SIZE - 1)"
  have nb: "unat nbytes = ?N" "?N \<le> 0x3F800000"
    using morecore_bytes [OF n] unfolding nbytes_def k_def by simp_all
  have mc: "morecore nunits s = do {
      (p, s) \<leftarrow> ksbrk nbytes s;
      if p = PTR_FAIL then Some (0, s)
      else do { s \<leftarrow> hdr_write p (\<lambda>h. h\<lparr>hsize := nbytes div sizeof_Header\<rparr>) s;
        s \<leftarrow> kfree (p + sizeof_Header) s; Some (freep s, s) } }"
    unfolding morecore_def Let_def nbytes_def k_def by (rule refl)
  obtain j where j: "?N = 4096 * j" by (simp add: core_bytes_def mult.commute)
  have kept: "free_list lo A qs s'" if "grown s s'" for s' using fl grown_heap [OF that] by (simp add: free_list_def)
  have uj: "unat nbytes = 4096 * j" "unat nbytes \<le> 0x3F800000" using nb j by simp_all
  show thesis
  proof (rule ksbrk_cases [OF m uj])
    assume "ksbrk nbytes s = Some (PTR_FAIL, s)" "0xC03FF000 < unat (heap_current s) + unat nbytes"
    then show thesis using mc m fl nb by (intro that(1) [of s] grown_refl) (auto simp: heap_mem_def)
  next
    fix s' assume k: "ksbrk nbytes s = Some (PTR_FAIL, s')" "grown s s'" "card (avail_frames s) < j"
    then show thesis using mc j by (intro that(1) [of s']) (auto intro: kept grown_heap_mem [OF m])
  next
    fix t :: "'a kheap_scheme"
    let ?c = "heap_current s"
    let ?t = "t\<lparr>heap_current := ?c + nbytes\<rparr>"
    assume k: "ksbrk nbytes s = Some (?c, ?t)" "grown s t" "heap_mem lo ?t" "unat (?c + nbytes) = unat ?c + unat nbytes"
      "card (avail_frames s) \<le> card (avail_frames t) + j"
    note g = grown_heap [OF k(2)]
    have c: "unat ?c \<le> 0xC03FF000" "unat ?c mod 4096 = 0" "lo \<le> unat ?c" using m by (auto simp: heap_mem_def)
    then have c8: "unat ?c mod 8 = 0" using mod_mod_cancel [of 8 4096 "unat ?c"] by simp
    have top: "unat ?c + ?N \<le> 0xC03FF000" using k(3,4) nb(1) by (simp add: heap_mem_def)
    let ?sz = "nbytes div sizeof_Header"
    have sz: "unat ?sz = ?N div 8" "8 * unat ?sz = ?N" using nb(1) j by (simp_all add: unat_div)
    have pos: "0 < ?sz" and le: "nunits \<le> ?sz"
      using sz core_bytes_ge [of "unat nunits"] by (auto simp: word_less_nat_alt word_le_nat_alt)
    have "hdrs ?t = hdrs s" "base_addr ?t = base_addr s" using g by simp_all
    let ?u = "?t\<lparr>hdrs := (hdrs s)(?c := hdrs s ?c\<lparr>hsize := ?sz\<rparr>)\<rparr>"
    have "kmapped ?c ?t" using k(3,4) c(3) nb(1) core_bytes_ge(2) [of "unat nunits"] by (simp add: heap_mem_def)
    then have w: "hdr_write ?c (\<lambda>h. h\<lparr>hsize := ?sz\<rparr>) ?t = Some ?u" using g by (simp add: hdr_write_def)
    have e: "blocks (hdrs ?u) (base_addr ?u) lo (unat (heap_current ?u)) qs (insert ?c A)" "touching (hdrs ?u) qs = {}"
        "?c \<notin> A" "\<forall>x \<in> A. hdrs ?u x = hdrs s x"
      using blocks_extend [OF D(1,2) refl c(3) c8 pos, of "unat ?c + ?N"] sz(2) top k(4) nb(1) g by simp_all
    then have fl': "free_list lo (insert ?c A) qs ?u" using D(3) g by (simp add: free_list_def)
    have mu: "heap_mem lo ?u" using k(3) by simp
    obtain h p qs' where f: "kfree (?c + 8) ?u = Some (?u\<lparr>hdrs := h, freep := p\<rparr>)"
      "free_list lo (insert ?c A - {?c}) qs' (?u\<lparr>hdrs := h, freep := p\<rparr>)"
      "\<exists>x \<in> set qs'. hsize (hdrs ?u ?c) \<le> hsize (h x)" "\<forall>x \<in> insert ?c A - {?c}. h x = hdrs ?u x"
      using kfree_blocks [OF mu fl', of ?c] by blast
    let ?v = "?u\<lparr>hdrs := h, freep := p\<rparr>"
    have "?c \<noteq> PTR_FAIL" using c(1) by (auto simp: word_unat_eq_iff)
    then have "morecore nunits s = Some (freep ?v, ?v)" using mc k(1) w f(1) by simp
    moreover have "heap_step s ?v" unfolding heap_step_def
      by (intro exI [of _ t] exI [of _ h] exI [of _ p] exI [of _ "?c + nbytes"] conjI k(2)) simp
    moreover have "heap_mem lo ?v" using mu by simp
    moreover have "free_list lo A qs' ?v" using f(2) e(3) by simp
    moreover have "\<exists>x \<in> set qs'. nunits \<le> hsize (hdrs ?v x)" using f(3) le by (auto intro: order_trans)
    moreover have "\<forall>a \<in> A. hdrs ?v a = hdrs s a" using f(4) e(3,4) by auto
    moreover have "avail_frames ?v = avail_frames t" by (simp add: avail_frames_def free_frames_def)
    then have "uses ?N s ?v" using k(4,5) j nb(1) by (simp add: uses_def)
    ultimately show thesis by (rule that(2))
  qed
qed

subsection \<open>Taking a block\<close>

lemma kmalloc_take:
  assumes m: "heap_mem lo s" and fl: "free_list lo A qs s" and prev: "prev \<in> set (base_addr s # qs)" "hnext (hdrs s prev) = p"
    and p: "p \<in> set qs" and n: "0 < n" "n \<le> hsize (hdrs s p)"
  shows "\<exists>h q qs'. kmalloc_loop n prev p s = Some (q + 8, s\<lparr>hdrs := h, freep := prev\<rparr>) \<and>
    free_list lo (insert q A) qs' (s\<lparr>hdrs := h, freep := prev\<rparr>) \<and> q \<notin> A \<and> hsize (h q) = n \<and> (\<forall>a \<in> A. h a = hdrs s a)"
proof -
  let ?h = "hdrs s" and ?b = "base_addr s"
  note D = free_listD [OF fl] and R = blocksD [OF free_listD(1) [OF fl]]
  have km: "kmapped p s" "kmapped prev s" using headers_mapped [OF m D(1)] p prev(1) by auto
  show ?thesis
  proof (cases "hsize (?h p) = n")
    case True
    have "p \<noteq> ?b" using p ring_distinct [OF R(1)] by auto
    then obtain pre post where at: "?b # qs = pre @ prev # p # post"
      using seg_successor [of "links ?h" ?b "?b # qs" ?b prev] R(1) prev unfolding ring_def links_def by metis
    note t = blocks_take [OF D(1,2) at]
    have "kmalloc_loop n prev p s = Some (p + 8, s\<lparr>hdrs := ?h(prev := ?h prev\<lparr>hnext := hnext (?h p)\<rparr>), freep := prev\<rparr>)"
      using True km by (subst kmalloc_loop.simps) (simp add: hdr_read_def hdr_write_def)
    then show ?thesis using t True by (intro exI conjI) (assumption, simp_all add: free_list_def)
  next
    case False
    then have lt: "n < hsize (?h p)" using n(2) by simp
    note t = blocks_split [OF D(1,2) p n(1) lt]
    let ?q = "p + (hsize (?h p) - n) * 8"
    have "kmapped ?q s" using m t(7,8) by (simp add: heap_mem_def)
    then have "kmalloc_loop n prev p s = Some (?q + 8,
        s\<lparr>hdrs := ?h(p := ?h p\<lparr>hsize := hsize (?h p) - n\<rparr>, ?q := ?h ?q\<lparr>hsize := n\<rparr>), freep := prev\<rparr>)"
      using False n(2) km t(4) by (subst kmalloc_loop.simps) (simp add: hdr_read_def hdr_write_def)
    then show ?thesis using t prev(1) by (intro exI conjI) (assumption, simp_all add: free_list_def)
  qed
qed

lemma kmalloc_skip:
  assumes "kmapped p s" and "hsize (hdrs s p) < n"
  shows "kmalloc_loop n prev p s = (if p = freep s then do {
      (q, s) \<leftarrow> morecore n s; if q = 0 then Some (0, s) else do { h \<leftarrow> hdr_read q s; kmalloc_loop n q (hnext h) s } }
    else kmalloc_loop n p (hnext (hdrs s p)) s)"
proof -
  have "\<not> n \<le> hsize (hdrs s p)" "hdr_read p s = Some (hdrs s p)" using assms by (simp_all add: hdr_read_def)
  then show ?thesis by (subst kmalloc_loop.simps) simp
qed

lemma kmalloc_walk:
  assumes "seg (links (hdrs s)) x (ys @ [p]) z" and "\<forall>y \<in> set ys. kmapped y s \<and> hsize (hdrs s y) < n \<and> y \<noteq> freep s"
    and "hnext (hdrs s prev) = x"
  shows "kmalloc_loop n prev x s = kmalloc_loop n (last (prev # ys)) p s \<and> hnext (hdrs s (last (prev # ys))) = p"
  using assms
proof (induction ys arbitrary: prev x)
  case (Cons y ys)
  have x: "x = y" "seg (links (hdrs s)) (hnext (hdrs s y)) (ys @ [p]) z"
    using Cons.prems(1) by (simp_all only: append_Cons seg_links_Cons)
  have "kmalloc_loop n prev y s = kmalloc_loop n y (hnext (hdrs s y)) s"
    using Cons.prems(2) kmalloc_skip [of y s n prev] by simp
  with Cons.IH [OF x(2), of y] Cons.prems(2) x(1) show ?case by simp
qed simp

text \<open>The search goes once round the list, and stops at the first block that is large enough.\<close>

lemma ring_round:
  assumes "ring h b qs" and "f \<in> set (b # qs)"
  obtains rs where "seg (links h) (hnext (h f)) (rs @ [f]) (hnext (h f))" "distinct (rs @ [f])" "set (rs @ [f]) = set (b # qs)"
proof -
  obtain pre post where at: "b # qs = pre @ f # post" using assms(2) by (meson split_list)
  have "seg (links h) b (pre @ f # post) b" using assms(1) at by (simp only: ring_def)
  from seg_rotate [OF this] have "seg (links h) (hnext (h f)) ((post @ pre) @ [f]) (hnext (h f))" by (simp add: links_def)
  moreover have "distinct ((post @ pre) @ [f])" using ring_distinct [OF assms(1)] unfolding at by auto
  moreover have "set ((post @ pre) @ [f]) = set (b # qs)" unfolding at by auto
  ultimately show thesis by (rule that)
qed

lemma kmalloc_search:
  assumes m: "heap_mem lo s" and fl: "free_list lo A qs s" and n: "0 < n" and c: "\<exists>c \<in> set qs. n \<le> hsize (hdrs s c)"
  shows "\<exists>prev p. kmalloc_loop n (freep s) (hnext (hdrs s (freep s))) s = kmalloc_loop n prev p s \<and>
    prev \<in> set (base_addr s # qs) \<and> hnext (hdrs s prev) = p \<and> p \<in> set qs \<and> n \<le> hsize (hdrs s p)"
proof -
  let ?f = "freep s" and ?h = "hdrs s" and ?b = "base_addr s"
  note D = free_listD [OF fl] and R = blocksD [OF free_listD(1) [OF fl]]
  obtain rs where rs: "seg (links ?h) (hnext (?h ?f)) (rs @ [?f]) (hnext (?h ?f))" "distinct (rs @ [?f])" "set (rs @ [?f]) = set (?b # qs)"
    by (rule ring_round [OF R(1) D(3)])
  have "\<exists>c \<in> set (rs @ [?f]). n \<le> hsize (?h c)" unfolding rs(3) using c by auto
  from split_list_first_prop [OF this]
  obtain ys p zs where ys: "rs @ [?f] = ys @ p # zs" "n \<le> hsize (?h p)" "\<forall>y \<in> set ys. \<not> n \<le> hsize (?h y)" by blast
  have "seg (links ?h) (hnext (?h ?f)) ((ys @ [p]) @ zs) (hnext (?h ?f))" using rs(1) unfolding ys(1) by simp
  then obtain w where sg: "seg (links ?h) (hnext (?h ?f)) (ys @ [p]) w" unfolding seg_append [of _ _ "ys @ [p]"] by blast
  have "?f \<in> set (p # zs)" using arg_cong [OF ys(1), of last] last_in_set [of "p # zs"] by simp
  then have "?f \<notin> set ys" using rs(2) unfolding ys(1) by auto
  moreover have sub: "set ys \<subseteq> set (?b # qs)" "p \<in> set (?b # qs)" unfolding rs(3) [symmetric] ys(1) by auto
  ultimately have w: "kmalloc_loop n ?f (hnext (?h ?f)) s = kmalloc_loop n (last (?f # ys)) p s \<and> hnext (?h (last (?f # ys))) = p"
    using ys(3) headers_mapped [OF m D(1)] by (intro kmalloc_walk [OF sg]) (auto simp: not_le)
  have "last (?f # ys) \<in> set (?b # qs)" using sub(1) D(3) last_in_set [of "?f # ys"] by auto
  moreover have "p \<noteq> ?b" using ys(2) n R(1) by (auto simp: ring_def)
  ultimately show ?thesis using w sub(2) ys(2) by (intro exI [of _ "last (?f # ys)"] exI [of _ p]) simp
qed

lemma kmalloc_exhausted:
  assumes m: "heap_mem lo s" and fl: "free_list lo A qs s" and n: "0 < n" and c: "\<forall>c \<in> set qs. hsize (hdrs s c) < n"
  shows "kmalloc_loop n (freep s) (hnext (hdrs s (freep s))) s = do {
    (q, s) \<leftarrow> morecore n s; if q = 0 then Some (0, s) else do { h \<leftarrow> hdr_read q s; kmalloc_loop n q (hnext h) s } }"
proof -
  let ?f = "freep s" and ?h = "hdrs s" and ?b = "base_addr s"
  note D = free_listD [OF fl] and R = blocksD [OF free_listD(1) [OF fl]]
  obtain rs where rs: "seg (links ?h) (hnext (?h ?f)) (rs @ [?f]) (hnext (?h ?f))" "distinct (rs @ [?f])" "set (rs @ [?f]) = set (?b # qs)"
    by (rule ring_round [OF R(1) D(3)])
  have small: "\<forall>y \<in> set (?b # qs). kmapped y s \<and> hsize (?h y) < n"
    using c n R(1) headers_mapped [OF m D(1)] by (auto simp: ring_def)
  have "kmalloc_loop n ?f (hnext (?h ?f)) s = kmalloc_loop n (last (?f # rs)) ?f s"
    using small rs(2) unfolding rs(3) [symmetric] by (intro kmalloc_walk [OF rs(1), THEN conjunct1]) auto
  also have "\<dots> = do { (q, s) \<leftarrow> morecore n s; if q = 0 then Some (0, s) else do { h \<leftarrow> hdr_read q s; kmalloc_loop n q (hnext h) s } }"
    using small D(3) kmalloc_skip [of ?f s n "last (?f # rs)"] by (metis (no_types, lifting))
  finally show ?thesis .
qed

lemma heap_step_here: "pfa_ok s \<Longrightarrow> heap_step s (s\<lparr>hdrs := h, freep := p\<rparr>)"
proof -
  have "s\<lparr>hdrs := h, freep := p\<rparr> = s\<lparr>hdrs := h, freep := p, heap_current := heap_current s\<rparr>" by simp
  then show "pfa_ok s \<Longrightarrow> heap_step s (s\<lparr>hdrs := h, freep := p\<rparr>)" unfolding heap_step_def using grown_refl by blast
qed

lemma heap_step_grown: "grown s (s' :: 'a kheap_scheme) \<Longrightarrow> heap_step s s'"
proof -
  have "s' = s'\<lparr>hdrs := hdrs s', freep := freep s', heap_current := heap_current s'\<rparr>" by simp
  then show "grown s s' \<Longrightarrow> heap_step s s'" unfolding heap_step_def by blast
qed

lemma grown_unlinked:
  assumes "grown (t\<lparr>hdrs := h, freep := p, heap_current := c\<rparr>) u"
  shows "\<exists>u'. grown t u' \<and> u = u'\<lparr>hdrs := h, freep := p, heap_current := c\<rparr>"
proof -
  from assms obtain bm K S where u: "u = t\<lparr>hdrs := h, freep := p, heap_current := c, bitmap := bm, kernel_page_table := K, stale := S\<rparr>"
    "S \<subseteq> stale t" unfolding grown_def by auto
  let ?u = "t\<lparr>bitmap := bm, kernel_page_table := K, stale := S\<rparr>"
  have "u = ?u\<lparr>hdrs := h, freep := p, heap_current := c\<rparr>" using u(1) by simp
  moreover from this have "grown t ?u"
    using assms u(2) unfolding grown_def
    by (auto simp: pfa_ok_def managed_frames_def avail_frames_def free_frames_def kmapped_def)
  ultimately show ?thesis by blast
qed

lemma heap_step_trans:
  assumes "heap_step s t" and "heap_step t u"
  shows "heap_step s u"
proof -
  from assms(1) obtain t' h p c where t: "grown s t'" "t = t'\<lparr>hdrs := h, freep := p, heap_current := c\<rparr>" unfolding heap_step_def by blast
  from assms(2) obtain u' h' p' c' where u: "grown t u'" "u = u'\<lparr>hdrs := h', freep := p', heap_current := c'\<rparr>" unfolding heap_step_def by blast
  from grown_unlinked [OF u(1) [unfolded t(2)]] obtain v where v: "grown t' v" "u' = v\<lparr>hdrs := h, freep := p, heap_current := c\<rparr>" by blast
  have "grown s v" by (rule grown_trans [OF t(1) v(1)])
  moreover have "u = v\<lparr>hdrs := h', freep := p', heap_current := c'\<rparr>" using u(2) v(2) by simp
  ultimately show ?thesis unfolding heap_step_def by blast
qed

lemma freep_not_null:
  assumes "heap_mem lo s" and "free_list lo A qs s"
  shows "freep s \<noteq> 0"
proof -
  have "0 < base_addr s" using assms(1) by (auto simp: heap_mem_def word_less_nat_alt)
  then show ?thesis using free_listD(3) [OF assms(2)] blocks_above(1) [OF free_listD(1) [OF assms(2)], of "freep s"] by auto
qed

lemma kmalloc_loop_cases:
  fixes s :: "'a kheap_scheme"
  assumes m: "heap_mem lo s" and fl: "free_list lo A qs s" and n: "0 < n" "unat n \<le> 0x7F00000"
  obtains s' where "kmalloc_loop n (freep s) (hnext (hdrs s (freep s))) s = Some (0, s')" "grown s s'" "heap_mem lo s'" "free_list lo A qs s'"
      "\<forall>c \<in> set qs. hsize (hdrs s c) < n"
      "0xC03FF000 < unat (heap_current s) + core_bytes (unat n) \<or> 4096 * card (avail_frames s) < core_bytes (unat n)"
  | q s' qs' where "kmalloc_loop n (freep s) (hnext (hdrs s (freep s))) s = Some (q + 8, s')" "heap_step s s'" "heap_mem lo s'"
      "free_list lo (insert q A) qs' s'" "q \<notin> A" "hsize (hdrs s' q) = n" "\<forall>a \<in> A. hdrs s' a = hdrs s a"
      "uses (core_bytes (unat n)) s s'"
proof (cases "\<exists>c \<in> set qs. n \<le> hsize (hdrs s c)")
  case True
  have ok: "pfa_ok s" using m by (simp add: heap_mem_def)
  obtain prev p where p: "kmalloc_loop n (freep s) (hnext (hdrs s (freep s))) s = kmalloc_loop n prev p s"
    "prev \<in> set (base_addr s # qs)" "hnext (hdrs s prev) = p" "p \<in> set qs" "n \<le> hsize (hdrs s p)"
    using kmalloc_search [OF m fl n(1) True] by blast
  obtain h q qs' where q: "kmalloc_loop n prev p s = Some (q + 8, s\<lparr>hdrs := h, freep := prev\<rparr>)"
    "free_list lo (insert q A) qs' (s\<lparr>hdrs := h, freep := prev\<rparr>)" "q \<notin> A" "hsize (h q) = n" "\<forall>a \<in> A. h a = hdrs s a"
    using kmalloc_take [OF m fl p(2-4) n(1) p(5)] by blast
  show thesis
    by (rule that(2) [of q "s\<lparr>hdrs := h, freep := prev\<rparr>" qs']) (use p(1) q m heap_step_here [OF ok] in \<open>simp_all add: uses_def avail_frames_def free_frames_def\<close>)
next
  case False
  then have small: "\<forall>c \<in> set qs. hsize (hdrs s c) < n" by (auto simp: not_le)
  note ex = kmalloc_exhausted [OF m fl n(1) small]
  show thesis
  proof (rule morecore_cases [OF m fl n(2)])
    fix s' assume s': "morecore n s = Some (0, s')" "grown s s'" "heap_mem lo s'" "free_list lo A qs s'"
      "0xC03FF000 < unat (heap_current s) + core_bytes (unat n) \<or> 4096 * card (avail_frames s) < core_bytes (unat n)"
    have "kmalloc_loop n (freep s) (hnext (hdrs s (freep s))) s = Some (0, s')" unfolding ex using s'(1) by simp
    then show thesis using s'(2-4) small s'(5) by (rule that(1))
  next
    fix t qs1 assume t: "morecore n s = Some (freep t, t)" "heap_step s t" "heap_mem lo t" "free_list lo A qs1 t"
      "\<exists>c \<in> set qs1. n \<le> hsize (hdrs t c)" "\<forall>a \<in> A. hdrs t a = hdrs s a" "uses (core_bytes (unat n)) s t"
    have f: "freep t \<noteq> 0" by (rule freep_not_null [OF t(3,4)])
    have pt: "pfa_ok t" using t(3) by (simp add: heap_mem_def)
    have "kmapped (freep t) t" using headers_mapped [OF t(3) free_listD(1) [OF t(4)]] free_listD(3) [OF t(4)] by blast
    then have eq: "kmalloc_loop n (freep s) (hnext (hdrs s (freep s))) s = kmalloc_loop n (freep t) (hnext (hdrs t (freep t))) t"
      unfolding ex using t(1) f by (simp add: hdr_read_def)
    obtain prev p where p: "kmalloc_loop n (freep t) (hnext (hdrs t (freep t))) t = kmalloc_loop n prev p t"
      "prev \<in> set (base_addr t # qs1)" "hnext (hdrs t prev) = p" "p \<in> set qs1" "n \<le> hsize (hdrs t p)"
      using kmalloc_search [OF t(3,4) n(1) t(5)] by blast
    obtain h q qs' where q: "kmalloc_loop n prev p t = Some (q + 8, t\<lparr>hdrs := h, freep := prev\<rparr>)"
      "free_list lo (insert q A) qs' (t\<lparr>hdrs := h, freep := prev\<rparr>)" "q \<notin> A" "hsize (h q) = n" "\<forall>a \<in> A. h a = hdrs t a"
      using kmalloc_take [OF t(3,4) p(2-4) n(1) p(5)] by blast
    have "uses (core_bytes (unat n)) s (t\<lparr>hdrs := h, freep := prev\<rparr>)" using t(7) by (simp add: uses_def avail_frames_def free_frames_def)
    then show thesis
      by (intro that(2) [of q "t\<lparr>hdrs := h, freep := prev\<rparr>" qs']) (use eq p(1) q t(3,6) heap_step_trans [OF t(2) heap_step_here [OF pt]] in simp_all)
  qed
qed

subsection \<open>The invariant of the heap\<close>

text \<open>
  \<open>heap_ok lo A s\<close>: the heap starts at \<open>lo\<close>, the headers of the blocks in use are \<open>A\<close>; before the first
  \<open>kmalloc\<close> the heap is empty.
\<close>

definition heap_ok :: "nat \<Rightarrow> u32 set \<Rightarrow> 'a kheap_scheme \<Rightarrow> bool" where
  "heap_ok lo A s \<longleftrightarrow> heap_mem lo s \<and>
     (freep s = 0 \<and> A = {} \<and> unat (heap_current s) = lo \<or> (\<exists>qs. free_list lo A qs s))"

definition free_blocks :: "nat \<Rightarrow> u32 set \<Rightarrow> 'a kheap_scheme \<Rightarrow> u32 set" where
  "free_blocks lo A s = {a. freep s \<noteq> 0 \<and> (\<exists>qs. free_list lo A qs s \<and> a \<in> set qs)}"

text \<open>The units that \<open>kmalloc\<close> asks for, line 85.\<close>

definition units :: "u32 \<Rightarrow> u32" where
  "units nbytes = (nbytes + sizeof_Header - 1) div sizeof_Header + 1"

lemma unat_units_le:
  assumes "nbytes \<le> 0x3F000000"
  shows "unat (units nbytes) = (unat nbytes + 7) div 8 + 1" "0 < units nbytes" "unat (units nbytes) \<le> 0x7F00000"
proof -
  have b: "unat nbytes \<le> 0x3F000000" using assms by (simp add: word_le_nat_alt)
  have "unat (nbytes + 7) = unat nbytes + 7" using b by (subst unat_add_small) simp_all
  moreover have "nbytes + 8 - 1 = nbytes + 7" by simp
  ultimately have "unat (nbytes + 8 - 1) = unat nbytes + 7" by (simp only:)
  then have d: "unat ((nbytes + 8 - 1) div 8) = (unat nbytes + 7) div 8" by (simp only: unat_div) simp
  moreover have le: "(unat nbytes + 7) div 8 \<le> 0x7E00000" using b div_le_mono [of "unat nbytes + 7" "0x3F000007" 8] by simp
  ultimately show u: "unat (units nbytes) = (unat nbytes + 7) div 8 + 1"
    unfolding units_def by (subst unat_add_small) simp_all
  show "unat (units nbytes) \<le> 0x7F00000" using u le by simp
  show "0 < units nbytes" using u by (simp add: word_less_nat_alt)
qed

lemma heap_init_list:
  assumes "heap_mem lo s" and "unat (heap_current s) = lo"
  shows "free_list lo {} [] (s\<lparr>hdrs := (hdrs s)(base_addr s := \<lparr>hnext = base_addr s, hsize = 0\<rparr>), freep := base_addr s\<rparr>)"
  using assms by (simp add: free_list_def blocks_def ring_def tiles_def touching_def links_def heap_mem_def)

lemma free_blocks_list: "heap_mem lo s \<Longrightarrow> free_list lo A qs s \<Longrightarrow> free_blocks lo A s = set qs"
proof -
  assume m: "heap_mem lo s" and fl: "free_list lo A qs s"
  have "qs' = qs" if "free_list lo A qs' s" for qs'
    using blocksD(1) [OF free_listD(1) [OF that]] blocksD(1) [OF free_listD(1) [OF fl]] by (rule ring_unique)
  then show ?thesis using fl freep_not_null [OF m fl] unfolding free_blocks_def by blast
qed

lemma kmalloc_cases:
  fixes s :: "'a kheap_scheme"
  assumes ok: "heap_ok lo A s" and n: "nbytes \<noteq> 0" "0 < units nbytes" "unat (units nbytes) \<le> 0x7F00000"
  obtains s' where "kmalloc nbytes s = Some (0, s')" "heap_step s s'" "heap_ok lo A s'" "\<forall>a \<in> A. hdrs s' a = hdrs s a"
      "\<forall>c \<in> free_blocks lo A s. hsize (hdrs s c) < units nbytes"
      "0xC03FF000 < unat (heap_current s) + core_bytes (unat (units nbytes)) \<or>
        4096 * card (avail_frames s) < core_bytes (unat (units nbytes))"
  | q s' where "kmalloc nbytes s = Some (q + 8, s')" "heap_step s s'" "heap_ok lo (insert q A) s'" "q \<notin> A"
      "hsize (hdrs s' q) = units nbytes" "\<forall>a \<in> A. hdrs s' a = hdrs s a" "uses (core_bytes (unat (units nbytes))) s s'"
proof -
  note fails = that(1) and gets = that(2)
  have m: "heap_mem lo s" using ok by (simp add: heap_ok_def)
  have run: thesis if t: "heap_mem lo t" "free_list lo A qs t" and k: "kmalloc nbytes s = kmalloc_loop (units nbytes) (freep t) (hnext (hdrs t (freep t))) t"
    and st: "heap_step s t" "\<forall>a \<in> A. hdrs t a = hdrs s a" "\<forall>c \<in> free_blocks lo A s. c \<in> set qs \<and> hdrs s c = hdrs t c"
      "heap_current t = heap_current s" "avail_frames t = avail_frames s" for t :: "'a kheap_scheme" and qs
  proof (rule kmalloc_loop_cases [OF t n(2,3)])
    fix s' assume "kmalloc_loop (units nbytes) (freep t) (hnext (hdrs t (freep t))) t = Some (0, s')" "grown t s'" "heap_mem lo s'" "free_list lo A qs s'"
      "\<forall>c \<in> set qs. hsize (hdrs t c) < units nbytes"
      "0xC03FF000 < unat (heap_current t) + core_bytes (unat (units nbytes)) \<or> 4096 * card (avail_frames t) < core_bytes (unat (units nbytes))"
    then show thesis
      using k st heap_step_trans [OF st(1) heap_step_grown, of s'] grown_heap [of t s'] by (intro fails [of s']) (auto simp: heap_ok_def)
  next
    fix q s' qs' assume "kmalloc_loop (units nbytes) (freep t) (hnext (hdrs t (freep t))) t = Some (q + 8, s')" "heap_step t s'" "heap_mem lo s'"
      "free_list lo (insert q A) qs' s'" "q \<notin> A" "hsize (hdrs s' q) = units nbytes" "\<forall>a \<in> A. hdrs s' a = hdrs t a"
      "uses (core_bytes (unat (units nbytes))) t s'"
    moreover from this have "uses (core_bytes (unat (units nbytes))) s s'" using st(4,5) by (simp add: uses_def)
    ultimately show thesis
      using k st(1,2) heap_step_trans [OF st(1), of s'] by (intro gets [of q s']) (auto simp: heap_ok_def)
  qed
  have k: "kmalloc nbytes s = do {
      s \<leftarrow> (if freep s = 0 then do {
             s \<leftarrow> hdr_write (base_addr s) (\<lambda>h. h\<lparr>hnext := base_addr s, hsize := 0\<rparr>) s;
             Some (s\<lparr>freep := base_addr s\<rparr>) }
           else Some s);
      h \<leftarrow> hdr_read (freep s) s;
      kmalloc_loop (units nbytes) (freep s) (hnext h) s }"
    using n(1) unfolding kmalloc_def units_def by simp
  show thesis
  proof (cases "freep s = 0")
    case True
    let ?t = "s\<lparr>hdrs := (hdrs s)(base_addr s := \<lparr>hnext = base_addr s, hsize = 0\<rparr>), freep := base_addr s\<rparr>"
    have "base_addr s \<noteq> 0" "kmapped (base_addr s) s" "pfa_ok s" using m by (auto simp: heap_mem_def)
    have "\<not> free_list lo A qs s" for qs using True freep_not_null [OF m] by blast
    then have c: "A = {}" "unat (heap_current s) = lo" using ok by (auto simp: heap_ok_def)
    show thesis
    proof (rule run [of ?t "[]"])
      show "free_list lo A [] ?t" using heap_init_list [OF m c(2)] c(1) by simp
      show "kmalloc nbytes s = kmalloc_loop (units nbytes) (freep ?t) (hnext (hdrs ?t (freep ?t))) ?t"
        unfolding k using True \<open>kmapped (base_addr s) s\<close> by (simp add: hdr_read_def hdr_write_def header_fields)
      show "heap_step s ?t" by (rule heap_step_here) fact
    qed (use m c True in \<open>simp_all add: free_blocks_def avail_frames_def free_frames_def\<close>)
  next
    case False
    then obtain qs where fl: "free_list lo A qs s" using ok by (auto simp: heap_ok_def)
    have "kmapped (freep s) s" using headers_mapped [OF m free_listD(1) [OF fl]] free_listD(3) [OF fl] by blast
    then have "kmalloc nbytes s = kmalloc_loop (units nbytes) (freep s) (hnext (hdrs s (freep s))) s"
      unfolding k using False by (simp add: hdr_read_def)
    moreover have "heap_step s s" using m by (intro heap_step_grown grown_refl) (simp add: heap_mem_def)
    ultimately show thesis using free_blocks_list [OF m fl] by (intro run [OF m fl]) auto
  qed
qed

end
