(* ===== verification/Heap_Contract.thy ===== *)
theory Heap_Contract
  imports Heap_Inv "HOL-Library.Multiset"
begin

text \<open>
  What the rest of the kernel may rely on when it uses the heap.  The locale \<open>heap_interface\<close> states it
  for any pair of operations on pointers, with the set of the pointers in use as a ghost variable;
  it is interpreted on \<open>kmalloc\<close> and \<open>kfree\<close>.  The properties of the heap follow.
\<close>

subsection \<open>The contract\<close>

primrec malloc_all :: "(u32 \<Rightarrow> 's \<Rightarrow> (u32 \<times> 's) option) \<Rightarrow> u32 list \<Rightarrow> 's \<Rightarrow> (u32 list \<times> 's) option" where
  "malloc_all malloc [] s = Some ([], s)"
| "malloc_all malloc (n # ns) s = do {
     (p, s) \<leftarrow> malloc n s; (ps, s) \<leftarrow> malloc_all malloc ns s; Some (p # ps, s) }"

primrec release_all :: "(u32 \<Rightarrow> 's \<Rightarrow> 's option) \<Rightarrow> u32 list \<Rightarrow> 's \<Rightarrow> 's option" where
  "release_all release [] s = Some s"
| "release_all release (p # ps) s = Option.bind (release p s) (release_all release ps)"

locale heap_interface =
  fixes live :: "u32 set \<Rightarrow> 's \<Rightarrow> bool" and malloc :: "u32 \<Rightarrow> 's \<Rightarrow> (u32 \<times> 's) option"
    and release :: "u32 \<Rightarrow> 's \<Rightarrow> 's option" and limit :: u32
  assumes malloc_live: "live P s \<Longrightarrow> n \<le> limit \<Longrightarrow>
      \<exists>p s'. malloc n s = Some (p, s') \<and> live (if p = 0 then P else insert p P) s' \<and> p \<notin> P"
    and release_live: "live P s \<Longrightarrow> p \<in> P \<Longrightarrow> \<exists>s'. release p s = Some s' \<and> live (P - {p}) s'"
    and release_null: "release 0 s = Some s"
    and null_not_live: "live P s \<Longrightarrow> 0 \<notin> P"
begin

lemma malloc_all_live:
  assumes "live P s" and "\<forall>n \<in> set ns. n \<le> limit"
  shows "\<exists>ps s'. malloc_all malloc ns s = Some (ps, s') \<and> length ps = length ns \<and>
    live (P \<union> (set ps - {0})) s' \<and> P \<inter> set ps = {} \<and> distinct (filter (\<lambda>p. p \<noteq> 0) ps)"
  using assms
proof (induction ns arbitrary: P s)
  case Nil
  then show ?case by simp
next
  case (Cons n ns)
  then obtain p t where p: "malloc n s = Some (p, t)" "live (if p = 0 then P else insert p P) t" "p \<notin> P"
    using malloc_live [of P s n] by auto
  define Q where "Q = (if p = 0 then P else insert p P)"
  have ns: "\<forall>n \<in> set ns. n \<le> limit" using Cons.prems(2) by simp
  obtain ps s' where ps: "malloc_all malloc ns t = Some (ps, s')" "length ps = length ns"
    "live (Q \<union> (set ps - {0})) s'" "Q \<inter> set ps = {}" "distinct (filter (\<lambda>p. p \<noteq> 0) ps)"
    using Cons.IH [OF p(2) ns] unfolding Q_def by blast
  have "Q \<union> (set ps - {0}) = P \<union> (set (p # ps) - {0})" by (auto simp: Q_def)
  then have "live (P \<union> (set (p # ps) - {0})) s'" using ps(3) by simp
  moreover have "P \<inter> set (p # ps) = {}" "distinct (filter (\<lambda>p. p \<noteq> 0) (p # ps))"
    using ps(4,5) p(3) by (auto simp: Q_def split: if_splits)
  ultimately show ?case using p(1) ps(1,2) by (intro exI [of _ "p # ps"] exI [of _ s']) simp
qed

lemma release_all_live:
  assumes "live P s" and "distinct (filter (\<lambda>p. p \<noteq> 0) ps)" and "set ps - {0} \<subseteq> P"
  shows "\<exists>s'. release_all release ps s = Some s' \<and> live (P - set ps) s'"
  using assms
proof (induction ps arbitrary: P s)
  case (Cons p ps)
  show ?case
  proof (cases "p = 0")
    case True
    then have "P - set (p # ps) = P - set ps" using null_not_live [OF Cons.prems(1)] by auto
    then show ?thesis using Cons True release_null by simp
  next
    case False
    then obtain t where t: "release p s = Some t" "live (P - {p}) t" using release_live [of P s p] Cons.prems by auto
    moreover have "P - {p} - set ps = P - set (p # ps)" by auto
    ultimately show ?thesis using Cons.IH [OF t(2)] Cons.prems(2,3) False by fastforce
  qed
qed simp

text \<open>Whatever is allocated can be released in any order; nothing is left in use and nothing fails.\<close>

lemma malloc_release_all:
  assumes "live P s" and "\<forall>n \<in> set ns. n \<le> limit"
  shows "\<exists>ps s1. malloc_all malloc ns s = Some (ps, s1) \<and> length ps = length ns \<and> distinct (filter (\<lambda>p. p \<noteq> 0) ps) \<and> P \<inter> set ps = {} \<and>
    (\<forall>qs. mset qs = mset ps \<longrightarrow> (\<exists>s2. release_all release qs s1 = Some s2 \<and> live P s2))"
proof -
  from malloc_all_live [OF assms] obtain ps s1 where ps: "malloc_all malloc ns s = Some (ps, s1)" "length ps = length ns"
    "live (P \<union> (set ps - {0})) s1" "P \<inter> set ps = {}" "distinct (filter (\<lambda>p. p \<noteq> 0) ps)" by blast
  have "\<exists>s2. release_all release qs s1 = Some s2 \<and> live P s2" if "mset qs = mset ps" for qs
  proof -
    have "set qs = set ps" using that by (metis set_mset_mset)
    moreover have "distinct (filter (\<lambda>p. p \<noteq> 0) qs)" using that ps(5) by (metis distinct_count_atmost_1 mset_filter set_mset_mset)
    moreover have "P \<union> (set ps - {0}) - set ps = P" using ps(4) by auto
    ultimately show ?thesis using release_all_live [OF ps(3), of qs] by auto
  qed
  then show ?thesis using ps by blast
qed

end

subsection \<open>The heap provides it\<close>

lemma heap_block:
  assumes "heap_ok lo A s" and "a \<in> A"
  shows "lo \<le> unat a" "bend (hdrs s) a \<le> unat (heap_current s)" "unat a mod 8 = 0" "0 < hsize (hdrs s a)"
    "unat (a + 8) = unat a + 8" "unat a + 8 \<le> bend (hdrs s) a" "0xC0000000 \<le> unat a" "bend (hdrs s) a \<le> 0xC03FF000"
    "a + 8 \<noteq> 0"
proof -
  obtain qs where fl: "free_list lo A qs s" using assms by (auto simp: heap_ok_def)
  note t = tiles_block [OF blocksD(2) [OF free_listD(1) [OF fl]], of a]
  show 1: "lo \<le> unat a" "bend (hdrs s) a \<le> unat (heap_current s)" "unat a mod 8 = 0" "0 < hsize (hdrs s a)"
    using t assms(2) by simp_all
  show 2: "0xC0000000 \<le> unat a" "bend (hdrs s) a \<le> 0xC03FF000"
    using 1(1,2) assms(1) by (auto simp: heap_ok_def heap_mem_def)
  show 3: "unat a + 8 \<le> bend (hdrs s) a" using 1(4) by (simp add: bend_def word_less_nat_alt)
  show 4: "unat (a + 8) = unat a + 8" using 3 2(2) by (subst unat_add_small) simp_all
  show "a + 8 \<noteq> 0"
  proof
    assume "a + 8 = 0"
    with 4 show False by simp
  qed
qed

lemma heap_apart: "heap_ok lo A s \<Longrightarrow> a \<in> A \<Longrightarrow> b \<in> A \<Longrightarrow> a < b \<Longrightarrow> bend (hdrs s) a \<le> unat b"
proof -
  assume ok: "heap_ok lo A s" and a: "a \<in> A" "b \<in> A" "a < b"
  then obtain qs where fl: "free_list lo A qs s" by (auto simp: heap_ok_def)
  show ?thesis using tiles_apart [OF blocksD(2) [OF free_listD(1) [OF fl]]] a by simp
qed

lemma heap_mapped: "heap_ok lo A s \<Longrightarrow> a \<in> A \<Longrightarrow> unat a \<le> unat x \<Longrightarrow> unat x < bend (hdrs s) a \<Longrightarrow> kmapped x s"
  using heap_block(1,2) [of lo A s a] by (auto simp: heap_ok_def heap_mem_def)

lemma kfree_heap:
  assumes ok: "heap_ok lo A s" and a: "a \<in> A"
  shows "\<exists>h p. kfree (a + 8) s = Some (s\<lparr>hdrs := h, freep := p\<rparr>) \<and> heap_ok lo (A - {a}) (s\<lparr>hdrs := h, freep := p\<rparr>) \<and>
    (\<forall>c \<in> A - {a}. h c = hdrs s c)"
proof -
  have m: "heap_mem lo s" and "\<exists>qs. free_list lo A qs s" using ok a by (auto simp: heap_ok_def)
  then obtain qs where fl: "free_list lo A qs s" by blast
  from kfree_blocks [OF m fl a] obtain h p qs' where "kfree (a + 8) s = Some (s\<lparr>hdrs := h, freep := p\<rparr>)"
    "free_list lo (A - {a}) qs' (s\<lparr>hdrs := h, freep := p\<rparr>)" "\<forall>c \<in> A - {a}. h c = hdrs s c" by blast
  then show ?thesis using m by (intro exI [of _ h] exI [of _ p]) (auto simp: heap_ok_def)
qed

text \<open>The same invariant, with the pointers that \<open>kmalloc\<close> returned.\<close>

definition heap_live :: "nat \<Rightarrow> u32 set \<Rightarrow> 'a kheap_scheme \<Rightarrow> bool" where
  "heap_live lo P s \<longleftrightarrow> heap_ok lo ((\<lambda>p. p - 8) ` P) s"

lemma kmalloc_null: "kmalloc 0 s = Some (0, s)"
  by (simp add: kmalloc_def)

interpretation kheap: heap_interface "heap_live lo" kmalloc kfree "0x3F000000" for lo
proof
  fix P :: "u32 set" and s :: "'a kheap_scheme" and n :: u32
  assume l: "heap_live lo P s"
  then have ok: "heap_ok lo ((\<lambda>p. p - 8) ` P) s" by (simp add: heap_live_def)
  show zero: "0 \<notin> P"
  proof
    assume "0 \<in> P"
    then have "(0 - 8 :: u32) \<in> (\<lambda>p. p - 8) ` P" by (rule imageI)
    from heap_block(9) [OF ok this] show False by simp
  qed
  show "\<exists>p s'. kmalloc n s = Some (p, s') \<and> heap_live lo (if p = 0 then P else insert p P) s' \<and> p \<notin> P" if n: "n \<le> 0x3F000000"
  proof (cases "n = 0")
    case True
    then show ?thesis using l zero kmalloc_null by auto
  next
    case False
    note u = unat_units_le [OF n]
    show ?thesis
    proof (rule kmalloc_cases [OF ok False u(2,3)])
      fix s' assume "kmalloc n s = Some (0, s')" "heap_ok lo ((\<lambda>p. p - 8) ` P) s'"
      then show ?thesis using zero by (auto simp: heap_live_def)
    next
      fix q s' assume q: "kmalloc n s = Some (q + 8, s')" "heap_ok lo (insert q ((\<lambda>p. p - 8) ` P)) s'" "q \<notin> (\<lambda>p. p - 8) ` P"
      have "q + 8 \<noteq> 0" using heap_block(9) [OF q(2), of q] by simp
      moreover have "q + 8 \<notin> P" using q(3) by (metis add_diff_cancel_right' imageI)
      moreover have "(\<lambda>p. p - 8) ` insert (q + 8) P = insert q ((\<lambda>p. p - 8) ` P)" by simp
      ultimately show ?thesis using q(1,2) by (simp add: heap_live_def)
    qed
  qed
  show "\<exists>s'. kfree p s = Some s' \<and> heap_live lo (P - {p}) s'" if "p \<in> P" for p
  proof -
    have "(\<lambda>p. p - 8) ` (P - {p}) = (\<lambda>p. p - 8) ` P - {p - 8}" by auto
    then show ?thesis using kfree_heap [OF ok, of "p - 8"] that by (auto simp: heap_live_def)
  qed
next
  fix s :: "'a kheap_scheme"
  show "kfree 0 s = Some s" by (simp add: kfree_def)
qed

subsection \<open>Properties\<close>

definition sample_heap :: kheap where
  "sample_heap = \<lparr>port_out = [], serial_log = [], cr3 = 0x101000, stale = {},
     bitmap = replicate 2048 0, start_frame = 300, total_frames = 16384,
     page_directory = replicate 1024 0, kernel_page_table = (replicate 1024 0)[256 := 0x100003], pmem = (\<lambda>_ _. 0),
     base_addr = 0xC0100000, hdrs = (\<lambda>_. \<lparr>hnext = 0, hsize = 0\<rparr>), freep = 0, heap_current = 0xC0110000, heap_max = 0xC03FF000\<rparr>"

lemma sample_heap_ok: "heap_ok 0xC0110000 {} sample_heap"
proof -
  have "\<not> (a \<le> k \<and> k < a)" for a k :: nat by simp
  note none = this
  show ?thesis
    by (simp add: none sample_heap_def heap_ok_def heap_mem_def paging_ok_def pfa_ok_def kmapped_def)
qed

lemma sample_heap_frames: "1 \<le> card (avail_frames sample_heap)"
proof -
  have "300 \<in> free_frames sample_heap" by (simp add: sample_heap_def free_frames_def used_def)
  then have "avail_frames sample_heap \<noteq> {}" by (auto simp: avail_frames_def)
  then show ?thesis using card_gt_0_iff [of "avail_frames sample_heap"] by (simp add: avail_frames_def Suc_le_eq)
qed

text \<open>
  The abstract heap: the set of the address ranges in use.  An allocation gives the null pointer and
  changes nothing, or it gives an aligned range of at least the size asked for that meets no other.
\<close>

definition ranges :: "u32 set \<Rightarrow> 'a kheap_scheme \<Rightarrow> (nat \<times> nat) set" where
  "ranges A s = (\<lambda>a. (unat a + 8, bend (hdrs s) a)) ` A"

definition spec_malloc :: "nat \<Rightarrow> (nat \<times> nat) set \<Rightarrow> u32 \<Rightarrow> (nat \<times> nat) set \<Rightarrow> bool" where
  "spec_malloc n R p R' \<longleftrightarrow> p = 0 \<and> R' = R \<or>
     p \<noteq> 0 \<and> unat p mod 8 = 0 \<and> (\<exists>e. unat p + n \<le> e \<and> (\<forall>(l, u) \<in> R. u \<le> unat p \<or> e \<le> l) \<and> R' = insert (unat p, e) R)"

definition spec_free :: "(nat \<times> nat) set \<Rightarrow> u32 \<Rightarrow> (nat \<times> nat) set \<Rightarrow> bool" where
  "spec_free R p R' \<longleftrightarrow> R' = {(l, u) \<in> R. l \<noteq> unat p}"

lemma ranges_kept: "\<forall>a \<in> A. hdrs s' a = hdrs s a \<Longrightarrow> ranges A s' = ranges A s"
  by (auto simp: ranges_def bend_def)

text \<open>
  C6.  \<open>kmalloc\<close> returns, and what it does is an allocation of the abstract heap: a null pointer with the
  blocks in use as they were, or a block that starts at a multiple of 8, holds at least the bytes
  asked for and overlaps no block in use.  The invariant of the heap holds again afterwards.
\<close>

theorem kmalloc_refines:
  assumes "heap_ok lo A s" and "n \<le> 0x3F000000"
  shows "\<exists>p s'. kmalloc n s = Some (p, s') \<and> heap_ok lo (if p = 0 then A else insert (p - 8) A) s' \<and>
    spec_malloc (unat n) (ranges A s) p (ranges (if p = 0 then A else insert (p - 8) A) s')"
proof (cases "n = 0")
  case True
  then show ?thesis using kmalloc_null assms(1) by (auto simp: spec_malloc_def)
next
  case False
  note u = unat_units_le [OF assms(2)]
  show ?thesis
  proof (rule kmalloc_cases [OF assms(1) False u(2,3)])
    fix s' assume "kmalloc n s = Some (0, s')" "heap_ok lo A s'" "\<forall>a \<in> A. hdrs s' a = hdrs s a"
    then show ?thesis using ranges_kept by (fastforce simp: spec_malloc_def)
  next
    fix q s' assume q: "kmalloc n s = Some (q + 8, s')" "heap_ok lo (insert q A) s'" "q \<notin> A"
      "hsize (hdrs s' q) = units n" and kept: "\<forall>a \<in> A. hdrs s' a = hdrs s a"
    note b = heap_block [OF q(2), of q]
    have e: "unat (q + 8) + unat n \<le> bend (hdrs s') q"
      using b(5) q(4) u(1) by (simp add: bend_def)
    have "bend (hdrs s') a \<le> unat (q + 8) \<or> bend (hdrs s') q \<le> unat a + 8" if "a \<in> A" for a
      using heap_apart [OF q(2), of a q] heap_apart [OF q(2), of q a] that q(3) b(5) by (cases a q rule: linorder_cases) auto
    then have "\<forall>(l, v) \<in> ranges A s. v \<le> unat (q + 8) \<or> bend (hdrs s') q \<le> l"
      unfolding ranges_kept [OF kept, symmetric] by (auto simp: ranges_def)
    moreover have "ranges (insert q A) s' = insert (unat (q + 8), bend (hdrs s') q) (ranges A s)"
      unfolding ranges_kept [OF kept, symmetric] using b(5) by (simp add: ranges_def)
    moreover have "unat (q + 8) mod 8 = 0" using b(3,5) by simp
    ultimately have "spec_malloc (unat n) (ranges A s) (q + 8) (ranges (insert q A) s')"
      using e b(9) unfolding spec_malloc_def by (intro disjI2 conjI exI [of _ "bend (hdrs s') q"]) simp_all
    then show ?thesis using q(1,2) b(9) by simp
  qed
qed

theorem kmalloc_refines_witness:
  "\<exists>p s'. kmalloc 104 sample_heap = Some (p, s') \<and> heap_ok 0xC0110000 (if p = 0 then {} else {p - 8}) s' \<and>
     spec_malloc 104 {} p (ranges (if p = 0 then {} else {p - 8}) s')"
proof -
  have "(104 :: u32) \<le> 0x3F000000" "ranges {} sample_heap = {}" "unat (104 :: u32) = 104" by (simp_all add: ranges_def)
  with kmalloc_refines [OF sample_heap_ok, of 104] show ?thesis by metis
qed

text \<open>
  C23.  \<open>kmalloc\<close> fails only when the heap is full: the null pointer means that no free block is large
  enough and that the heap cannot grow by the pages needed, for want of frames or of addresses below
  the window.  In particular it succeeds while both are left.
\<close>

theorem kmalloc_fails_when_full:
  assumes "heap_ok lo A s" and "n \<le> 0x3F000000" and "n \<noteq> 0"
  shows "\<exists>p s'. kmalloc n s = Some (p, s') \<and> (p = 0 \<longrightarrow>
    (\<forall>a \<in> free_blocks lo A s. 8 * unat (hsize (hdrs s a)) < unat n + 8) \<and>
    (0xC03FF000 < unat (heap_current s) + core_bytes (unat (units n)) \<or> 4096 * card (avail_frames s) < core_bytes (unat (units n))))"
proof -
  note u = unat_units_le [OF assms(2)]
  show ?thesis
  proof (rule kmalloc_cases [OF assms(1,3) u(2,3)])
    fix s' assume "kmalloc n s = Some (0, s')" and c: "\<forall>c \<in> free_blocks lo A s. hsize (hdrs s c) < units n"
      and r: "0xC03FF000 < unat (heap_current s) + core_bytes (unat (units n)) \<or> 4096 * card (avail_frames s) < core_bytes (unat (units n))"
    moreover have "8 * unat (hsize (hdrs s a)) < unat n + 8" if "a \<in> free_blocks lo A s" for a
    proof -
      have "unat (hsize (hdrs s a)) < (unat n + 7) div 8 + 1" using c that u(1) by (simp add: word_less_nat_alt)
      then show ?thesis by linarith
    qed
    ultimately show ?thesis by blast
  next
    fix q s' assume q: "kmalloc n s = Some (q + 8, s')" "heap_ok lo (insert q A) s'"
    then show ?thesis using heap_block(9) [OF q(2), of q] by auto
  qed
qed

theorem kmalloc_fails_when_full_witness:
  "\<exists>p s'. kmalloc 104 sample_heap = Some (p, s') \<and> p \<noteq> 0"
proof -
  have "unat (units 104) = 14" by (simp add: units_def)
  then have "core_bytes (unat (units 104)) = 4096" by (simp add: core_bytes_def)
  moreover have "unat (heap_current sample_heap) = 0xC0110000" by (simp add: sample_heap_def)
  ultimately show ?thesis
    using kmalloc_fails_when_full [OF sample_heap_ok, of 104] sample_heap_frames by auto
qed

text \<open>
  C12.  \<open>kfree\<close> of a block in use returns, takes exactly that block out of the abstract heap, keeps the
  invariant, and changes nothing of the kernel but the headers and \<open>freep\<close>; \<open>kfree\<close> of the null pointer
  does nothing.
\<close>

theorem kfree_refines:
  assumes "heap_ok lo A s" and "p - 8 \<in> A"
  shows "kfree 0 s = Some s \<and> (\<exists>h f. kfree p s = Some (s\<lparr>hdrs := h, freep := f\<rparr>) \<and>
    heap_ok lo (A - {p - 8}) (s\<lparr>hdrs := h, freep := f\<rparr>) \<and>
    spec_free (ranges A s) p (ranges (A - {p - 8}) (s\<lparr>hdrs := h, freep := f\<rparr>)))"
proof -
  define q where "q = p - 8"
  then have p: "p = q + 8" and qA: "q \<in> A" using assms(2) by simp_all
  obtain h f where f: "kfree (q + 8) s = Some (s\<lparr>hdrs := h, freep := f\<rparr>)" "heap_ok lo (A - {q}) (s\<lparr>hdrs := h, freep := f\<rparr>)"
    "\<forall>c \<in> A - {q}. h c = hdrs s c" using kfree_heap [OF assms(1) qA] by blast
  have up: "unat p = unat q + 8" using heap_block(5) [OF assms(1) qA] p by simp
  have "ranges (A - {q}) (s\<lparr>hdrs := h, freep := f\<rparr>) = ranges (A - {q}) s" using f(3) by (intro ranges_kept) simp
  also have "\<dots> = {(l, u) \<in> ranges A s. l \<noteq> unat p}" unfolding up by (auto simp: ranges_def word_unat_eq_iff [symmetric])
  finally show ?thesis using f(1,2) kheap.release_null unfolding p [symmetric] q_def [symmetric] by (auto simp: spec_free_def)
qed

theorem kfree_refines_witness:
  "\<exists>p s s'. kmalloc 104 sample_heap = Some (p, s) \<and> p \<noteq> 0 \<and> kfree p s = Some s' \<and> heap_ok 0xC0110000 {} s'"
proof -
  have u: "unat (units 104) = 14" "0 < units 104" by (simp_all add: units_def)
  have c: "core_bytes 14 = 4096" "unat (heap_current sample_heap) = 0xC0110000" by (simp_all add: core_bytes_def sample_heap_def)
  show ?thesis
  proof (rule kmalloc_cases [OF sample_heap_ok, of 104])
    fix q s assume q: "kmalloc 104 sample_heap = Some (q + 8, s)" "heap_ok 0xC0110000 (insert q {}) s"
    have "q + 8 - 8 \<in> insert q {}" by simp
    from kfree_refines [OF q(2) this] obtain s' where "kfree (q + 8) s = Some s'" "heap_ok 0xC0110000 {} s'" by auto
    with q(1) heap_block(9) [OF q(2), of q] show ?thesis by blast
  qed (use u c sample_heap_frames in auto)
qed

text \<open>
  C24.  Any number of blocks can be allocated and then released in any order, also with null pointers
  among them: no call fails, the pointers are different, and in the end the blocks in use are those
  of the beginning.
\<close>

theorem heap_release_any_order:
  assumes "heap_live lo P s" and "\<forall>n \<in> set ns. n \<le> 0x3F000000"
  shows "\<exists>ps s1. malloc_all kmalloc ns s = Some (ps, s1) \<and> length ps = length ns \<and>
    distinct (filter (\<lambda>p. p \<noteq> 0) ps) \<and> P \<inter> set ps = {} \<and>
    (\<forall>qs. mset qs = mset ps \<longrightarrow> (\<exists>s2. release_all kfree qs s1 = Some s2 \<and> heap_live lo P s2))"
  using assms by (rule kheap.malloc_release_all)

theorem heap_release_any_order_witness:
  "\<exists>p q s1 s2. malloc_all kmalloc [104, 4096] sample_heap = Some ([p, q], s1) \<and> (p \<noteq> 0 \<longrightarrow> p \<noteq> q) \<and>
     release_all kfree [q, p] s1 = Some s2 \<and> heap_live 0xC0110000 {} s2"
proof -
  have l: "heap_live 0xC0110000 {} sample_heap" using sample_heap_ok by (simp add: heap_live_def)
  have "\<forall>n \<in> set [104, 4096]. n \<le> (0x3F000000 :: u32)" by simp
  from heap_release_any_order [OF l this] obtain ps s1 where ps: "malloc_all kmalloc [104, 4096] sample_heap = Some (ps, s1)" "length ps = 2"
    "distinct (filter (\<lambda>p. p \<noteq> 0) ps)" "\<forall>qs. mset qs = mset ps \<longrightarrow> (\<exists>s2. release_all kfree qs s1 = Some s2 \<and> heap_live 0xC0110000 {} s2)"
    by auto
  from ps(2) obtain p q where pq: "ps = [p, q]" by (auto simp: length_Suc_conv numeral_2_eq_2)
  have "mset [q, p] = mset ps" using pq by simp
  with ps(4) obtain s2 where "release_all kfree [q, p] s1 = Some s2" "heap_live 0xC0110000 {} s2" by blast
  moreover have "p \<noteq> 0 \<longrightarrow> p \<noteq> q" using ps(3) pq by auto
  ultimately show ?thesis using ps(1) pq by blast
qed

text \<open>
  C39.  The size computation wraps around.  A request for one of the seven largest sizes is served like a
  request for nothing: while there is a free block, or an address and a frame for one more page, \<open>kmalloc\<close>
  does not fail but returns a block that is a bare header with no byte behind the pointer.
\<close>

theorem kmalloc_size_wraps:
  assumes "heap_ok lo A s" and "0xFFFFFFF9 \<le> n"
    and room: "free_blocks lo A s \<noteq> {} \<or> unat (heap_current s) + 4096 \<le> 0xC03FF000 \<and> avail_frames s \<noteq> {}"
  shows "\<exists>p s'. kmalloc n s = Some (p, s') \<and> p \<noteq> 0 \<and> heap_ok lo (insert (p - 8) A) s' \<and> bend (hdrs s') (p - 8) = unat p"
proof -
  define c :: u32 where "c = 0xFFFFFFF9"
  have c: "unat c = 0xFFFFFFF9" "8 - 1 = - c" "c \<le> n" using assms(2) by (simp_all add: c_def)
  have "n + 8 - 1 = n + (8 - 1)" by (simp only: add_diff_eq)
  also have "\<dots> = n - c" by (simp only: c(2) add_uminus_conv_diff)
  finally have "unat (n + 8 - 1) = unat n - 0xFFFFFFF9" using unat_sub [OF c(3)] c(1) by (simp only:)
  moreover have "unat n < 4294967296" using unsigned_less [of n, where ?'a = nat] by simp
  ultimately have "unat (n + 8 - 1) < 8" by linarith
  then have "unat ((n + 8 - 1) div 8) = 0" by (simp only: unat_div) simp
  then have "(n + 8 - 1) div 8 = 0" by (simp only: word_unat_eq_iff unat_0)
  then have u: "units n = 1" by (simp only: units_def add_0)
  then have core: "core_bytes (unat (units n)) = 4096" by (simp add: core_bytes_def)
  have "n \<noteq> 0" using assms(2) by auto
  moreover have "0 < units n" "unat (units n) \<le> 0x7F00000" unfolding u by simp_all
  ultimately show ?thesis
  proof (rule kmalloc_cases [OF assms(1)])
    fix s' assume f: "\<forall>c \<in> free_blocks lo A s. hsize (hdrs s c) < units n"
      and r: "0xC03FF000 < unat (heap_current s) + core_bytes (unat (units n)) \<or> 4096 * card (avail_frames s) < core_bytes (unat (units n))"
    have "avail_frames s = {}" if "card (avail_frames s) = 0" using that by (simp add: avail_frames_def free_frames_def)
    moreover have "False" if "a \<in> free_blocks lo A s" for a
    proof -
      have "hsize (hdrs s a) = 0" using f that u by auto
      moreover have "0 < hsize (hdrs s a)" using that by (auto simp: free_blocks_def free_list_def blocks_def tiles_def)
      ultimately show False by simp
    qed
    ultimately have False using r room core by auto
    then show ?thesis ..
  next
    fix q s' assume q: "kmalloc n s = Some (q + 8, s')" "heap_ok lo (insert q A) s'" "hsize (hdrs s' q) = units n"
    have "bend (hdrs s') q = unat (q + 8)" using heap_block(5) [OF q(2), of q] q(3) u by (simp add: bend_def)
    moreover have "q + 8 \<noteq> 0" using heap_block(9) [OF q(2), of q] by simp
    ultimately show ?thesis using q(1,2) by (intro exI [of _ "q + 8"] exI [of _ s']) simp
  qed
qed

theorem kmalloc_size_wraps_witness:
  "\<exists>p s'. kmalloc 0xFFFFFFFF sample_heap = Some (p, s') \<and> p \<noteq> 0 \<and> bend (hdrs s') (p - 8) = unat p"
proof -
  have "avail_frames sample_heap \<noteq> {}" using sample_heap_frames by auto
  then have "free_blocks 0xC0110000 {} sample_heap \<noteq> {} \<or> unat (heap_current sample_heap) + 4096 \<le> 0xC03FF000 \<and> avail_frames sample_heap \<noteq> {}"
    by (simp add: sample_heap_def)
  then show ?thesis using kmalloc_size_wraps [OF sample_heap_ok, of "0xFFFFFFFF"] by auto
qed

lemma kheap_init_ok:
  assumes "paging_ok s" and "pfa_ok s" and "freep s = 0" and "kmapped (base_addr s) s"
    and "0xC0000000 \<le> unat (base_addr s)" and "unat (base_addr s) < unat kernel_end" and "unat kernel_end \<le> 0xC03FF000"
  shows "heap_ok ((unat kernel_end + 4095) div 4096 * 4096) {} (kheap_init kernel_end s)"
    "unat (heap_current (kheap_init kernel_end s)) = (unat kernel_end + 4095) div 4096 * 4096"
proof -
  let ?lo = "(unat kernel_end + 4095) div 4096 * 4096"
  have "unat (kernel_end + 4095 AND - 4096) = ?lo" using assms(7) by (intro unat_page_round_up) simp
  then have c: "unat (heap_current (kheap_init kernel_end s)) = ?lo" by (simp add: kheap_init_def add.commute)
  have le: "?lo \<le> 0xC03FF000" using assms(7) div_le_mono [of "unat kernel_end + 4095" "0xC03FF000 + 4095" 4096] by simp
  have "unat kernel_end \<le> ?lo" by (simp add: minus_mod_eq_div_mult [symmetric])
  then have lt: "unat (base_addr s) < ?lo" using assms(6) by (rule less_le_trans [rotated])
  have none: "\<not> (a \<le> k \<and> k < a)" for a k :: nat by simp
  have "heap_mem ?lo (kheap_init kernel_end s)"
    unfolding heap_mem_def c using assms(1-5) le lt
    by (simp add: none kheap_init_def paging_ok_def pfa_ok_def kmapped_def)
  then show "heap_ok ?lo {} (kheap_init kernel_end s)" using c assms(3) by (simp add: heap_ok_def kheap_init_def)
  show "unat (heap_current (kheap_init kernel_end s)) = ?lo" by (rule c)
qed

text \<open>
  \<open>kheap_init\<close> sets the heap up: on a kernel whose sentinel lies in a mapped page below its end,
  the heap is empty and its invariant holds, so that every later \<open>kmalloc\<close> and \<open>kfree\<close> is covered by
  the properties of the heap.
\<close>

theorem kheap_init_establishes:
  assumes "paging_ok s" and "pfa_ok s" and "freep s = 0" and "kmapped (base_addr s) s"
    and "0xC0000000 \<le> unat (base_addr s)" and "unat (base_addr s) < unat kernel_end" and "unat kernel_end \<le> 0xC03FF000"
  shows "heap_ok ((unat kernel_end + 4095) div 4096 * 4096) {} (kheap_init kernel_end s)"
  using assms by (rule kheap_init_ok)

theorem kheap_init_establishes_witness: "heap_ok 0xC0111000 {} (kheap_init 0xC0110004 sample_heap)"
proof -
  have "paging_ok sample_heap" "pfa_ok sample_heap" "kmapped (base_addr sample_heap) sample_heap"
    using sample_heap_ok by (auto simp: heap_ok_def heap_mem_def)
  then show ?thesis using kheap_init_establishes [of sample_heap "0xC0110004"] by (simp add: sample_heap_def)
qed

end
