(* ===== verification/Kernel_State.thy ===== *)
theory Kernel_State
  imports Syscall Heap_Contract
begin

text \<open>
  The invariant of the whole kernel while it creates and ends processes, and what the operations of the
  frame allocator, the heap and the address spaces do to it.  \<open>stage lo s A P t\<close> says that the kernel has
  come from \<open>s\<close> to \<open>t\<close> in the middle of such an operation: the scheduler's variables are as they were, the
  control blocks are \<open>P\<close>, the heap blocks in use \<open>A\<close>, and memory has changed only in frames that were free.
\<close>

definition kernel_inv :: "nat \<Rightarrow> u32 set \<Rightarrow> 'a sched_scheme \<Rightarrow> bool" where
  "kernel_inv lo A s \<longleftrightarrow> mem_ok s \<and> heap_ok lo A s \<and> dom (pcbs s) \<subseteq> (\<lambda>a. a + 8) ` A"

definition quiet :: "'a sched_scheme \<Rightarrow> 'a sched_scheme \<Rightarrow> bool" where
  "quiet s s' \<longleftrightarrow> ready_queue s' = ready_queue s \<and> ready_head s' = ready_head s \<and> ready_tail s' = ready_tail s \<and>
     ready_len s' = ready_len s \<and> current_pcb s' = current_pcb s \<and> scheduling_policy s' = scheduling_policy s \<and>
     quantum_ticks s' = quantum_ticks s \<and> remaining_ticks s' = remaining_ticks s \<and> pit_ticks s' = pit_ticks s \<and>
     preemption_enabled s' = preemption_enabled s \<and> cr3 s' = cr3 s \<and> tss s' = tss s \<and>
     page_directory s' = page_directory s \<and> managed_frames s' = managed_frames s \<and> sched.more s' = sched.more s"

lemma quiet_sched:
  assumes "quiet s s'"
  shows "ready_list s' = ready_list s" "rq_ok s' = rq_ok s" "current_pcb s' = current_pcb s" "cr3 s' = cr3 s"
    "abs_sched s' = (abs_sched s)\<lparr>a_procs := pcbs s'\<rparr>"
proof -
  have "ready_at s' = ready_at s" using assms by (simp add: ready_at_def fun_eq_iff quiet_def)
  then show l: "ready_list s' = ready_list s" using assms by (simp add: ready_list_def quiet_def)
  show "rq_ok s' = rq_ok s" "current_pcb s' = current_pcb s" "cr3 s' = cr3 s" using assms by (simp_all add: rq_ok_def quiet_def)
  show "abs_sched s' = (abs_sched s)\<lparr>a_procs := pcbs s'\<rparr>" using assms l by (simp add: abs_sched_def quiet_def)
qed

text \<open>The scheduling invariant depends on the control blocks of the processes that run or wait only.\<close>

lemma quiet_sched_at:
  assumes "sched_at b s" and "quiet s s'" and "\<forall>p \<in> dom (pcbs s). pcbs s' p = pcbs s p"
  shows "sched_at b s'"
proof -
  note q = quiet_sched [OF assms(2)]
  have inv: "sched_ok s" "asched_inv (abs_sched s)" "b \<longrightarrow> running (abs_sched s)" "current_pcb s \<noteq> 0"
    using assms(1) by (simp_all add: sched_at_def)
  have "dom (pcbs s) \<subseteq> dom (pcbs s')" using assms(3) by (metis domIff subsetI)
  then have ok: "sched_ok s'" using sched_ok_frame [OF inv(1) q(1,2) _ q(3)] by simp
  have kept: "pcbs s' p = Some c" if "pcbs s p = Some c" for p c using that assms(3) by (metis domI)
  have "asched_inv (abs_sched s')" "b \<longrightarrow> running (abs_sched s')"
    using inv(2,3) kept unfolding q(5) by (fastforce simp: asched_inv_def ready_entries_def space_inv_def running_def)+
  then show ?thesis using ok inv(4) q(3) by (simp add: sched_at_def)
qed

definition stage :: "nat \<Rightarrow> 'a sched_scheme \<Rightarrow> u32 set \<Rightarrow> (u32 \<Rightarrow> PCB option) \<Rightarrow> 'a sched_scheme \<Rightarrow> bool" where
  "stage lo s A P t \<longleftrightarrow> quiet s t \<and> mem_ok t \<and> heap_ok lo A t \<and> pcbs t = P \<and>
     avail_frames t \<subseteq> avail_frames s \<and> (\<forall>f. f \<notin> avail_frames s \<longrightarrow> pmem t f = pmem s f)"

lemma stage_start: "mem_ok s \<Longrightarrow> heap_ok lo A s \<Longrightarrow> stage lo s A (pcbs s) s"
  by (simp add: stage_def quiet_def)

lemma heap_ok_fields:
  assumes "heap_ok lo A s" and "hdrs s' = hdrs s" "freep s' = freep s" "heap_current s' = heap_current s" "heap_max s' = heap_max s"
    "base_addr s' = base_addr s" "page_directory s' = page_directory s" "kernel_page_table s' = kernel_page_table s" "stale s' \<subseteq> stale s"
    and "pfa_ok s'"
  shows "heap_ok lo A s'"
proof -
  have k: "kmapped x s \<Longrightarrow> kmapped x s'" for x using assms(8,9) by (auto simp: kmapped_def)
  have "free_list lo A qs s' = free_list lo A qs s" for qs using assms(2-6) by (simp add: free_list_def)
  moreover have "heap_mem lo s'" using assms k by (simp add: heap_ok_def heap_mem_def paging_ok_def)
  ultimately show ?thesis using assms(1-6) by (simp add: heap_ok_def)
qed

lemma avail_fields:
  assumes "bitmap s' = bitmap s" "start_frame s' = start_frame s" "total_frames s' = total_frames s"
  shows "avail_frames s' = avail_frames s" "managed_frames s' = managed_frames s" "pfa_ok s' = pfa_ok s"
  using assms by (simp_all add: avail_frames_def free_frames_def managed_frames_def pfa_ok_def)

text \<open>Assignments to control blocks, identifiers and the log.\<close>

lemma stage_pcbs: "stage lo s A P t \<Longrightarrow> stage lo s A P' (t\<lparr>pcbs := P'\<rparr>)"
  and stage_pid: "stage lo s A P t \<Longrightarrow> stage lo s A P (t\<lparr>next_pid := n\<rparr>)"
  and stage_log: "stage lo s A P t \<Longrightarrow> stage lo s A P (t\<lparr>serial_log := l\<rparr>)"
  using avail_fields [of "t\<lparr>pcbs := P'\<rparr>" t] avail_fields [of "t\<lparr>next_pid := n\<rparr>" t] avail_fields [of "t\<lparr>serial_log := l\<rparr>" t]
    heap_ok_fields [of lo A t "t\<lparr>pcbs := P'\<rparr>"] heap_ok_fields [of lo A t "t\<lparr>next_pid := n\<rparr>"] heap_ok_fields [of lo A t "t\<lparr>serial_log := l\<rparr>"]
  by (auto simp: stage_def quiet_def mem_ok_def window_closed_def)

lemma stage_pcb_update:
  assumes "stage lo s A P t" and "P p = Some c"
  shows "pcb_update p f t = Some (t\<lparr>pcbs := P(p \<mapsto> f c)\<rparr>)" "stage lo s A (P(p \<mapsto> f c)) (t\<lparr>pcbs := P(p \<mapsto> f c)\<rparr>)"
  using assms stage_pcbs [OF assms(1)] by (simp_all add: pcb_update_def stage_def)

lemma stage_allocate_pid:
  assumes "stage lo s A P t"
  obtains t' where "scheduler_allocate_pid t = (next_pid t, t')" "stage lo s A P t'" "pmem t' = pmem t" "avail_frames t' = avail_frames t"
proof -
  let ?n = "if next_pid t + 1 = 0 then 1 else next_pid t + 1"
  have "scheduler_allocate_pid t = (next_pid t, t\<lparr>next_pid := ?n\<rparr>)" by (simp add: scheduler_allocate_pid_def)
  then show thesis using stage_pid [OF assms] avail_fields [of "t\<lparr>next_pid := ?n\<rparr>" t] by (intro that [of "t\<lparr>next_pid := ?n\<rparr>"]) simp_all
qed

text \<open>The heap.\<close>

lemma heap_step_fields:
  fixes s s' :: "'a sched_scheme"
  assumes "heap_step s s'"
  shows "quiet s s'" "pcbs s' = pcbs s" "pmem s' = pmem s" "page_directory s' = page_directory s" "managed_frames s' = managed_frames s"
    "avail_frames s' \<subseteq> avail_frames s" "mem_ok s \<Longrightarrow> mem_ok s'" "serial_log s' = serial_log s" "next_pid s' = next_pid s"
proof -
  from assms obtain t h p c where t: "grown s t" "s' = t\<lparr>hdrs := h, freep := p, heap_current := c\<rparr>" unfolding heap_step_def by blast
  then obtain bm K S where u: "t = s\<lparr>bitmap := bm, kernel_page_table := K, stale := S\<rparr>" "S \<subseteq> stale s"
    "length K = length (kernel_page_table s)" "K ! 1023 = kernel_page_table s ! 1023" "pfa_ok t" "managed_frames t = managed_frames s"
    "avail_frames t \<subseteq> avail_frames s" unfolding grown_def by auto
  note a = avail_fields [of s' t]
  show mg: "managed_frames s' = managed_frames s" "avail_frames s' \<subseteq> avail_frames s" using a u(6,7) t(2) by simp_all
  show "pcbs s' = pcbs s" "pmem s' = pmem s" "page_directory s' = page_directory s" "serial_log s' = serial_log s" "next_pid s' = next_pid s"
    using t(2) u(1) by simp_all
  have "ready_queue s' = ready_queue s" "ready_head s' = ready_head s" "ready_tail s' = ready_tail s" "ready_len s' = ready_len s"
    "current_pcb s' = current_pcb s" "scheduling_policy s' = scheduling_policy s" "quantum_ticks s' = quantum_ticks s"
    "remaining_ticks s' = remaining_ticks s" "pit_ticks s' = pit_ticks s" "preemption_enabled s' = preemption_enabled s"
    "cr3 s' = cr3 s" "tss s' = tss s" "sched.more s' = sched.more s" using t(2) u(1) by simp_all
  then show "quiet s s'" using mg(1) \<open>page_directory s' = page_directory s\<close> by (simp add: quiet_def)
  show "mem_ok s'" if "mem_ok s" using that a(3) t(2) u by (auto simp: mem_ok_def window_closed_def)
qed

text \<open>What an operation leaves alone that may put a process into the ready queue.\<close>

definition around :: "'a sched_scheme \<Rightarrow> 'a sched_scheme \<Rightarrow> bool" where
  "around s s' \<longleftrightarrow> current_pcb s' = current_pcb s \<and> cr3 s' = cr3 s \<and> page_directory s' = page_directory s \<and>
     managed_frames s' = managed_frames s \<and> sched.more s' = sched.more s"

lemma quiet_around: "quiet s s' \<Longrightarrow> around s s'"
  by (simp add: quiet_def around_def)

lemma quiet_trans: "quiet s t \<Longrightarrow> quiet t u \<Longrightarrow> quiet s u"
  by (simp add: quiet_def)

lemma stage_heap:
  assumes "stage lo s A P t" and "heap_step t t'" and "heap_ok lo A' t'"
  shows "stage lo s A' P t'" "pmem t' = pmem t" "avail_frames t' \<subseteq> avail_frames t"
proof -
  note f = heap_step_fields [OF assms(2)]
  show "stage lo s A' P t'"
    using assms(1,3) f quiet_trans [of s t t'] unfolding stage_def by auto
  show "pmem t' = pmem t" "avail_frames t' \<subseteq> avail_frames t" using f by simp_all
qed

definition no_room :: "nat \<Rightarrow> 'a kheap_scheme \<Rightarrow> bool" where
  "no_room n s \<longleftrightarrow> 0xC03FF000 < unat (heap_current s) + n \<or> 4096 * card (avail_frames s) < n"

lemma stage_kmalloc:
  fixes t :: "'a sched_scheme"
  assumes st: "stage lo s A P t" and n: "n \<noteq> 0" "n \<le> 0x3F000000"
  obtains t' where "kmalloc n t = Some (0, t')" "stage lo s A P t'" "pmem t' = pmem t" "avail_frames t' \<subseteq> avail_frames t"
      "no_room (core_bytes (unat (units n))) t"
  | q t' where "kmalloc n t = Some (q + 8, t')" "stage lo s (insert q A) P t'" "q \<notin> A" "q + 8 \<noteq> 0"
      "pmem t' = pmem t" "avail_frames t' \<subseteq> avail_frames t" "\<forall>i < unat n. kmapped (q + 8 + of_nat i) t'"
      "next_pid t' = next_pid t" "uses (core_bytes (unat (units n))) t t'"
proof -
  have ok: "heap_ok lo A t" using st by (simp add: stage_def)
  note u = unat_units_le [OF n(2)]
  show thesis
  proof (rule kmalloc_cases [OF ok n(1) u(2,3)])
    fix t' assume "kmalloc n t = Some (0, t')" "heap_step t t'" "heap_ok lo A t'"
      "0xC03FF000 < unat (heap_current t) + core_bytes (unat (units n)) \<or> 4096 * card (avail_frames t) < core_bytes (unat (units n))"
    then show thesis using stage_heap [OF st, of t' A] by (intro that(1) [of t']) (auto simp: no_room_def)
  next
    fix q t' assume q: "kmalloc n t = Some (q + 8, t')" "heap_step t t'" "heap_ok lo (insert q A) t'" "q \<notin> A" "hsize (hdrs t' q) = units n"
      "uses (core_bytes (unat (units n))) t t'"
    note b = heap_block [OF q(3), of q]
    have "kmapped (q + 8 + of_nat i) t'" if i: "i < unat n" for i
    proof -
      have lt: "unat q + 8 + i < bend (hdrs t') q" using i q(5) u(1) by (simp add: bend_def)
      then have ui: "unat (of_nat i :: u32) = i" using b(8) by (simp add: unat_of_nat)
      have "unat (q + 8 + of_nat i) = unat q + 8 + i"
        using lt b(5,8) ui by (subst unat_add_small) simp_all
      then show ?thesis using lt by (intro heap_mapped [OF q(3), of q]) simp_all
    qed
    then show thesis
      using q stage_heap [OF st q(2,3)] b(9) heap_step_fields(9) [OF q(2)] by (intro that(2) [of q t']) auto
  qed
qed

lemma stage_kfree:
  fixes t :: "'a sched_scheme"
  assumes st: "stage lo s A P t" and q: "q \<in> A"
  obtains t' where "kfree (q + 8) t = Some t'" "stage lo s (A - {q}) P t'" "pmem t' = pmem t" "avail_frames t' = avail_frames t"
proof -
  have ok: "heap_ok lo A t" using st by (simp add: stage_def)
  then have p: "pfa_ok t" by (simp add: heap_ok_def heap_mem_def)
  from kfree_heap [OF ok q] obtain h f where k: "kfree (q + 8) t = Some (t\<lparr>hdrs := h, freep := f\<rparr>)"
    "heap_ok lo (A - {q}) (t\<lparr>hdrs := h, freep := f\<rparr>)" by blast
  note sh = stage_heap [OF st heap_step_here [OF p] k(2)]
  show thesis using k(1) sh(1,2) avail_fields(1) [of "t\<lparr>hdrs := h, freep := f\<rparr>" t] by (intro that [of "t\<lparr>hdrs := h, freep := f\<rparr>"]) simp_all
qed

text \<open>Address spaces built from free frames, and released again.\<close>

lemma stage_taken:
  fixes t :: "'a sched_scheme"
  assumes st: "stage lo s A P t" and T: "taken F t t'"
  shows "stage lo s A P t'"
proof -
  note k = taken_simps [OF T]
  obtain b m where t': "t' = t\<lparr>bitmap := b, pmem := m\<rparr>" using T by (auto simp: taken_def)
  have "managed_frames t' = managed_frames t" using T by (simp add: taken_def)
  then have "quiet t t'" by (simp add: quiet_def t')
  moreover have "heap_ok lo A t'"
    by (rule heap_ok_fields [of lo A t]) (use st k(1) in \<open>simp_all add: t' stage_def\<close>)
  moreover have "mem_ok t'" using st k(1,2,4) by (simp add: mem_ok_def stage_def)
  moreover have "avail_frames t' \<subseteq> avail_frames s" using st k(7) by (auto simp: stage_def)
  moreover have "pmem t' f = pmem s f" if "f \<notin> avail_frames s" for f
    using that st k(9) [of f] by (auto simp: stage_def)
  ultimately show ?thesis using st quiet_trans [of s t t'] by (simp add: stage_def t')
qed

lemma stage_destroy:
  fixes t :: "'a sched_scheme"
  assumes st: "stage lo s A P t" and d: "own_space d t" "owned (pmem t) d \<subseteq> avail_frames s"
  obtains t' where "destroy_user_space d t = Some t'" "stage lo s A P t'"
proof -
  have mo: "mem_ok t" using st by (simp add: stage_def)
  from destroy_own_space [OF mo d(1)] obtain bm q where k: "destroy_user_space d t = Some (t\<lparr>bitmap := bm, pmem := (pmem t)(d := q)\<rparr>)"
    "mem_ok (t\<lparr>bitmap := bm, pmem := (pmem t)(d := q)\<rparr>)"
    "avail_frames (t\<lparr>bitmap := bm\<rparr>) = avail_frames t \<union> (owned (pmem t) d \<inter> managed_frames t)" by blast
  let ?t = "t\<lparr>bitmap := bm, pmem := (pmem t)(d := q)\<rparr>"
  note a = avail_fields [of ?t "t\<lparr>bitmap := bm\<rparr>"]
  have mg: "managed_frames ?t = managed_frames t" by (simp add: managed_frames_def)
  have "quiet t ?t" using mg by (simp add: quiet_def)
  moreover have "heap_ok lo A ?t"
    by (rule heap_ok_fields [of lo A t]) (use st k(2) in \<open>simp_all add: stage_def mem_ok_def\<close>)
  moreover have "avail_frames ?t \<subseteq> avail_frames s" using a(1) k(3) d(2) st by (auto simp: stage_def)
  moreover have "pmem ?t f = pmem s f" if "f \<notin> avail_frames s" for f
  proof -
    have "d \<in> owned (pmem t) d" using d(1) by (auto simp: own_space_def space_ok_def owned_def)
    then have "f \<noteq> d" using that d(2) by auto
    then show ?thesis using that st by (simp add: stage_def)
  qed
  ultimately have "stage lo s A P ?t" using st k(2) quiet_trans [of s t ?t] by (simp add: stage_def)
  with k(1) show thesis by (rule that)
qed

lemma own_space_heap:
  "own_space d t \<Longrightarrow> pmem t' = pmem t \<Longrightarrow> avail_frames t' \<subseteq> avail_frames t \<Longrightarrow> own_space d t'"
  by (auto simp: own_space_def)

subsection \<open>Kernel stacks and control blocks\<close>

lemma kheap_clear_ok: "\<forall>i < n. kmapped (p + of_nat i) s \<Longrightarrow> kheap_clear p n s = Some s"
  unfolding kheap_clear_def by (rule for_range_eqI [where g = "\<lambda>_. s"]) simp_all

text \<open>The two copies of the function, in \<open>process.c\<close> and in \<open>syscall.c\<close>, are the same.\<close>

lemma alloc_kernel_stack_eq: "alloc_kernel_stack = alloc_process_kernel_stack"
  by (intro ext) (simp add: alloc_kernel_stack_def alloc_process_kernel_stack_def)

lemma stage_kernel_stack:
  fixes t :: "'a sched_scheme"
  assumes st: "stage lo s A P t" and p: "p \<noteq> 0" "P p = Some c"
  obtains t' where "alloc_process_kernel_stack p t = Some (-1, t')" "stage lo s A P t'" "pmem t' = pmem t" "avail_frames t' \<subseteq> avail_frames t"
      "no_room 8192 t"
  | k t' where "alloc_process_kernel_stack p t = Some (0, t')" "k \<notin> A"
      "stage lo s (insert k A) (P(p \<mapsto> c\<lparr>kernel_stack_base := k + 8, kernel_esp0 := k + 8 + 4096 - 4\<rparr>)) t'"
      "pmem t' = pmem t" "avail_frames t' \<subseteq> avail_frames t" "uses 8192 t t'"
proof -
  have n: "(4096 :: u32) \<noteq> 0" "(4096 :: u32) \<le> 0x3F000000" by simp_all
  have w: "core_bytes (unat (units 4096)) = 8192" by (simp add: units_def core_bytes_def)
  show thesis
  proof (rule stage_kmalloc [OF st n])
    fix t' assume "kmalloc 4096 t = Some (0, t')" "stage lo s A P t'" "pmem t' = pmem t" "avail_frames t' \<subseteq> avail_frames t"
      "no_room (core_bytes (unat (units 4096))) t"
    then show thesis using p(1) w by (intro that(1) [of t']) (simp_all add: alloc_process_kernel_stack_def)
  next
    fix k t' assume k: "kmalloc 4096 t = Some (k + 8, t')" "stage lo s (insert k A) P t'" "k \<notin> A" "k + 8 \<noteq> 0"
      "pmem t' = pmem t" "avail_frames t' \<subseteq> avail_frames t" "\<forall>i < unat (4096 :: u32). kmapped (k + 8 + of_nat i) t'"
      "uses (core_bytes (unat (units 4096))) t t'"
    have c: "kheap_clear (k + 8) 4096 t' = Some t'" using k(7) by (intro kheap_clear_ok) simp
    let ?P = "P(p \<mapsto> c\<lparr>kernel_stack_base := k + 8, kernel_esp0 := k + 8 + 4096 - 4\<rparr>)"
    note u = stage_pcb_update [OF k(2) p(2), of "\<lambda>c. c\<lparr>kernel_stack_base := k + 8, kernel_esp0 := k + 8 + 4096 - 4\<rparr>"]
    have "alloc_process_kernel_stack p t = Some (0, t'\<lparr>pcbs := ?P\<rparr>)"
      unfolding alloc_process_kernel_stack_def using p(1) k(1,4) c u(1) by simp
    then show thesis using k(3) u(2) k(5,6,8) w avail_fields(1) [of "t'\<lparr>pcbs := ?P\<rparr>" t']
      by (intro that(2) [of "t'\<lparr>pcbs := ?P\<rparr>" k]) (simp_all add: uses_def)
  qed
qed

lemma stage_kmalloc_pcb:
  fixes t :: "'a sched_scheme"
  assumes st: "stage lo s A P t"
  obtains t' where "kmalloc_pcb t = Some (0, t')" "stage lo s A P t'" "no_room 4096 t"
  | q t' where "kmalloc_pcb t = Some (q + 8, t')" "q \<notin> A" "q + 8 \<noteq> 0" "stage lo s (insert q A) (P(q + 8 \<mapsto> new_pcb)) t'"
      "pmem t' = pmem t" "avail_frames t' \<subseteq> avail_frames t" "next_pid t' = next_pid t" "uses 4096 t t'"
proof -
  have w: "core_bytes (unat (units 104)) = 4096" by (simp add: units_def core_bytes_def)
  have n: "(104 :: u32) \<noteq> 0" "(104 :: u32) \<le> 0x3F000000" by simp_all
  show thesis
  proof (rule stage_kmalloc [OF st n])
    fix t' assume "kmalloc 104 t = Some (0, t')" "stage lo s A P t'" "no_room (core_bytes (unat (units 104))) t"
    then show thesis using w by (intro that(1) [of t']) (simp_all add: kmalloc_pcb_def)
  next
    fix q t' assume q: "kmalloc 104 t = Some (q + 8, t')" "stage lo s (insert q A) P t'" "q \<notin> A" "q + 8 \<noteq> 0"
      "pmem t' = pmem t" "avail_frames t' \<subseteq> avail_frames t" "next_pid t' = next_pid t"
      "uses (core_bytes (unat (units 104))) t t'"
    let ?t = "t'\<lparr>pcbs := P(q + 8 \<mapsto> new_pcb)\<rparr>"
    have "pcbs t' = P" using q(2) by (simp add: stage_def)
    then have "kmalloc_pcb t = Some (q + 8, ?t)" using q(1,4) by (simp add: kmalloc_pcb_def)
    then show thesis
      using q w stage_pcbs [OF q(2)] avail_fields(1) [of ?t t'] by (intro that(2) [of q ?t]) (simp_all add: uses_def)
  qed
qed

lemma stage_kfree_pcb:
  fixes t :: "'a sched_scheme"
  assumes st: "stage lo s A P t" and q: "q \<in> A"
  obtains t' where "kfree_pcb (q + 8) t = Some t'" "stage lo s (A - {q}) (P(q + 8 := None)) t'"
proof -
  have "pcbs t = P" using st by (simp add: stage_def)
  then show thesis
    using stage_kfree [OF stage_pcbs [OF st, of "P(q + 8 := None)"] q] that by (auto simp: kfree_pcb_def)
qed

end
