(* ===== verification/Fork.thy ===== *)
theory Fork
  imports Kernel_State
begin

text \<open>
  The system call \<open>fork\<close> on the whole kernel: the heap gives the control block and the kernel stack of the
  child, the frame allocator its memory, and the scheduler its place in the ready queue; each of the
  four ways to fail undoes what was done.
\<close>

lemma enqueue_sched_at:
  assumes inv: "sched_at b t" and p: "p \<noteq> 0" "p \<notin> set (ready_list t)" "p \<noteq> current_pcb t" "pcbs t p = Some c" "state c = PROCESS_STATE_READY"
    and e: "rq_ok t'" "queue_only t t'" "ready_list t' = ready_list t @ [p]"
  shows "sched_at b t'"
proof -
  have i: "sched_ok t" "asched_inv (abs_sched t)" "b \<longrightarrow> running (abs_sched t)" "current_pcb t \<noteq> 0" using inv by (simp_all add: sched_at_def)
  from e(2) obtain q h tl l g where t': "t' = t\<lparr>ready_queue := q, ready_head := h, ready_tail := tl, ready_len := l, serial_log := g\<rparr>"
    unfolding queue_only_def by blast
  have a: "abs_sched t' = (abs_sched t)\<lparr>a_ready := ready_list t @ [p]\<rparr>" using e(3) by (simp add: abs_sched_def) (simp add: t')
  have "sched_ok t'"
    using i(1) e(1,3) p(1,4) by (auto simp: sched_ok_def queue_ok_def pcbs_valid_def) (auto simp: t')
  moreover have "asched_inv (abs_sched t')" "b \<longrightarrow> running (abs_sched t')"
    using i(2,3) p unfolding a by (auto simp: asched_inv_def ready_entries_def space_inv_def running_def)
  ultimately show ?thesis using i(4) by (simp add: sched_at_def) (simp add: t')
qed

lemma save_context_frame: "save_context_from_syscall_frame frame = frame"
  by (simp add: save_context_from_syscall_frame_def)

text \<open>What a failed call leaves behind.\<close>

lemma stage_failed:
  assumes "sched_at b s" and "kernel_inv lo A s" and "stage lo s A (pcbs s) t"
  shows "sched_at b t \<and> kernel_inv lo A t \<and> pcbs t = pcbs s \<and> ready_list t = ready_list s \<and> avail_frames t \<subseteq> avail_frames s \<and>
    (\<forall>f. f \<notin> avail_frames s \<longrightarrow> pmem t f = pmem s f) \<and> around s t"
  using assms quiet_around [of s t] quiet_sched_at [OF assms(1), of t] quiet_sched(1) [of s t] by (auto simp: stage_def kernel_inv_def)

lemma stage_serial: "stage lo s A P t \<Longrightarrow> stage lo s A P (serial_line l t)"
  using stage_log [of lo s A P t "serial_log t @ [l]"] by (simp add: serial_line_def)

subsection \<open>The last steps of the call\<close>

text \<open>The call from the clone of the address space on, and from the kernel stack on.\<close>

definition fork_finish :: "u32 \<Rightarrow> u32 \<Rightarrow> u32 \<Rightarrow> syscall_frame \<Rightarrow> 'a sched_scheme \<Rightarrow> (u32 \<times> syscall_frame \<times> 'a sched_scheme) option" where
  "fork_finish child child_pdt child_pid frame s = do {
     s \<leftarrow> pcb_update child (\<lambda>c. c\<lparr>pdt := child_pdt, eip := c_eip frame, esp := c_user_esp frame, eflags := c_eflags frame,
            cs := c_cs frame, ss := c_user_ss frame, pcb_context := frame\<lparr>c_eax := 0\<rparr>\<rparr>) s;
     (r, s) \<leftarrow> scheduler_enqueue_ready child s;
     cc \<leftarrow> pcbs s child;
     if r < 0 then do {
       s \<leftarrow> kfree (kernel_stack_base cc) s;
       s \<leftarrow> destroy_user_space child_pdt s;
       s \<leftarrow> kfree_pcb child s;
       Some (-1, frame, serial_line ''[SYSCALL] fork: fila ready cheia'' s) }
     else do {
       let s = log_process_stat (pid cc) STAT_EVENT_CREATED STAT_CONTEXT_FORK s;
       let s = serial_line ''[SYSCALL] fork concluido'' s;
       Some (child_pid, frame, s) } }"

definition fork_rest :: "u32 \<Rightarrow> u32 \<Rightarrow> u32 \<Rightarrow> syscall_frame \<Rightarrow> 'a sched_scheme \<Rightarrow> (u32 \<times> syscall_frame \<times> 'a sched_scheme) option" where
  "fork_rest child child_pid parent_pdt frame s = do {
     (child_pdt, s) \<leftarrow> clone_user_space parent_pdt s;
     if child_pdt = 0 then do {
       s \<leftarrow> kfree_pcb child s;
       Some (-1, frame, serial_line ''[SYSCALL] fork: falha ao clonar memoria'' s) }
     else do {
       (r, s) \<leftarrow> alloc_process_kernel_stack child s;
       if r < 0 then do {
         s \<leftarrow> destroy_user_space child_pdt s;
         s \<leftarrow> kfree_pcb child s;
         Some (-1, frame, serial_line ''[SYSCALL] fork: falha ao clonar kstack'' s) }
       else fork_finish child child_pdt child_pid frame s } }"

lemma sys_fork_steps:
  assumes "current_pcb s \<noteq> 0" and "kmalloc_pcb s = Some (child, t1)" and "child \<noteq> 0" and "pcbs t1 (current_pcb s) = Some cp"
    and "scheduler_allocate_pid t1 = (pd, t2)"
    and "pcb_update child (\<lambda>_. cp\<lparr>pid := pd, ppid := pid cp, state := PROCESS_STATE_READY, kernel_stack_base := 0, kernel_esp0 := 0, pdt := 0\<rparr>) t2 = Some t3"
  shows "sys_fork frame s = fork_rest child pd (pdt cp) frame t3"
  using assms unfolding sys_fork_def scheduler_get_current_def fork_rest_def fork_finish_def save_context_frame by simp

lemma stage_enqueue:
  fixes t :: "'a sched_scheme"
  assumes inv: "sched_at b s" and st: "stage lo s A ((pcbs s)(p \<mapsto> c)) t" and p: "p \<notin> dom (pcbs s)" "p \<noteq> 0" "state c = PROCESS_STATE_READY"
  obtains "scheduler_enqueue_ready p t = Some (-1, t)"
  | t' where "scheduler_enqueue_ready p t = Some (0, t')" "sched_at b t'" "pcbs t' = (pcbs s)(p \<mapsto> c)" "ready_list t' = ready_list s @ [p]"
      "mem_ok t'" "heap_ok lo A t'" "pmem t' = pmem t" "avail_frames t' = avail_frames t" "around s t'"
proof -
  have q: "quiet s t" "mem_ok t" "heap_ok lo A t" "pcbs t = (pcbs s)(p \<mapsto> c)" using st by (simp_all add: stage_def)
  note qs = quiet_sched [OF q(1)]
  have it: "sched_at b t" using p(1) q(4) by (intro quiet_sched_at [OF inv q(1)]) auto
  then have rq: "rq_ok t" by (simp add: sched_at_def sched_ok_def queue_ok_def)
  have dom: "set (ready_list s) \<subseteq> dom (pcbs s)" "current_pcb s \<in> dom (pcbs s)"
    using inv by (auto simp: sched_at_def asched_inv_def ready_entries_def sched_ok_def)
  show thesis
  proof (cases "length (ready_list t) < 32")
    case False
    then have "scheduler_enqueue_ready p t = Some (-1, t)" using fifo.enq_refuses [OF rq, of p] by simp
    then show thesis by (rule that(1))
  next
    case True
    from fifo.enq_appends [OF rq p(2) True] obtain t' where t': "scheduler_enqueue_ready p t = Some (0, t')" "rq_ok t'" "queue_only t t'"
      "ready_list t' = ready_list t @ [p]" by blast
    have "sched_at b t'"
      by (rule enqueue_sched_at [OF it p(2) _ _ _ p(3) t'(2-4)]) (use dom p(1) qs q(4) in auto)
    moreover from t'(3) obtain a b d e g where f: "t' = t\<lparr>ready_queue := a, ready_head := b, ready_tail := d, ready_len := e, serial_log := g\<rparr>"
      unfolding queue_only_def by blast
    note av = avail_fields [of t' t]
    have "heap_ok lo A t'" by (rule heap_ok_fields [OF q(3)]) (use q(2) av(3) in \<open>simp_all add: f mem_ok_def\<close>)
    moreover have "mem_ok t'" using q(2) av(3) by (simp add: mem_ok_def window_closed_def f)
    moreover have "around s t'" using quiet_around [OF q(1)] av(2) by (simp add: around_def) (simp add: f)
    ultimately show thesis using t'(1,4) av(1) qs(1) q(4) by (intro that(2) [of t']) (simp_all add: f)
  qed
qed

text \<open>The child's control block as \<open>fork\<close> leaves it.\<close>

definition child_pcb :: "syscall_frame \<Rightarrow> u32 \<Rightarrow> PCB \<Rightarrow> PCB" where
  "child_pcb frame d c = c\<lparr>pdt := d, eip := c_eip frame, esp := c_user_esp frame, eflags := c_eflags frame,
     cs := c_cs frame, ss := c_user_ss frame, pcb_context := frame\<lparr>c_eax := 0\<rparr>\<rparr>"

lemma fork_undo:
  fixes t :: "'a sched_scheme"
  assumes st: "stage lo s (insert q A) ((pcbs s)(q + 8 \<mapsto> c)) t" and q: "q \<notin> A" "q + 8 \<notin> dom (pcbs s)"
  obtains t' where "kfree_pcb (q + 8) t = Some t'" "stage lo s A (pcbs s) (serial_line l t')"
proof -
  obtain t' where t': "kfree_pcb (q + 8) t = Some t'" "stage lo s (insert q A - {q}) (((pcbs s)(q + 8 \<mapsto> c))(q + 8 := None)) t'"
    using stage_kfree_pcb [OF st, of q] by blast
  have "insert q A - {q} = A" "((pcbs s)(q + 8 \<mapsto> c))(q + 8 := None) = pcbs s" using q by auto
  with t' stage_serial show thesis by (intro that) simp_all
qed

lemma fork_finish_result:
  fixes t :: "'a sched_scheme"
  assumes inv: "sched_at b s" and q: "q \<notin> A" "q + 8 \<notin> dom (pcbs s)" "q + 8 \<noteq> 0" "kk \<notin> insert q A"
    and st: "stage lo s (insert kk (insert q A)) ((pcbs s)(q + 8 \<mapsto> c)) t"
    and c: "kernel_stack_base c = kk + 8" "state c = PROCESS_STATE_READY" and d: "own_space d t" "owned (pmem t) d \<subseteq> avail_frames s"
  obtains t' where "fork_finish (q + 8) d pd frame t = Some (-1, frame, t')" "stage lo s A (pcbs s) t'"
  | t' where "fork_finish (q + 8) d pd frame t = Some (pd, frame, t')" "sched_at b t'" "pcbs t' = (pcbs s)(q + 8 \<mapsto> child_pcb frame d c)"
      "ready_list t' = ready_list s @ [q + 8]" "mem_ok t'" "heap_ok lo (insert kk (insert q A)) t'" "pmem t' = pmem t" "avail_frames t' = avail_frames t"
      "around s t'"
proof -
  let ?c = "child_pcb frame d c"
  have u: "pcb_update (q + 8) (child_pcb frame d) t = Some (t\<lparr>pcbs := (pcbs s)(q + 8 \<mapsto> ?c)\<rparr>)"
    and su: "stage lo s (insert kk (insert q A)) ((pcbs s)(q + 8 \<mapsto> ?c)) (t\<lparr>pcbs := (pcbs s)(q + 8 \<mapsto> ?c)\<rparr>)"
    using stage_pcb_update [OF st, of "q + 8" c "child_pcb frame d"] by simp_all
  define t1 where "t1 = t\<lparr>pcbs := (pcbs s)(q + 8 \<mapsto> ?c)\<rparr>"
  have t1: "pmem t1 = pmem t" "avail_frames t1 = avail_frames t" using avail_fields(1) [of t1 t] by (simp_all add: t1_def)
  have cs: "state ?c = PROCESS_STATE_READY" "kernel_stack_base ?c = kk + 8" using c by (simp_all add: child_pcb_def)
  have u': "pcb_update (q + 8) (\<lambda>c. c\<lparr>pdt := d, eip := c_eip frame, esp := c_user_esp frame, eflags := c_eflags frame,
            cs := c_cs frame, ss := c_user_ss frame, pcb_context := frame\<lparr>c_eax := 0\<rparr>\<rparr>) t = Some t1"
    using u unfolding t1_def child_pcb_def by simp
  show thesis
  proof (rule stage_enqueue [OF inv su [folded t1_def] q(2,3) cs(1)])
    assume e: "scheduler_enqueue_ready (q + 8) t1 = Some (-1, t1)"
    obtain t2 where t2: "kfree (kk + 8) t1 = Some t2" "stage lo s (insert kk (insert q A) - {kk}) ((pcbs s)(q + 8 \<mapsto> ?c)) t2"
      "pmem t2 = pmem t1" "avail_frames t2 = avail_frames t1" using stage_kfree [OF su [folded t1_def], of kk] by blast
    have s2: "stage lo s (insert q A) ((pcbs s)(q + 8 \<mapsto> ?c)) t2" using t2(2) q(4) by simp
    have "own_space d t2" using own_space_heap [OF d(1), of t2] t2(3,4) t1 by simp
    moreover have "owned (pmem t2) d \<subseteq> avail_frames s" using d(2) t2(3) t1 by simp
    ultimately obtain t3 where t3: "destroy_user_space d t2 = Some t3" "stage lo s (insert q A) ((pcbs s)(q + 8 \<mapsto> ?c)) t3"
      using stage_destroy [OF s2] by blast
    obtain t4 where t4: "kfree_pcb (q + 8) t3 = Some t4" "stage lo s A (pcbs s) (serial_line ''[SYSCALL] fork: fila ready cheia'' t4)"
      using fork_undo [OF t3(2) q(1,2)] by blast
    have "fork_finish (q + 8) d pd frame t = Some (-1, frame, serial_line ''[SYSCALL] fork: fila ready cheia'' t4)"
      unfolding fork_finish_def u' using e t2(1) t3(1) t4(1) cs(2) by (simp add: t1_def)
    then show thesis using t4(2) by (rule that(1))
  next
    fix t2 assume e: "scheduler_enqueue_ready (q + 8) t1 = Some (0, t2)" "sched_at b t2" "pcbs t2 = (pcbs s)(q + 8 \<mapsto> ?c)"
      "ready_list t2 = ready_list s @ [q + 8]" "mem_ok t2" "heap_ok lo (insert kk (insert q A)) t2" "pmem t2 = pmem t1" "avail_frames t2 = avail_frames t1" "around s t2"
    let ?t = "serial_line ''[SYSCALL] fork concluido'' (log_process_stat (pid ?c) STAT_EVENT_CREATED STAT_CONTEXT_FORK t2)"
    have "fork_finish (q + 8) d pd frame t = Some (pd, frame, ?t)"
      unfolding fork_finish_def u' using e(1,3) by simp
    moreover obtain l where l: "?t = t2\<lparr>serial_log := l\<rparr>" by (simp add: serial_line_def log_process_stat_def)
    note av = avail_fields [of "t2\<lparr>serial_log := l\<rparr>" t2]
    have "heap_ok lo (insert kk (insert q A)) ?t"
      unfolding l by (rule heap_ok_fields [OF e(6)]) (use e(5) av(3) in \<open>simp_all add: mem_ok_def\<close>)
    moreover have "mem_ok ?t" unfolding l using e(5) av(3) by (simp add: mem_ok_def window_closed_def)
    moreover have "sched_at b ?t" "ready_list ?t = ready_list t2" "pcbs ?t = pcbs t2"
      unfolding l using e(2) sched_fields [of "t2\<lparr>serial_log := l\<rparr>" t2] by (simp_all add: sched_at_def)
    moreover have "around s ?t" unfolding l using e(9) av(2) by (simp add: around_def)
    moreover have "pmem ?t = pmem t" "avail_frames ?t = avail_frames t" unfolding l using e(7,8) t1 av(1) by simp_all
    ultimately show thesis using e(3,4) by (intro that(2) [of ?t]) simp_all
  qed
qed

lemma fork_rest_result:
  fixes t :: "'a sched_scheme"
  assumes inv: "sched_at b s" and q: "q \<notin> A" "q + 8 \<notin> dom (pcbs s)" "q + 8 \<noteq> 0"
    and st: "stage lo s (insert q A) ((pcbs s)(q + 8 \<mapsto> c)) t" and c: "state c = PROCESS_STATE_READY"
    and m: "pmem t = pmem s" and own: "own_space p t"
  obtains t' where "fork_rest (q + 8) pd p frame t = Some (-1, frame, t')" "stage lo s A (pcbs s) t'"
  | t' d kk where "fork_rest (q + 8) pd p frame t = Some (pd, frame, t')" "sched_at b t'"
      "pcbs t' = (pcbs s)(q + 8 \<mapsto> child_pcb frame d (c\<lparr>kernel_stack_base := kk + 8, kernel_esp0 := kk + 8 + 4096 - 4\<rparr>))"
      "ready_list t' = ready_list s @ [q + 8]" "mem_ok t'" "heap_ok lo (insert kk (insert q A)) t'" "own_space d t'"
      "owned (pmem t') d \<subseteq> avail_frames s" "avail_frames t' \<subseteq> avail_frames s" "\<forall>f. f \<notin> avail_frames s \<longrightarrow> pmem t' f = pmem s f"
      "\<forall>v < 0xC0000000. user_read8 v (t'\<lparr>cr3 := d\<rparr>) = user_read8 v (s\<lparr>cr3 := p\<rparr>)" "around s t'"
      "pde_at (pmem t') d 768 = page_directory s ! 768"
proof -
  note fails = that(1) and gets = that(2)
  have mo: "pfa_ok t" "window_closed t" "length (page_directory t) = 1024" and av: "avail_frames t \<subseteq> avail_frames s"
    using st by (simp_all add: stage_def mem_ok_def)
  have sp: "space_ok (pmem t) p" "owned (pmem t) p \<inter> avail_frames t = {}" using own by (simp_all add: own_space_def)
  from mo sp show thesis
  proof (cases rule: clone_user_space_result)
    case (none t1)
    obtain t2 where t2: "kfree_pcb (q + 8) t1 = Some t2" "stage lo s A (pcbs s) (serial_line ''[SYSCALL] fork: falha ao clonar memoria'' t2)"
      using fork_undo [OF stage_taken [OF st none(2)] q(1,2)] by blast
    then show thesis using none(1) by (intro fails [OF _ t2(2)]) (simp add: fork_rest_def)
  next
    case (space d t1)
    have T: "taken (owned (pmem t1) d) t t1" and ok: "space_ok (pmem t1) d" using space(3) by (simp_all add: building_def)
    note s1 = stage_taken [OF st T] and k1 = taken_simps [OF T]
    have own1: "own_space d t1" "owned (pmem t1) d \<subseteq> avail_frames s" using k1(7,8) ok space(2) av by (auto simp: own_space_def)
    have cP: "((pcbs s)(q + 8 \<mapsto> c)) (q + 8) = Some c" by simp
    show thesis
    proof (rule stage_kernel_stack [OF s1 q(3) cP])
      fix t2 assume t2: "alloc_process_kernel_stack (q + 8) t1 = Some (-1, t2)" "stage lo s (insert q A) ((pcbs s)(q + 8 \<mapsto> c)) t2"
        "pmem t2 = pmem t1" "avail_frames t2 \<subseteq> avail_frames t1"
      obtain t3 where t3: "destroy_user_space d t2 = Some t3" "stage lo s (insert q A) ((pcbs s)(q + 8 \<mapsto> c)) t3"
        using stage_destroy [OF t2(2) own_space_heap [OF own1(1) t2(3,4)]] own1(2) t2(3) by auto
      obtain t4 where t4: "kfree_pcb (q + 8) t3 = Some t4" "stage lo s A (pcbs s) (serial_line ''[SYSCALL] fork: falha ao clonar kstack'' t4)"
        using fork_undo [OF t3(2) q(1,2)] by blast
      then show thesis using space(1,2) t2(1) t3(1) by (intro fails [OF _ t4(2)]) (simp add: fork_rest_def)
    next
      fix kk t2
      let ?c = "c\<lparr>kernel_stack_base := kk + 8, kernel_esp0 := kk + 8 + 4096 - 4\<rparr>"
      assume t2: "alloc_process_kernel_stack (q + 8) t1 = Some (0, t2)" "kk \<notin> insert q A"
        "stage lo s (insert kk (insert q A)) ((pcbs s)(q + 8 \<mapsto> c, q + 8 \<mapsto> ?c)) t2" "pmem t2 = pmem t1" "avail_frames t2 \<subseteq> avail_frames t1"
      have s2: "stage lo s (insert kk (insert q A)) ((pcbs s)(q + 8 \<mapsto> ?c)) t2" using t2(3) by simp
      have own2: "own_space d t2" "owned (pmem t2) d \<subseteq> avail_frames s" using own_space_heap [OF own1(1) t2(4,5)] own1(2) t2(4) by simp_all
      have rest: "fork_rest (q + 8) pd p frame t = fork_finish (q + 8) d pd frame t2" using space(1,2) t2(1) by (simp add: fork_rest_def)
      have cc: "kernel_stack_base ?c = kk + 8" "state ?c = PROCESS_STATE_READY" using c by simp_all
      show thesis
      proof (rule fork_finish_result [OF inv q t2(2) s2 cc own2, of pd frame])
        fix t' assume "fork_finish (q + 8) d pd frame t2 = Some (-1, frame, t')" "stage lo s A (pcbs s) t'"
        then show thesis using rest by (intro fails) simp_all
      next
        fix t' assume t': "fork_finish (q + 8) d pd frame t2 = Some (pd, frame, t')" "sched_at b t'" "pcbs t' = (pcbs s)(q + 8 \<mapsto> child_pcb frame d ?c)"
          "ready_list t' = ready_list s @ [q + 8]" "mem_ok t'" "heap_ok lo (insert kk (insert q A)) t'" "pmem t' = pmem t2" "avail_frames t' = avail_frames t2"
          "around s t'"
        have m2: "avail_frames t2 \<subseteq> avail_frames s" "\<forall>f. f \<notin> avail_frames s \<longrightarrow> pmem t2 f = pmem s f" using s2 by (simp_all add: stage_def)
        have "user_read8 v (t'\<lparr>cr3 := d\<rparr>) = user_read8 v (s\<lparr>cr3 := p\<rparr>)" if "v < 0xC0000000" for v
        proof -
          have "user_read8 v (t'\<lparr>cr3 := d\<rparr>) = user_read8 v (t1\<lparr>cr3 := d\<rparr>)" "user_read8 v (t\<lparr>cr3 := p\<rparr>) = user_read8 v (s\<lparr>cr3 := p\<rparr>)"
            using t'(7) t2(4) m by (simp_all add: user_read8_def user_walk_def)
          then show ?thesis using space(5) that by simp
        qed
        moreover have "pde_at (pmem t') d 768 = page_directory s ! 768"
          using space(4) st t'(7) t2(4) by (simp add: stage_def quiet_def)
        ultimately show thesis using t' rest m2 own_space_heap [OF own2(1), of t'] own2(2) by (intro gets [of t' d kk]) simp_all
      qed
    qed
  qed
qed

lemma sys_fork_result:
  assumes inv: "sched_at b s" and ker: "kernel_inv lo A s" and cp: "pcbs s (current_pcb s) = Some cp" and own: "own_space (pdt cp) s"
  shows "\<exists>r s'. sys_fork frame s = Some (r, frame, s') \<and> sched_at b s' \<and> avail_frames s' \<subseteq> avail_frames s \<and>
    (\<forall>f. f \<notin> avail_frames s \<longrightarrow> pmem s' f = pmem s f) \<and> around s s' \<and>
    (r = -1 \<and> kernel_inv lo A s' \<and> pcbs s' = pcbs s \<and> ready_list s' = ready_list s \<or>
     (\<exists>child cc. r = next_pid s \<and> pid cc = r \<and> ppid cc = pid cp \<and> child \<notin> dom (pcbs s) \<and> pcbs s' = (pcbs s)(child \<mapsto> cc) \<and>
        ready_list s' = ready_list s @ [child] \<and> pcb_context cc = frame\<lparr>c_eax := 0\<rparr> \<and>
        kernel_inv lo (A \<union> {child - 8, kernel_stack_base cc - 8}) s' \<and> own_space (pdt cc) s' \<and> owned (pmem s') (pdt cc) \<subseteq> avail_frames s \<and>
        owned (pmem s') (pdt cc) \<inter> owned (pmem s) (pdt cp) = {} \<and> pde_at (pmem s') (pdt cc) 768 = page_directory s ! 768 \<and>
        (\<forall>v < 0xC0000000. user_read8 v (s'\<lparr>cr3 := pdt cc\<rparr>) = user_read8 v (s\<lparr>cr3 := pdt cp\<rparr>))))"
  (is "\<exists>r s'. ?Q r s'")
proof -
  have k: "mem_ok s" "heap_ok lo A s" "dom (pcbs s) \<subseteq> (\<lambda>a. a + 8) ` A" using ker by (simp_all add: kernel_inv_def)
  have cur: "current_pcb s \<noteq> 0" using inv by (simp add: sched_at_def)
  have fail: "?Q (-1) t" if "stage lo s A (pcbs s) t" "sys_fork frame s = Some (-1, frame, t)" for t
    using stage_failed [OF inv ker that(1)] that(2) by blast
  show ?thesis
  proof (rule stage_kmalloc_pcb [OF stage_start [OF k(1,2)]])
    fix t assume "kmalloc_pcb s = Some (0, t)" and st: "stage lo s A (pcbs s) t"
    then have "sys_fork frame s = Some (-1, frame, t)" using cur by (simp add: sys_fork_def scheduler_get_current_def)
    then show ?thesis using fail [OF st] by blast
  next
    fix q t1 assume q: "kmalloc_pcb s = Some (q + 8, t1)" "q \<notin> A" "q + 8 \<noteq> 0" "stage lo s (insert q A) ((pcbs s)(q + 8 \<mapsto> new_pcb)) t1"
      "pmem t1 = pmem s" "avail_frames t1 \<subseteq> avail_frames s" "next_pid t1 = next_pid s"
    have fresh: "q + 8 \<notin> dom (pcbs s)" using k(3) q(2) by auto
    then have "current_pcb s \<noteq> q + 8" using cp by auto
    then have cp1: "pcbs t1 (current_pcb s) = Some cp" using cp q(4) by (simp add: stage_def)
    obtain t2 where t2: "scheduler_allocate_pid t1 = (next_pid s, t2)" "stage lo s (insert q A) ((pcbs s)(q + 8 \<mapsto> new_pcb)) t2"
      "pmem t2 = pmem s" "avail_frames t2 \<subseteq> avail_frames s" using stage_allocate_pid [OF q(4)] q(5-7) by metis
    define c where "c = cp\<lparr>pid := next_pid s, ppid := pid cp, state := PROCESS_STATE_READY, kernel_stack_base := 0, kernel_esp0 := 0, pdt := 0\<rparr>"
    define t3 where "t3 = t2\<lparr>pcbs := (pcbs s)(q + 8 \<mapsto> c)\<rparr>"
    have u3: "pcb_update (q + 8) (\<lambda>_. c) t2 = Some t3" and st3: "stage lo s (insert q A) ((pcbs s)(q + 8 \<mapsto> c)) t3"
      using stage_pcb_update [OF t2(2), of "q + 8" new_pcb "\<lambda>_. c"] by (simp_all add: t3_def)
    have m3: "pmem t3 = pmem s" "avail_frames t3 \<subseteq> avail_frames s" using t2(3,4) avail_fields(1) [of t3 t2] by (simp_all add: t3_def)
    have run: "sys_fork frame s = fork_rest (q + 8) (next_pid s) (pdt cp) frame t3"
      by (rule sys_fork_steps [OF cur q(1,3) cp1 t2(1) u3 [unfolded c_def]])
    have ready: "state c = PROCESS_STATE_READY" by (simp add: c_def)
    show ?thesis
    proof (rule fork_rest_result [OF inv q(2) fresh q(3) st3 ready m3(1) own_space_heap [OF own m3], of "next_pid s" frame])
      fix t assume "fork_rest (q + 8) (next_pid s) (pdt cp) frame t3 = Some (-1, frame, t)" and st: "stage lo s A (pcbs s) t"
      then show ?thesis using fail [OF st] run by auto
    next
      fix t d kk assume t: "fork_rest (q + 8) (next_pid s) (pdt cp) frame t3 = Some (next_pid s, frame, t)" "sched_at b t"
          "pcbs t = (pcbs s)(q + 8 \<mapsto> child_pcb frame d (c\<lparr>kernel_stack_base := kk + 8, kernel_esp0 := kk + 8 + 4096 - 4\<rparr>))"
          "ready_list t = ready_list s @ [q + 8]" "mem_ok t" "heap_ok lo (insert kk (insert q A)) t" "own_space d t"
          "owned (pmem t) d \<subseteq> avail_frames s" "avail_frames t \<subseteq> avail_frames s" "\<forall>f. f \<notin> avail_frames s \<longrightarrow> pmem t f = pmem s f"
          "\<forall>v < 0xC0000000. user_read8 v (t\<lparr>cr3 := d\<rparr>) = user_read8 v (s\<lparr>cr3 := pdt cp\<rparr>)" "around s t"
          "pde_at (pmem t) d 768 = page_directory s ! 768"
      define cc where "cc = child_pcb frame d (c\<lparr>kernel_stack_base := kk + 8, kernel_esp0 := kk + 8 + 4096 - 4\<rparr>)"
      have f: "pid cc = next_pid s" "ppid cc = pid cp" "pcb_context cc = frame\<lparr>c_eax := 0\<rparr>" "pdt cc = d" "kernel_stack_base cc = kk + 8"
        by (simp_all add: cc_def child_pcb_def c_def)
      have "kernel_inv lo (A \<union> {q + 8 - 8, kernel_stack_base cc - 8}) t"
        using t(3,5,6) k(3) by (auto simp: kernel_inv_def f insert_commute)
      moreover have "owned (pmem t) d \<inter> owned (pmem s) (pdt cp) = {}" using t(8) own by (auto simp: own_space_def)
      ultimately have "?Q (next_pid s) t"
        using run t f fresh unfolding cc_def [symmetric] by (intro conjI disjI2 exI [of _ "q + 8"] exI [of _ cc]) simp_all
      then show ?thesis by blast
    qed
  qed
qed

text \<open>
  C7.  \<open>fork\<close> on a sound kernel always returns.  Either a new process waits at the end of the ready queue:
  its control block is fresh, its identifier is the one the scheduler had next and is the result of
  the call, its registers are the caller's but for \<open>eax\<close>, which is 0, every byte of user memory reads the
  same for it as for its parent, its directory has the kernel's entry, and the two share no frame.  Or the result is -1, and control blocks,
  ready queue and heap blocks in use are as before.  In both cases the invariants of the scheduler, the
  memory and the heap hold again, and no frame that was in use has changed.
\<close>

theorem sys_fork_creates_child:
  assumes inv: "sched_inv s" and ker: "kernel_inv lo A s" and cp: "pcbs s (current_pcb s) = Some cp" and own: "own_space (pdt cp) s"
  shows "\<exists>r s'. sys_fork frame s = Some (r, frame, s') \<and> sched_inv s' \<and> avail_frames s' \<subseteq> avail_frames s \<and>
    (\<forall>f. f \<notin> avail_frames s \<longrightarrow> pmem s' f = pmem s f) \<and>
    (r = -1 \<and> kernel_inv lo A s' \<and> pcbs s' = pcbs s \<and> ready_list s' = ready_list s \<or>
     (\<exists>child cc. r = next_pid s \<and> pid cc = r \<and> ppid cc = pid cp \<and> child \<notin> dom (pcbs s) \<and> pcbs s' = (pcbs s)(child \<mapsto> cc) \<and>
        ready_list s' = ready_list s @ [child] \<and> pcb_context cc = frame\<lparr>c_eax := 0\<rparr> \<and>
        kernel_inv lo (A \<union> {child - 8, kernel_stack_base cc - 8}) s' \<and> own_space (pdt cc) s' \<and>
        owned (pmem s') (pdt cc) \<inter> owned (pmem s) (pdt cp) = {} \<and> pde_at (pmem s') (pdt cc) 768 = page_directory s ! 768 \<and>
        (\<forall>v < 0xC0000000. user_read8 v (s'\<lparr>cr3 := pdt cc\<rparr>) = user_read8 v (s\<lparr>cr3 := pdt cp\<rparr>))))"
  using sys_fork_result [where b = True and frame = frame, unfolded sched_at_True, OF assms] by blast

text \<open>A kernel with one process, whose control block fills the one page of the heap.\<close>

definition sample_kernel :: modules where
  "sample_kernel = sample_exec\<lparr>base_addr := 0xC0100000,
     hdrs := (\<lambda>_. \<lparr>hnext = 0, hsize = 0\<rparr>)(0xC0100000 := \<lparr>hnext = 0xC0100000, hsize = 0\<rparr>, 0xC0110000 := \<lparr>hnext = 0, hsize = 512\<rparr>),
     freep := 0xC0100000, heap_current := 0xC0111000, heap_max := 0xC03FF000,
     kernel_page_table := (replicate 1024 0)[256 := 0x100003, 272 := 0x110003],
     ready_tail := 31, ready_len := 0, current_pcb := 0xC0110008, pcbs := [0xC0110008 \<mapsto> sample_pcb 1 1 3]\<rparr>"

lemma sample_kernel_heap: "heap_ok 0xC0110000 {0xC0110000} sample_kernel"
proof -
  let ?k = "sample_kernel"
  have st: "stale ?k = {}" by (simp add: sample_kernel_def sample_exec_def sample_modules_def sample_state_def)
  have km: "kmapped x ?k" if "0xC0110000 \<le> unat x" "unat x < 0xC0111000" for x
  proof -
    have "drop_bit 12 x = drop_bit 12 (0xC0110000 :: u32)" using that by (intro same_page) simp_all
    moreover from this have "drop_bit 22 x = (768 :: u32)" using page_number_eq [of x "0xC0110000"] by simp
    ultimately show ?thesis using st by (simp add: kmapped_def) (simp add: sample_kernel_def)
  qed
  have "paging_ok ?k" "pfa_ok ?k" using sample_exec_facts(1) by (simp_all add: mem_ok_def pfa_ok_def paging_ok_def sample_kernel_def)
  moreover have "kmapped (base_addr ?k) ?k" using st by (simp add: kmapped_def) (simp add: sample_kernel_def)
  moreover have f: "heap_max ?k = 0xC03FF000" "unat (heap_current ?k) = 0xC0111000" "base_addr ?k = 0xC0100000"
    "freep ?k = 0xC0100000" by (simp_all add: sample_kernel_def)
  ultimately have m: "heap_mem 0xC0110000 ?k" using km by (simp add: heap_mem_def)
  have h: "hdrs ?k 0xC0110000 = \<lparr>hnext = 0, hsize = 512\<rparr>" "hdrs ?k 0xC0100000 = \<lparr>hnext = 0xC0100000, hsize = 0\<rparr>"
    by (simp_all add: sample_kernel_def)
  then have "ring (hdrs ?k) 0xC0100000 []" by (simp add: ring_def links_def)
  moreover have "tiles (hdrs ?k) 0xC0110000 0xC0111000 {0xC0110000}" using h by (simp add: tiles_def bend_def)
  ultimately have "free_list 0xC0110000 {0xC0110000} [] ?k" using f by (simp add: free_list_def blocks_def touching_def)
  then show ?thesis using m by (auto simp: heap_ok_def)
qed

lemma sample_kernel_facts:
  "sched_inv sample_kernel" "kernel_inv 0xC0110000 {0xC0110000} sample_kernel"
  "pcbs sample_kernel (current_pcb sample_kernel) = Some (sample_pcb 1 1 3)" "own_space (pdt (sample_pcb 1 1 3)) sample_kernel"
proof -
  let ?k = "sample_kernel"
  have p: "pcbs ?k = [0xC0110008 \<mapsto> sample_pcb 1 1 3]" "current_pcb ?k = 0xC0110008" "ready_list ?k = []"
    by (simp_all add: sample_kernel_def ready_list_def)
  then show "pcbs ?k (current_pcb ?k) = Some (sample_pcb 1 1 3)" by simp
  have "pmem ?k = pmem sample_exec" "avail_frames ?k = avail_frames sample_exec"
    using avail_fields(1) [of ?k sample_exec] by (simp_all add: sample_kernel_def)
  then show "own_space (pdt (sample_pcb 1 1 3)) ?k" using sample_exec_facts(6) by (simp add: own_space_def sample_pcb_def)
  have "mem_ok ?k" using sample_exec_facts(1)
    by (simp add: mem_ok_def pfa_ok_def window_closed_def sample_kernel_def)
  then show "kernel_inv 0xC0110000 {0xC0110000} ?k" using sample_kernel_heap p by (simp add: kernel_inv_def)
  have "rq_ok ?k" by (simp add: rq_ok_def sample_kernel_def sample_exec_def sample_modules_def sample_state_def)
  moreover have "asched_inv (abs_sched ?k)" "running (abs_sched ?k)"
    using sample_exec_facts(2,4,5) p
    by (auto simp: sched_inv_def asched_inv_def ready_entries_def space_inv_def running_def sample_kernel_def)
  ultimately show "sched_inv ?k" using p by (simp add: sched_inv_def sched_ok_def queue_ok_def pcbs_valid_def)
qed

theorem sys_fork_creates_child_witness:
  "\<exists>r s'. sys_fork (sample_context 9) sample_kernel = Some (r, sample_context 9, s') \<and> sched_inv s' \<and>
     avail_frames s' \<subseteq> avail_frames sample_kernel"
  using sys_fork_creates_child [OF sample_kernel_facts, of "sample_context 9"] by blast

end
