(* ===== verification/Space_Build.thy ===== *)
theory Space_Build
  imports Fork
begin

text \<open>
  Building the first address space of a process piece by piece, the way \<open>process/process.c\<close> does it.
  \<open>making lo s A P d X t\<close> says that the kernel has come from \<open>s\<close> to \<open>t\<close> (as \<open>stage\<close> does) and holds the
  space \<open>d\<close> and the loose frames \<open>X\<close>; each function of \<open>process.c\<close> that extends the space keeps it.
\<close>

lemma taken_log: "taken F s0 s \<Longrightarrow> taken F (s0\<lparr>serial_log := l\<rparr>) (s\<lparr>serial_log := l\<rparr>)"
  and taken_pcbs: "taken F t0 t \<Longrightarrow> taken F (t0\<lparr>pcbs := P\<rparr>) (t\<lparr>pcbs := P\<rparr>)"
proof -
  note a = avail_fields [of "s0\<lparr>serial_log := l\<rparr>" s0] avail_fields [of "s\<lparr>serial_log := l\<rparr>" s]
    and b = avail_fields [of "t0\<lparr>pcbs := P\<rparr>" t0] avail_fields [of "t\<lparr>pcbs := P\<rparr>" t]
  show "taken F (s0\<lparr>serial_log := l\<rparr>) (s\<lparr>serial_log := l\<rparr>)" if "taken F s0 s"
  proof -
    from that obtain c m where "s = s0\<lparr>bitmap := c, pmem := m\<rparr>" by (auto simp: taken_def)
    then have "\<exists>c m. s\<lparr>serial_log := l\<rparr> = s0\<lparr>serial_log := l, bitmap := c, pmem := m\<rparr>" by (intro exI [of _ c] exI [of _ m]) simp
    then show ?thesis using that a by (simp add: taken_def window_closed_def)
  qed
  show "taken F (t0\<lparr>pcbs := P\<rparr>) (t\<lparr>pcbs := P\<rparr>)" if "taken F t0 t"
  proof -
    from that obtain c m where "t = t0\<lparr>bitmap := c, pmem := m\<rparr>" by (auto simp: taken_def)
    then have "\<exists>c m. t\<lparr>pcbs := P\<rparr> = t0\<lparr>pcbs := P, bitmap := c, pmem := m\<rparr>" by (intro exI [of _ c] exI [of _ m]) simp
    then show ?thesis using that b by (simp add: taken_def window_closed_def)
  qed
qed

lemma clear_frame32:
  assumes "window_closed s"
  shows "do { s \<leftarrow> paging_temp_map f s; s \<leftarrow> win_zero32 s; s \<leftarrow> paging_temp_unmap s; k s } =
    k (set_page (pg f) (zero_page (pmem s (pg f))) s)"
  using assms by (simp add: open_window win_zero32_eq set_page_def)

text \<open>While frames are free, \<open>alloc_page_table\<close> is \<open>alloc_zeroed_frame\<close>.\<close>

lemma alloc_page_table_eq:
  assumes T: "taken F s0 s" and z: "alloc_zeroed_frame s = Some (f, u)" "f \<noteq> 0"
  shows "alloc_page_table s = Some (f, u)"
using T
proof (cases rule: taken_alloc)
  case none
  then show ?thesis using z by (simp add: alloc_zeroed_frame_def)
next
  case (frame g bm)
  then show ?thesis
    using z clear_frame [OF taken_simps(2) [OF frame(6)], of g "\<lambda>s. Some (g, s)"]
      clear_frame32 [OF taken_simps(2) [OF frame(6)], of g "\<lambda>s. Some (g, s)"]
    by (auto simp: alloc_zeroed_frame_def alloc_page_table_def)
qed

lemma building_link:
  assumes B: "building d X s0 s" and i: "user i" "\<not> present (pde_at (pmem s) d i)"
    and t: "t \<in> X" "\<forall>l < 1024. entry (pmem s t) l = 0" and f: "f \<in> X" "f \<noteq> t" and j: "j < 1024"
    and s': "s' = set_page d (put32 (pmem s d) (4 * of_nat i) (t OR 7)) (set_page t (put32 (pmem s t) (4 * of_nat j) (f OR 7)) s)"
  shows "building d (X - {t, f}) s0 s'" "\<And>k. k < 1024 \<Longrightarrow> pde_at (pmem s') d k = (if k = i then t OR 7 else pde_at (pmem s) d k)"
    "\<And>k l. user k \<Longrightarrow> l < 1024 \<Longrightarrow> pte_at (pmem s') d k l = (if k = i \<and> l = j then f OR 7 else pte_at (pmem s) d k l)"
    "owned (pmem s') d = owned (pmem s) d \<union> {t, f}" "pages (pmem s') d = insert f (pages (pmem s) d)"
proof -
  have T: "taken (owned (pmem s) d \<union> X) s0 s" and ok: "space_ok (pmem s) d" and X: "owned (pmem s) d \<inter> X = {}"
    using B by (auto simp: building_def)
  have fr: "pg t = t" "pg f = f" "t \<notin> owned (pmem s) d" "f \<notin> owned (pmem s) d" "t \<in> avail_frames s0" "d \<in> avail_frames s0"
    using taken_simps(5,8) [OF T] t(1) f(1) X building_dir [OF B] by auto
  have td: "t \<noteq> d" using fr(3) space_okD(1) [OF ok] by (auto simp: owned_def)
  have p7: "present (7 :: u32)" by (simp add: present_def)
  have e: "present (t OR 7)" "pg (t OR 7) = t" "(t OR 7) AND 0x80 = 0" "present (f OR 7)" "pg (f OR 7) = f"
    using flags_or [OF fr(1) _ p7] flags_or [OF fr(2) _ p7] by simp_all
  define m1 where "m1 = (pmem s)(d := put32 (pmem s d) (4 * of_nat i) (t OR 7))"
  note a = add_table [OF ok i fr(3) t(2) e(1-3) m1_def]
  have slot: "i \<in> dir_slots m1 d" "t = pg (pde_at m1 d i)" using a(1) [of i] i(1) e by (simp_all add: dir_slots_def)
  have ab: "\<not> present (pte_at m1 d i j)" using a(2) [OF i(1) j] i(2) by (simp add: pte_absent)
  have fo: "f \<notin> owned m1 d" using a(3) fr(4) f(2) by simp
  have m: "pmem s' = m1(t := put32 (m1 t) (4 * of_nat j) (f OR 7))" using td by (simp add: s' m1_def fun_upd_twist)
  note b = add_page [OF a(4) slot(1) j ab fo e(4,5) slot(2) m]
  have own: "owned (pmem s') d = owned (pmem s) d \<union> {t, f}" using a(3) b(3) by auto
  then show "owned (pmem s') d = owned (pmem s) d \<union> {t, f}" .
  have "taken (owned (pmem s) d \<union> X) s0 s'" unfolding s' by (intro taken_set_page fr(5,6)) (rule T)
  moreover have "owned (pmem s') d \<union> (X - {t, f}) = owned (pmem s) d \<union> X" using own t(1) f(1) by auto
  moreover have "owned (pmem s') d \<inter> (X - {t, f}) = {}" using own X by auto
  ultimately show "building d (X - {t, f}) s0 s'" using b(4) by (simp add: building_def)
  show "pde_at (pmem s') d k = (if k = i then t OR 7 else pde_at (pmem s) d k)" if "k < 1024" for k using a(1) b(1) that by simp
  show "pte_at (pmem s') d k l = (if k = i \<and> l = j then f OR 7 else pte_at (pmem s) d k l)" if "user k" "l < 1024" for k l
    using a(2) b(2) that by simp
  show "pages (pmem s') d = insert f (pages (pmem s) d)" using a(5) b(5) by simp
qed

text \<open>The boot directory maps the low 4 MB at their own addresses.\<close>

lemma kread8_low:
  assumes "page_directory s \<noteq> []" and "page_directory s ! 0 = 0x83" and "unat a < 0x400000"
  shows "kread8 a s = Some (phys_byte (pmem s) a)"
proof -
  have "unat (drop_bit 22 a) = 0" using assms(3) by (simp add: drop_bit_eq_div unat_div)
  then have d: "drop_bit 22 a = 0" by (simp only: unat_eq_0)
  have "a AND mask 22 = take_bit 22 a" by (simp add: take_bit_eq_mask)
  also have "\<dots> = a" using assms(3) by (intro word_unat_eq_iff [THEN iffD2]) (simp add: unsigned_take_bit_eq take_bit_nat_eq_self)
  finally have "a AND 0x3FFFFF = a" by (simp add: mask_numeral)
  then show ?thesis using assms(1,2) d by (simp add: kread8_def translate_def phys_byte_def)
qed

lemma copy_module_eq:
  assumes w: "window_closed s" and f: "pg f = f" and pd: "page_directory s \<noteq> []" "page_directory s ! 0 = 0x83"
    and n: "n = (if mend - mstart > 4096 then 4096 else mend - mstart)" and low: "unat mstart + unat n \<le> 0x400000"
    and apart: "\<And>off. off < n \<Longrightarrow> pg (mstart + off) \<noteq> f"
  shows "\<exists>l. copy_module f mstart mend s = Some ((set_page f (\<lambda>off. if off < n then phys_byte (pmem s) (mstart + off)
      else if off < 4096 then 0 else pmem s f off) s)\<lparr>serial_log := l\<rparr>)"
proof -
  define u where "u = serial_write_hex (mend - mstart) (serial_line ''[process] copy_module: tamanho='' s)"
  obtain l where u: "u = s\<lparr>serial_log := l\<rparr>" by (simp add: u_def serial_line_def serial_write_hex_def)
  have wu: "window_closed u" using w by (simp add: u window_closed_def)
  have n4: "unat n \<le> 4096" using n by (auto simp: word_le_nat_alt not_less)
  let ?o = "opened f u"
  note win = open_window [OF wu, where f = f, unfolded f]
  have of: "(of_nat i :: u32) < 4096" "unat (of_nat i :: u32) = i" if "i < 4096" for i
    using that by (simp_all add: word_less_nat_alt unat_of_nat)
  define g where "g i = ?o\<lparr>pmem := (pmem s)(f := (\<lambda>off. if unat off < i then phys_byte (pmem s) (mstart + off) else pmem s f off))\<rparr>" for i
  define h where "h i = ?o\<lparr>pmem := (pmem s)(f := (\<lambda>off. if off < n then phys_byte (pmem s) (mstart + off)
     else if unat off < i then 0 else pmem s f off))\<rparr>" for i
  have copy: "for_range 0 (unat n) (\<lambda>i s. do { b \<leftarrow> kread8 (mstart + of_nat i) s; win_write8 (of_nat i) b s }) ?o = Some (g (unat n))"
  proof (rule for_range_eqI)
    show "?o = g 0" by (simp add: g_def u opened_def)
    fix i assume i: "i < unat n"
    have o: "(of_nat i :: u32) < 4096" "unat (of_nat i :: u32) = i" using of i n4 by simp_all
    have ai: "unat (mstart + of_nat i) = unat mstart + i" using i low o(2) by (subst unat_add_small) simp_all
    have "kread8 (mstart + of_nat i) (g i) = Some (phys_byte (pmem (g i)) (mstart + of_nat i))"
      using pd ai i low by (intro kread8_low) (simp_all add: g_def opened_def u)
    also have "phys_byte (pmem (g i)) (mstart + of_nat i) = phys_byte (pmem s) (mstart + of_nat i)"
      using apart [of "of_nat i"] i o(2) by (simp add: phys_byte_def g_def word_less_nat_alt)
    finally have r: "kread8 (mstart + of_nat i) (g i) = Some (phys_byte (pmem s) (mstart + of_nat i))" .
    have wi: "window (g i) = Some f" using win(2) by (simp add: g_def)
    have "(\<lambda>off. if unat off < i then phys_byte (pmem s) (mstart + off) else pmem s f off)(of_nat i := phys_byte (pmem s) (mstart + of_nat i)) =
       (\<lambda>off. if unat off < Suc i then phys_byte (pmem s) (mstart + off) else pmem s f off)"
      using o(2) by (auto simp: fun_eq_iff less_Suc_eq word_unat_eq_iff)
    then show "do { b \<leftarrow> kread8 (mstart + of_nat i) (g i); win_write8 (of_nat i) b (g i) } = Some (g (Suc i))"
      using r win_ops(2) [OF wi o(1)] by (simp add: g_def)
  qed simp
  have gh: "g (unat n) = h (unat n)" by (simp add: g_def h_def word_less_nat_alt if_distrib cong: if_cong)
  have zero: "for_range (unat n) 4096 (\<lambda>i. win_write8 (of_nat i) 0) (h (unat n)) = Some (h 4096)"
  proof (rule for_range_eqI [OF n4])
    fix i assume i: "unat n \<le> i" "i < 4096"
    have wi: "window (h i) = Some f" using win(2) by (simp add: h_def)
    have "\<not> of_nat i < n" using of(2) [OF i(2)] i(1) by (simp add: word_less_nat_alt)
    then have "(\<lambda>off. if off < n then phys_byte (pmem s) (mstart + off) else if unat off < i then 0 else pmem s f off)(of_nat i := 0) =
       (\<lambda>off. if off < n then phys_byte (pmem s) (mstart + off) else if unat off < Suc i then 0 else pmem s f off)"
      using of(2) [OF i(2)] by (auto simp: fun_eq_iff less_Suc_eq word_unat_eq_iff)
    then show "win_write8 (of_nat i) 0 (h i) = Some (h (Suc i))" using win_ops(2) [OF wi of(1) [OF i(2)]] by (simp add: h_def)
  qed simp
  have lt: "(unat off < 4096) = (off < 4096)" for off :: u32 using word_less_nat_alt [of off 4096] by simp
  let ?p = "\<lambda>off. if off < n then phys_byte (pmem s) (mstart + off) else if off < 4096 then 0 else pmem s f off"
  have "paging_temp_unmap (h 4096) = Some (u\<lparr>pmem := (pmem s)(f := ?p)\<rparr>)"
    unfolding h_def lt by (rule win(4))
  then have "copy_module f mstart mend s = Some (serial_line ''[process] copy_module: copia concluida'' (u\<lparr>pmem := (pmem s)(f := ?p)\<rparr>))"
    using win(1) copy zero unfolding copy_module_def Let_def u_def [symmetric] n [symmetric] gh by simp
  then show ?thesis unfolding u by (simp add: serial_line_def set_page_def) blast
qed

lemma log_fields [simp]:
  fixes s :: "'a sched_scheme"
  shows "pmem (s\<lparr>serial_log := l\<rparr>) = pmem s" "avail_frames (s\<lparr>serial_log := l\<rparr>) = avail_frames s"
  using avail_fields(1) [of "s\<lparr>serial_log := l\<rparr>" s] by simp_all

definition making :: "nat \<Rightarrow> 'a sched_scheme \<Rightarrow> u32 set \<Rightarrow> (u32 \<Rightarrow> PCB option) \<Rightarrow> u32 \<Rightarrow> u32 set \<Rightarrow> 'a sched_scheme \<Rightarrow> bool" where
  "making lo s A P d X t \<longleftrightarrow> (\<exists>s0. stage lo s A P s0 \<and> building d X s0 t)"

lemma building_log: "building d X s0 t \<Longrightarrow> building d X (s0\<lparr>serial_log := l\<rparr>) (t\<lparr>serial_log := l\<rparr>)"
  using taken_log [of _ s0 t l] by (auto simp: building_def)

lemma building_pcbs: "building d X s0 t \<Longrightarrow> building d X (s0\<lparr>pcbs := P\<rparr>) (t\<lparr>pcbs := P\<rparr>)"
  using taken_pcbs [of _ s0 t P] by (auto simp: building_def)

lemma making_log: "making lo s A P d X t \<Longrightarrow> making lo s A P d X (t\<lparr>serial_log := l\<rparr>)"
  and making_pcbs: "making lo s A P d X t \<Longrightarrow> making lo s A P' d X (t\<lparr>pcbs := P'\<rparr>)"
  unfolding making_def by (metis stage_log building_log) (metis stage_pcbs building_pcbs)

lemma making_serial:
  "making lo s A P d X t \<Longrightarrow> making lo s A P d X (serial_line m t)"
  "making lo s A P d X t \<Longrightarrow> making lo s A P d X (serial_write_hex w t)"
  by (simp_all add: serial_write_hex_def serial_line_def making_log)

lemma serial_fields [simp]:
  fixes t :: "'a sched_scheme"
  shows "pmem (serial_line m t) = pmem t" "pmem (serial_write_hex w t) = pmem t"
    "avail_frames (serial_line m t) = avail_frames t" "avail_frames (serial_write_hex w t) = avail_frames t"
    "pcbs (serial_line m t) = pcbs t" "pcbs (serial_write_hex w t) = pcbs t"
    "heap_current (serial_line m t) = heap_current t" "heap_current (serial_write_hex w t) = heap_current t"
    "page_directory (serial_line m t) = page_directory t" "page_directory (serial_write_hex w t) = page_directory t"
    "window_closed (serial_line m t) = window_closed t" "window_closed (serial_write_hex w t) = window_closed t"
    "next_pid (serial_line m t) = next_pid t" "next_pid (serial_write_hex w t) = next_pid t"
  by (simp_all add: serial_line_def serial_write_hex_def window_closed_def)

lemma makingD:
  assumes "making lo s A P d X t"
  shows "stage lo s A P t" "window_closed t" "space_ok (pmem t) d" "d \<noteq> 0" "pg d = d" "d \<in> avail_frames s"
    "owned (pmem t) d \<subseteq> avail_frames s" "X \<subseteq> avail_frames s" "(owned (pmem t) d \<union> X) \<inter> avail_frames t = {}"
    "d \<in> owned (pmem t) d" "owned (pmem t) d \<inter> X = {}" "finite (avail_frames t)"
proof -
  from assms obtain s0 where s0: "stage lo s A P s0" "building d X s0 t" by (auto simp: making_def)
  then have T: "taken (owned (pmem t) d \<union> X) s0 t" and ok: "space_ok (pmem t) d" and X: "owned (pmem t) d \<inter> X = {}"
    by (auto simp: building_def)
  show "stage lo s A P t" using stage_taken [OF s0(1) T] .
  note k = taken_simps [OF T] and D = building_dir [OF s0(2)]
  have av: "avail_frames s0 \<subseteq> avail_frames s" using s0(1) by (simp add: stage_def)
  show "window_closed t" "space_ok (pmem t) d" "owned (pmem t) d \<inter> X = {}" "d \<noteq> 0" "pg d = d" "d \<in> avail_frames s" "d \<in> owned (pmem t) d"
    using k(2) ok X D av by auto
  show "owned (pmem t) d \<subseteq> avail_frames s" "X \<subseteq> avail_frames s" using k(8) av by auto
  show "(owned (pmem t) d \<union> X) \<inter> avail_frames t = {}" using k(7) by auto
  show "finite (avail_frames t)" by (simp add: avail_frames_def free_frames_def)
qed

text \<open>The heap may have grown since the directory was made: the space is re-based on the new state.\<close>

lemma stage_pfa_free:
  fixes t :: "'a sched_scheme"
  assumes st: "stage lo s A P t" and d: "d \<in> avail_frames s" and p: "pfa_ok s"
  obtains bm where "pfa_free d t = Some (t\<lparr>bitmap := bm\<rparr>)" "stage lo s A P (t\<lparr>bitmap := bm\<rparr>)"
    "avail_frames (t\<lparr>bitmap := bm\<rparr>) = insert d (avail_frames t)"
proof -
  have t: "pfa_ok t" "mem_ok t" "managed_frames t = managed_frames s" "avail_frames t \<subseteq> avail_frames s"
    using st by (auto simp: stage_def mem_ok_def quiet_def)
  have al: "pg d = d" using avail_aligned [OF p d] by simp
  have m: "d \<in> managed_frames t" using d t(3) by (auto simp: avail_frames_def free_frames_def managed_frames_def)
  from pfa_free_aligned [OF t(1), of d] pg_aligned [of d] al obtain bm where b: "pfa_free d t = Some (t\<lparr>bitmap := bm\<rparr>)"
    "pfa_ok (t\<lparr>bitmap := bm\<rparr>)" "avail_frames (t\<lparr>bitmap := bm\<rparr>) = avail_frames t \<union> ({d} \<inter> managed_frames t)"
    "managed_frames (t\<lparr>bitmap := bm\<rparr>) = managed_frames t" by metis
  have av: "avail_frames (t\<lparr>bitmap := bm\<rparr>) = insert d (avail_frames t)" using b(3) m by auto
  have "heap_ok lo A (t\<lparr>bitmap := bm\<rparr>)" by (rule heap_ok_fields [of lo A t]) (use st b(2) in \<open>simp_all add: stage_def\<close>)
  moreover have "mem_ok (t\<lparr>bitmap := bm\<rparr>)" using t(2) b(2) by (simp add: mem_ok_def)
  moreover have "quiet t (t\<lparr>bitmap := bm\<rparr>)" using b(4) by (simp add: quiet_def)
  ultimately have "stage lo s A P (t\<lparr>bitmap := bm\<rparr>)"
    using st av d quiet_trans [of s t "t\<lparr>bitmap := bm\<rparr>"] by (auto simp: stage_def)
  then show thesis using b(1) av by (intro that)
qed

lemma making_start:
  fixes t :: "'a sched_scheme"
  assumes st: "stage lo s A P t" and p: "pfa_ok s" and d: "d \<in> avail_frames s" "d \<notin> avail_frames t"
    and sp: "space_ok (pmem t) d" "owned (pmem t) d = {d}"
  shows "making lo s A P d {} t"
proof -
  from stage_pfa_free [OF st d(1) p] obtain bm where b: "stage lo s A P (t\<lparr>bitmap := bm\<rparr>)"
    "avail_frames (t\<lparr>bitmap := bm\<rparr>) = insert d (avail_frames t)" by blast
  have m: "mem_ok t" "mem_ok (t\<lparr>bitmap := bm\<rparr>)" using st b(1) by (simp_all add: stage_def)
  have "\<exists>c m. t = t\<lparr>bitmap := bm, bitmap := c, pmem := m\<rparr>" by (intro exI [of _ "bitmap t"] exI [of _ "pmem t"]) simp
  then have "taken {d} (t\<lparr>bitmap := bm\<rparr>) t"
    using m b(2) d(2) unfolding taken_def by (auto simp: mem_ok_def managed_frames_def)
  then have "building d {} (t\<lparr>bitmap := bm\<rparr>) t" using sp by (simp add: building_def)
  with b(1) show ?thesis by (auto simp: making_def)
qed

lemma building_avail: "building d X s0 t \<Longrightarrow> avail_frames t = avail_frames s0 - (owned (pmem t) d \<union> X)"
  by (simp add: building_def taken_def)

lemma building_heap_current: "building d X s0 t \<Longrightarrow> heap_current t = heap_current s0" for t :: "'a sched_scheme"
  by (auto simp: building_def taken_def)

lemma making_frame:
  fixes t :: "'a sched_scheme"
  assumes mk: "making lo s A P d X t" and av: "avail_frames t \<noteq> {}"
  obtains f t' where "pfa_alloc t = Some (f, t')" "making lo s A P d (insert f X) t'" "pmem t' = pmem t" "heap_current t' = heap_current t"
    "pg f = f" "f \<in> avail_frames t" "f \<notin> X" "avail_frames t' = avail_frames t - {f}"
proof -
  from mk obtain s0 where s0: "stage lo s A P s0" "building d X s0 t" by (auto simp: making_def)
  note at = building_avail [OF s0(2)] and hc = building_heap_current [OF s0(2)]
  from s0(2) show thesis
  proof (cases rule: building_alloc)
    case none
    then show thesis using at av by simp
  next
    case (frame f t')
    have "avail_frames t' = avail_frames t - {f}" using building_avail [OF frame(7)] at frame(8) by auto
    then show thesis using frame at hc building_heap_current [OF frame(7)] s0(1) by (intro that [of f t']) (auto simp: making_def)
  qed
qed

lemma making_table:
  fixes t :: "'a sched_scheme"
  assumes mk: "making lo s A P d X t" and i: "user i" "\<not> present (pde_at (pmem t) d i)" and av: "avail_frames t \<noteq> {}"
  obtains p u t' where "alloc_page_table t = Some (p, u)" "frame_write32 d (of_nat i) (p OR 7) u = Some t'" "making lo s A P d X t'"
    "pg p = p" "p \<in> avail_frames t" "avail_frames t' = avail_frames t - {p}" "heap_current t' = heap_current t"
    "\<And>k. k < 1024 \<Longrightarrow> pde_at (pmem t') d k = (if k = i then p OR 7 else pde_at (pmem t) d k)"
    "\<And>k j. user k \<Longrightarrow> j < 1024 \<Longrightarrow> pte_at (pmem t') d k j = pte_at (pmem t) d k j"
    "pages (pmem t') d = pages (pmem t) d" "\<And>g. g \<noteq> d \<Longrightarrow> g \<noteq> p \<Longrightarrow> pmem t' g = pmem t g"
proof -
  from mk obtain s0 where s0: "stage lo s A P s0" "building d X s0 t" by (auto simp: making_def)
  note at = building_avail [OF s0(2)] and hc = building_heap_current [OF s0(2)]
  have T: "taken (owned (pmem t) d \<union> X) s0 t" using s0(2) by (simp add: building_def)
  have fl: "present (7 :: u32)" "pg (7 :: u32) = 0" "(7 :: u32) AND 0x80 = 0" by (simp_all add: present_def)
  from s0(2) i fl show thesis
  proof (cases rule: building_table)
    case none
    then show thesis using at av by simp
  next
    case (table p u t')
    have "avail_frames t' = avail_frames t - {p}" using building_avail [OF table(8)] at table(11) by auto
    moreover have "p \<in> avail_frames t" using at table(4-6) by simp
    moreover have "alloc_page_table t = Some (p, u)" by (rule alloc_page_table_eq [OF T table(1,2)])
    moreover have "making lo s A P d X t'" using s0(1) table(8) by (auto simp: making_def)
    ultimately show thesis
      using table(3,7,9,10,12,13) hc building_heap_current [OF table(8)] by (intro that [of p u t']) simp_all
  qed
qed

text \<open>A cleared frame that is not yet part of the space.\<close>

lemma making_zeroed:
  fixes t :: "'a sched_scheme"
  assumes mk: "making lo s A P d X t" and av: "avail_frames t \<noteq> {}"
  obtains p t' where "alloc_page_table t = Some (p, t')" "making lo s A P d (insert p X) t'" "pg p = p" "p \<in> avail_frames t" "p \<notin> X"
    "avail_frames t' = avail_frames t - {p}" "heap_current t' = heap_current t" "\<forall>l < 1024. entry (pmem t' p) l = 0"
    "\<And>g. g \<noteq> p \<Longrightarrow> pmem t' g = pmem t g"
    "\<And>k. pde_at (pmem t') d k = pde_at (pmem t) d k" "\<And>k j. user k \<Longrightarrow> pte_at (pmem t') d k j = pte_at (pmem t) d k j"
    "pages (pmem t') d = pages (pmem t) d"
proof -
  from mk obtain s0 where s0: "stage lo s A P s0" "building d X s0 t" by (auto simp: making_def)
  note at = building_avail [OF s0(2)] and hc = building_heap_current [OF s0(2)] and D = building_dir [OF s0(2)]
  have T: "taken (owned (pmem t) d \<union> X) s0 t" and ok: "space_ok (pmem t) d" and X: "owned (pmem t) d \<inter> X = {}"
    using s0(2) by (simp_all add: building_def)
  from T show thesis
  proof (cases rule: taken_zeroed)
    case none
    then show thesis using at av by simp
  next
    case (frame p t')
    have po: "p \<notin> owned (pmem t) d" "p \<notin> X" using frame(4) by auto
    have mu: "pmem t' (pg d) = pmem t (pg d)" "\<forall>g \<in> tables (pmem t) d. pmem t' g = pmem t g"
      using po(1) frame(7) D by (auto simp: owned_def)
    note c = space_cong [of "pmem t'" d "pmem t", OF mu]
    have pc: "pages (pmem t') d = pages (pmem t) d" by (rule space_same) (use c in simp_all)
    have B: "building d (insert p X) s0 t'" using frame(6) ok X po c(3,4) by (simp add: building_def)
    have "avail_frames t' = avail_frames t - {p}" using building_avail [OF B] at c(3) by auto
    moreover have "p \<in> avail_frames t" using at frame(5) po by simp
    moreover have "alloc_page_table t = Some (p, t')" by (rule alloc_page_table_eq [OF T frame(1,2)])
    moreover have "making lo s A P d (insert p X) t'" using s0(1) B by (auto simp: making_def)
    ultimately show thesis
      using frame(3,7) po(2) c(1,2) pc hc building_heap_current [OF B] by (intro that [of p t']) (simp_all add: entry_zero_page)
  qed
qed

lemma making_page:
  fixes t :: "'a sched_scheme"
  assumes mk: "making lo s A P d X t" and i: "i \<in> dir_slots (pmem t) d" "j < 1024" "\<not> present (pte_at (pmem t) d i j)" and f: "f \<in> X"
  obtains t' where "frame_write32 (pg (pde_at (pmem t) d i)) (of_nat j) (f OR 7) t = Some t'" "making lo s A P d (X - {f}) t'"
    "avail_frames t' = avail_frames t" "heap_current t' = heap_current t"
    "\<And>k. pde_at (pmem t') d k = pde_at (pmem t) d k"
    "\<And>k l. user k \<Longrightarrow> l < 1024 \<Longrightarrow> pte_at (pmem t') d k l = (if k = i \<and> l = j then f OR 7 else pte_at (pmem t) d k l)"
    "pages (pmem t') d = insert f (pages (pmem t) d)" "\<And>g. g \<noteq> pg (pde_at (pmem t) d i) \<Longrightarrow> pmem t' g = pmem t g"
proof -
  from mk obtain s0 where s0: "stage lo s A P s0" "building d X s0 t" by (auto simp: making_def)
  have fl: "present (7 :: u32)" "pg (7 :: u32) = 0" by (simp_all add: present_def)
  from s0(2) i f fl show thesis
  proof (cases rule: building_page)
    case (1 t')
    have "avail_frames t' = avail_frames t" using building_avail [OF 1(2)] building_avail [OF s0(2)] 1(5) f by auto
    then show thesis
      using 1 s0 building_heap_current [OF 1(2)] building_heap_current [OF s0(2)] by (intro that [of t']) (auto simp: making_def)
  qed
qed

lemma making_fill:
  fixes t :: "'a sched_scheme"
  assumes mk: "making lo s A P d X t" and f: "f \<in> pages (pmem t) d"
  shows "making lo s A P d X (set_page f p t)"
    "pde_at (pmem (set_page f p t)) d i = pde_at (pmem t) d i" "user i \<Longrightarrow> pte_at (pmem (set_page f p t)) d i j = pte_at (pmem t) d i j"
    "owned (pmem (set_page f p t)) d = owned (pmem t) d"
proof -
  from mk obtain s0 where s0: "stage lo s A P s0" "building d X s0 t" by (auto simp: making_def)
  note b = building_fill [OF s0(2) disjI2, OF f]
  show "making lo s A P d X (set_page f p t)" using s0(1) b(1) by (auto simp: making_def)
  show "pde_at (pmem (set_page f p t)) d i = pde_at (pmem t) d i" "user i \<Longrightarrow> pte_at (pmem (set_page f p t)) d i j = pte_at (pmem t) d i j"
    "owned (pmem (set_page f p t)) d = owned (pmem t) d" using b(2-4) by simp_all
qed

lemma making_link:
  fixes t :: "'a sched_scheme"
  assumes mk: "making lo s A P d X t" and i: "user i" "\<not> present (pde_at (pmem t) d i)"
    and p: "p \<in> X" "\<forall>l < 1024. entry (pmem t p) l = 0" and f: "f \<in> X" "f \<noteq> p" and j: "j < 1024"
    and t': "t' = set_page d (put32 (pmem t d) (4 * of_nat i) (p OR 7)) (set_page p (put32 (pmem t p) (4 * of_nat j) (f OR 7)) t)"
  shows "making lo s A P d (X - {p, f}) t'" "\<And>k. k < 1024 \<Longrightarrow> pde_at (pmem t') d k = (if k = i then p OR 7 else pde_at (pmem t) d k)"
    "\<And>k l. user k \<Longrightarrow> l < 1024 \<Longrightarrow> pte_at (pmem t') d k l = (if k = i \<and> l = j then f OR 7 else pte_at (pmem t) d k l)"
    "owned (pmem t') d = owned (pmem t) d \<union> {p, f}" "pages (pmem t') d = insert f (pages (pmem t) d)"
proof -
  from mk obtain s0 where s0: "stage lo s A P s0" "building d X s0 t" by (auto simp: making_def)
  note b = building_link [OF s0(2) i p f j t']
  show "making lo s A P d (X - {p, f}) t'" using s0(1) b(1) by (auto simp: making_def)
  show "\<And>k. k < 1024 \<Longrightarrow> pde_at (pmem t') d k = (if k = i then p OR 7 else pde_at (pmem t) d k)"
    "\<And>k l. user k \<Longrightarrow> l < 1024 \<Longrightarrow> pte_at (pmem t') d k l = (if k = i \<and> l = j then f OR 7 else pte_at (pmem t) d k l)"
    "owned (pmem t') d = owned (pmem t) d \<union> {p, f}" "pages (pmem t') d = insert f (pages (pmem t) d)" using b by simp_all
qed

lemma two_writes:
  assumes "window_closed s" and "i < 1024" "j < 1024"
  shows "do { s \<leftarrow> paging_temp_map f s; s \<leftarrow> win_write32 i a s; s \<leftarrow> win_write32 j b s; paging_temp_unmap s } =
    do { s \<leftarrow> frame_write32 f i a s; frame_write32 f j b s }"
  using assms by (simp add: frame_access open_window win_ops set_page_def)

lemma frame_write32_bind:
  "paging_temp_map f s \<bind> (\<lambda>s. win_write32 i w s \<bind> (\<lambda>s. paging_temp_unmap s \<bind> k)) = frame_write32 f i w s \<bind> k"
  by (simp add: frame_write32_def)

lemma card_avail_Diff: "f \<in> avail_frames t \<Longrightarrow> Suc (card (avail_frames t - {f})) = card (avail_frames t)"
  by (rule card_Suc_Diff1) (simp_all add: avail_frames_def free_frames_def)

lemma avail_Diff_nonempty: "f \<in> avail_frames t \<Longrightarrow> 2 \<le> card (avail_frames t) \<Longrightarrow> avail_frames t - {f} \<noteq> {}"
  using card_avail_Diff [of f t] by (metis Suc_n_not_le_n card.empty numeral_2_eq_2)

lemma making_alloc_page_frames:
  fixes t :: "'a sched_scheme"
  assumes mk: "making lo s A P d {} t" and sl: "0 \<in> dir_slots (pmem t) d" and p: "p = pg (pde_at (pmem t) d 0)"
    and ab: "\<not> present (pte_at (pmem t) d 0 0)" "\<not> present (pte_at (pmem t) d 0 1)" and av: "2 \<le> card (avail_frames t)"
  obtains f0 f1 t' where "alloc_page_frames p t = Some t'" "making lo s A P d {} t'"
    "f0 \<in> avail_frames t" "f1 \<in> avail_frames t" "f0 \<noteq> f1" "pg f0 = f0" "pg f1 = f1"
    "avail_frames t' = avail_frames t - {f0, f1}" "heap_current t' = heap_current t"
    "\<And>k. pde_at (pmem t') d k = pde_at (pmem t) d k"
    "\<And>k l. user k \<Longrightarrow> l < 1024 \<Longrightarrow> pte_at (pmem t') d k l =
       (if k = 0 \<and> l = 0 then f0 OR 7 else if k = 0 \<and> l = 1 then f1 OR 7 else pte_at (pmem t) d k l)"
    "pages (pmem t') d = insert f0 (insert f1 (pages (pmem t) d))" "\<And>g. g \<noteq> p \<Longrightarrow> pmem t' g = pmem t g"
proof -
  have ne: "avail_frames t \<noteq> {}" using av by auto
  obtain f0 t1 where 1: "pfa_alloc t = Some (f0, t1)" "making lo s A P d {f0} t1" "pmem t1 = pmem t" "heap_current t1 = heap_current t"
    "pg f0 = f0" "f0 \<in> avail_frames t" "avail_frames t1 = avail_frames t - {f0}" by (rule making_frame [OF mk ne]) blast
  have ne1: "avail_frames t1 \<noteq> {}" using avail_Diff_nonempty [OF 1(6) av] 1(7) by simp
  obtain f1 t2 where 2: "pfa_alloc t1 = Some (f1, t2)" "making lo s A P d {f1, f0} t2" "pmem t2 = pmem t" "heap_current t2 = heap_current t"
    "pg f1 = f1" "f1 \<in> avail_frames t" "f1 \<noteq> f0" "avail_frames t2 = avail_frames t - {f0, f1}"
    by (rule making_frame [OF 1(2) ne1]) (use 1(3,4,7) in \<open>simp add: Diff_insert2 [symmetric]\<close>)
  define v where "v = serial_write_hex f1 (serial_line ''[process] alloc_page_frames: frame_1='' (serial_write_hex f0
     (serial_line ''[process] alloc_page_frames: frame_0='' t2)))"
  have v: "making lo s A P d {f1, f0} v" "pmem v = pmem t" "heap_current v = heap_current t" "avail_frames v = avail_frames t - {f0, f1}"
    using 2 by (simp_all add: v_def making_serial)
  have s1: "0 \<in> dir_slots (pmem v) d" "\<not> present (pte_at (pmem v) d 0 0)" "p = pg (pde_at (pmem v) d 0)" using sl ab p v(2) by simp_all
  obtain w where w: "frame_write32 p 0 (f0 OR 7) v = Some w" "making lo s A P d {f1} w" "avail_frames w = avail_frames v"
    "heap_current w = heap_current v" "\<And>k. pde_at (pmem w) d k = pde_at (pmem t) d k"
    "\<And>k l. user k \<Longrightarrow> l < 1024 \<Longrightarrow> pte_at (pmem w) d k l = (if k = 0 \<and> l = 0 then f0 OR 7 else pte_at (pmem t) d k l)"
    "pages (pmem w) d = insert f0 (pages (pmem t) d)" "\<And>g. g \<noteq> p \<Longrightarrow> pmem w g = pmem t g"
    by (rule making_page [OF v(1) s1(1) _ s1(2), of f0]) (use 2(7) v(2) s1(3) insert_Diff_if [of f1 "{f0}" "{f0}"] in auto)
  have s2: "0 \<in> dir_slots (pmem w) d" "\<not> present (pte_at (pmem w) d 0 1)" "p = pg (pde_at (pmem w) d 0)"
    using sl ab p w(5,6) by (simp_all add: dir_slots_def)
  obtain x where x: "frame_write32 p 1 (f1 OR 7) w = Some x" "making lo s A P d {} x" "avail_frames x = avail_frames v"
    "heap_current x = heap_current v" "\<And>k. pde_at (pmem x) d k = pde_at (pmem t) d k"
    "\<And>k l. user k \<Longrightarrow> l < 1024 \<Longrightarrow> pte_at (pmem x) d k l = (if k = 0 \<and> l = 1 then f1 OR 7 else pte_at (pmem w) d k l)"
    "pages (pmem x) d = insert f1 (pages (pmem w) d)" "\<And>g. g \<noteq> p \<Longrightarrow> pmem x g = pmem w g"
    by (rule making_page [OF w(2) s2(1) _ s2(2), of f1]) (use w s2(3) in auto)
  have "alloc_page_frames p t = Some x"
    using 1(1) 2(1) two_writes [OF makingD(2) [OF v(1)], of 0 1 p "f0 OR 7" "f1 OR 7"] w(1) x(1)
    unfolding alloc_page_frames_def Let_def by (simp add: v_def)
  then show thesis
    using 1(5,6) 2(5-7) v(3,4) w x by (intro that [of x f0 f1]) auto
qed

lemma making_alloc_stack:
  fixes t :: "'a sched_scheme"
  assumes mk: "making lo s A P d {} t" and ab: "\<not> present (pde_at (pmem t) d 767)" and av: "2 \<le> card (avail_frames t)"
  obtains p f t' where "alloc_stack d t = Some t'" "making lo s A P d {} t'" "p \<in> avail_frames t" "f \<in> avail_frames t" "p \<noteq> f" "pg f = f"
    "avail_frames t' = avail_frames t - {p, f}" "heap_current t' = heap_current t"
    "\<And>k. k < 1024 \<Longrightarrow> pde_at (pmem t') d k = (if k = 767 then p OR 7 else pde_at (pmem t) d k)"
    "\<And>k l. user k \<Longrightarrow> l < 1024 \<Longrightarrow> pte_at (pmem t') d k l = (if k = 767 \<and> l = 1023 then f OR 7 else pte_at (pmem t) d k l)"
    "\<And>g. g \<noteq> p \<Longrightarrow> g \<noteq> d \<Longrightarrow> pmem t' g = pmem t g"
proof -
  define t0 where "t0 = serial_write_hex 1023 (serial_line ''[process] alloc_stack: pt_index='' (serial_write_hex 767
    (serial_line ''[process] alloc_stack: pd_index='' t)))"
  have t0: "making lo s A P d {} t0" "pmem t0 = pmem t" "heap_current t0 = heap_current t" "avail_frames t0 = avail_frames t"
    using mk by (simp_all add: t0_def making_serial)
  have ne: "avail_frames t0 \<noteq> {}" using av t0(4) by auto
  obtain p t1 where 1: "alloc_page_table t0 = Some (p, t1)" "making lo s A P d {p} t1" "pg p = p" "p \<in> avail_frames t"
    "avail_frames t1 = avail_frames t - {p}" "heap_current t1 = heap_current t" "\<forall>l < 1024. entry (pmem t1 p) l = 0"
    "\<And>g. g \<noteq> p \<Longrightarrow> pmem t1 g = pmem t g" "\<And>k. pde_at (pmem t1) d k = pde_at (pmem t) d k"
    "\<And>k j. user k \<Longrightarrow> pte_at (pmem t1) d k j = pte_at (pmem t) d k j"
    by (rule making_zeroed [OF t0(1) ne]) (use t0(2-4) in simp)
  have ne1: "avail_frames t1 \<noteq> {}" using avail_Diff_nonempty [OF 1(4) av] 1(5) by simp
  obtain f t2 where 2: "pfa_alloc t1 = Some (f, t2)" "making lo s A P d {f, p} t2" "pmem t2 = pmem t1" "heap_current t2 = heap_current t"
    "pg f = f" "f \<in> avail_frames t1" "f \<noteq> p" "avail_frames t2 = avail_frames t1 - {f}"
    by (rule making_frame [OF 1(2) ne1]) (use 1(6) in simp)
  note D = makingD [OF 2(2)]
  define v where "v = set_page p (put32 (pmem t2 p) (4 * 1023) (f OR 7)) t2"
  define l where "l = serial_log (serial_write_hex f (serial_line ''[process] alloc_stack: stack_frame='' v))"
  have lv: "serial_write_hex f (serial_line ''[process] alloc_stack: stack_frame='' v) = v\<lparr>serial_log := l\<rparr>"
    by (simp add: l_def serial_line_def serial_write_hex_def)
  have w1: "frame_write32 p 1023 (f OR 7) t2 = Some v" using frame_access(2) [OF D(2), of 1023 p] 1(3) by (simp add: v_def)
  define t2' where "t2' = t2\<lparr>serial_log := l\<rparr>"
  have mk2: "making lo s A P d {f, p} t2'" unfolding t2'_def by (rule making_log [OF 2(2)])
  define x where "x = set_page d (put32 (pmem t2' d) (4 * of_nat 767) (p OR 7)) (set_page p (put32 (pmem t2' p) (4 * of_nat 1023) (f OR 7)) t2')"
  have pd: "p \<noteq> d" using D(11,10) by auto
  have wv: "window_closed (v\<lparr>serial_log := l\<rparr>)" using D(2) by (simp add: v_def window_closed_def set_page_def)
  have w2: "frame_write32 d 767 (p OR 7) (v\<lparr>serial_log := l\<rparr>) = Some x"
    using frame_access(2) [OF wv, of 767 d] D(5) pd by (simp add: v_def x_def t2'_def set_page_def)
  have ab2: "\<not> present (pde_at (pmem t2') d 767)" "\<forall>l < 1024. entry (pmem t2' p) l = 0" using ab 1(7,9) 2(3) by (simp_all add: t2'_def)
  have i: "user 767" "(1023 :: nat) < 1024" "p \<in> {f, p}" "f \<in> {f, p}" "{f, p} - {p, f} = {}" by auto
  note k = making_link [OF mk2 i(1) ab2(1) i(3) ab2(2) i(4) 2(7) i(2) x_def, unfolded i(5)]
  have ix: "drop_bit 22 (0xBFFFF000 :: u32) = 767" "drop_bit 12 (0xBFFFF000 :: u32) AND 0x3FF = 1023" "f OR 1 OR 2 OR 4 = f OR 7"
    "p OR 1 OR 2 OR 4 = p OR 7" by simp_all
  have "alloc_stack d t = Some (serial_line ''[process] alloc_stack: concluido'' x)"
    unfolding alloc_stack_def Let_def frame_write32_bind ix t0_def [symmetric] 1(1) 2(1)
    by (simp add: 2(1) w1 lv w2 or.assoc)
  then show thesis
  proof (rule that [where p = p and f = f])
    show "making lo s A P d {} (serial_line ''[process] alloc_stack: concluido'' x)" using k(1) by (simp add: making_serial insert_commute)
    show "p \<in> avail_frames t" "f \<in> avail_frames t" "p \<noteq> f" "pg f = f" using 1(4,5) 2(5-7) by auto
    show "avail_frames (serial_line ''[process] alloc_stack: concluido'' x) = avail_frames t - {p, f}" using 1(5) 2(8) by (auto simp: x_def t2'_def)
    show "heap_current (serial_line ''[process] alloc_stack: concluido'' x) = heap_current t" using 2(4) by (simp add: x_def t2'_def set_page_def)
    show "pde_at (pmem (serial_line ''[process] alloc_stack: concluido'' x)) d n = (if n = 767 then p OR 7 else pde_at (pmem t) d n)"
      if "n < 1024" for n using k(2) [OF that] 1(9) 2(3) by (simp add: t2'_def)
    show "pte_at (pmem (serial_line ''[process] alloc_stack: concluido'' x)) d n m = (if n = 767 \<and> m = 1023 then f OR 7 else pte_at (pmem t) d n m)"
      if "user n" "m < 1024" for n m using k(3) [of n m] that 1(10) [of n m] 2(3) by (simp add: t2'_def)
    show "pmem (serial_line ''[process] alloc_stack: concluido'' x) g = pmem t g" if "g \<noteq> p" "g \<noteq> d" for g
      using that 1(8) [of g] 2(3) by (simp add: x_def t2'_def)
  qed
qed

end
