(* ===== verification/Process_Create.thy ===== *)
theory Process_Create
  imports Space_Build
begin

text \<open>
  What process creation does on the whole kernel: \<open>create_pcb\<close> and \<open>create_pcb_grub_modules\<close>
  (\<open>process/process.c\<close>).
\<close>

definition fresh_pcb :: "u32 \<Rightarrow> u32 \<Rightarrow> u32 \<Rightarrow> PCB" where
  "fresh_pcb i d k = new_pcb\<lparr>pid := i, pdt := d, eflags := 0x200, cs := 0x1B, ss := 0x23, predicted_burst := 1,
     kernel_stack_base := k + 8, kernel_esp0 := k + 8 + 4096 - 4\<rparr>"

text \<open>The end of \<open>create_pcb\<close>, from the kernel stack on, and its middle part, from the directory on.\<close>

definition pcb_stack :: "u32 \<Rightarrow> u32 \<Rightarrow> 'a sched_scheme \<Rightarrow> (u32 \<times> 'a sched_scheme) option" where
  "pcb_stack p d s = do {
     (r, s) \<leftarrow> alloc_kernel_stack p s;
     if r < 0 then do {
       s \<leftarrow> pfa_free d s;
       s \<leftarrow> kfree_pcb p s;
       Some (0, s) }
     else Some (p, serial_line ''[process] create_pcb: concluido'' s) }"

definition pcb_directory :: "u32 \<Rightarrow> 'a sched_scheme \<Rightarrow> (u32 \<times> 'a sched_scheme) option" where
  "pcb_directory p s = do {
     (d, s) \<leftarrow> alloc_page_table s;
     if d = 0 then do { s \<leftarrow> kfree_pcb p s; Some (0, s) }
     else do {
       s \<leftarrow> pcb_update p (\<lambda>c. c\<lparr>pdt := d\<rparr>) s;
       let s = serial_write_hex d (serial_line ''[process] PDT alocada em:'' s);
       s \<leftarrow> paging_temp_map d s;
       kpde \<leftarrow> arr_get (page_directory s) KERNEL_PD_INDEX;
       s \<leftarrow> win_write32 KERNEL_PD_INDEX kpde s;
       s \<leftarrow> paging_temp_unmap s;
       let s = serial_line ''[process] PDE do kernel copiada (index 768)'' s;
       s \<leftarrow> pcb_update p (\<lambda>c. c\<lparr>eip := 0, esp := 0, eflags := 0x200, cs := USER_CODE_SEGMENT_SELECTOR,
              ss := USER_DATA_SEGMENT_SELECTOR, kernel_stack_base := 0, kernel_esp0 := 0, state := PROCESS_STATE_READY,
              burst_time := 0, predicted_burst := 1, last_dispatch_tick := 0, pcb_context := pcb_context new_pcb\<rparr>) s;
       pcb_stack p d s } }"

lemma create_pcb_split:
  "create_pcb s = do {
     (p, s) \<leftarrow> kmalloc_pcb (serial_line ''[process] create_pcb: inicio'' s);
     if p = 0 then Some (0, s)
     else do {
       let s = serial_write_hex p (serial_line ''[process] PCB alocado em:'' s);
       let (i, s) = scheduler_allocate_pid s;
       s \<leftarrow> pcb_update p (\<lambda>c. c\<lparr>pid := i, ppid := 0\<rparr>) s;
       pcb_directory p s } }"
  unfolding create_pcb_def pcb_directory_def pcb_stack_def Let_def ..

lemma pcb_stack_cases:
  fixes t :: "'a sched_scheme"
  assumes mk: "making lo s (insert q A) (P(q + 8 \<mapsto> c)) d {} t" and ow: "owned (pmem t) d = {d}" and p: "pfa_ok s"
    and q: "q \<notin> A" "q + 8 \<noteq> 0" "P (q + 8) = None"
  obtains (none) t' where "pcb_stack (q + 8) d t = Some (0, t')" "stage lo s A P t'" "no_room 8192 t"
  | (gets) k t' where "pcb_stack (q + 8) d t = Some (q + 8, t')" "k \<notin> insert q A" "pmem t' = pmem t" "uses 8192 t t'"
      "making lo s (insert k (insert q A)) (P(q + 8 \<mapsto> c\<lparr>kernel_stack_base := k + 8, kernel_esp0 := k + 8 + 4096 - 4\<rparr>)) d {} t'"
proof -
  note D = makingD [OF mk]
  have c: "(P(q + 8 \<mapsto> c)) (q + 8) = Some c" by simp
  show thesis
  proof (rule stage_kernel_stack [OF D(1) q(2) c])
    fix t1 assume t1: "alloc_process_kernel_stack (q + 8) t = Some (-1, t1)" "stage lo s (insert q A) (P(q + 8 \<mapsto> c)) t1" "no_room 8192 t"
    obtain bm where b: "pfa_free d t1 = Some (t1\<lparr>bitmap := bm\<rparr>)" "stage lo s (insert q A) (P(q + 8 \<mapsto> c)) (t1\<lparr>bitmap := bm\<rparr>)"
      using stage_pfa_free [OF t1(2) D(6) p] by blast
    obtain t2 where t2: "kfree_pcb (q + 8) (t1\<lparr>bitmap := bm\<rparr>) = Some t2"
      "stage lo s (insert q A - {q}) ((P(q + 8 \<mapsto> c))(q + 8 := None)) t2" using stage_kfree_pcb [OF b(2), of q] by blast
    have "insert q A - {q} = A" "(P(q + 8 \<mapsto> c))(q + 8 := None) = P" using q by auto
    then show thesis using t1(1,3) b(1) t2 by (intro none [of t2]) (simp_all add: pcb_stack_def alloc_kernel_stack_eq)
  next
    let ?c = "\<lambda>k. c\<lparr>kernel_stack_base := k + 8, kernel_esp0 := k + 8 + 4096 - 4\<rparr>"
    fix k t1 assume t1: "alloc_process_kernel_stack (q + 8) t = Some (0, t1)" "k \<notin> insert q A"
      "stage lo s (insert k (insert q A)) (P(q + 8 \<mapsto> c, q + 8 \<mapsto> ?c k)) t1"
      "pmem t1 = pmem t" "avail_frames t1 \<subseteq> avail_frames t" "uses 8192 t t1"
    have d: "d \<notin> avail_frames t1" using D(9,10) t1(5) by auto
    have "making lo s (insert k (insert q A)) (P(q + 8 \<mapsto> ?c k)) d {} t1"
      by (rule making_start [OF _ p D(6) d]) (use t1 D(3) ow in simp_all)
    moreover have "pcb_stack (q + 8) d t = Some (q + 8, serial_line ''[process] create_pcb: concluido'' t1)"
      using t1(1) by (simp add: pcb_stack_def alloc_kernel_stack_eq)
    ultimately show thesis using t1(2,4,6) by (intro gets [where k = k and t' = "serial_line ''[process] create_pcb: concluido'' t1"]) (simp_all add: making_serial uses_def)
  qed
qed

lemma pcb_directory_cases:
  fixes t :: "'a sched_scheme"
  assumes st: "stage lo s (insert q A) (P(q + 8 \<mapsto> new_pcb\<lparr>pid := i, ppid := 0\<rparr>)) t" and p: "pfa_ok s"
    and q: "q \<notin> A" "q + 8 \<noteq> 0" "P (q + 8) = None" and av: "3 \<le> card (avail_frames t)"
  obtains (none) t' where "pcb_directory (q + 8) t = Some (0, t')" "stage lo s A P t'" "0xC03FF000 < unat (heap_current t) + 8192"
  | (gets) d k t' where "pcb_directory (q + 8) t = Some (q + 8, t')" "k \<notin> insert q A"
      "making lo s (insert k (insert q A)) (P(q + 8 \<mapsto> fresh_pcb i d k)) d {} t'" "owned (pmem t') d = {d}"
      "\<And>i. i < 1024 \<Longrightarrow> pde_at (pmem t') d i = (if i = 768 then page_directory s ! 768 else 0)"
      "\<And>g. g \<noteq> d \<Longrightarrow> pmem t' g = pmem t g"
      "card (avail_frames t) \<le> card (avail_frames t') + 3" "unat (heap_current t') \<le> unat (heap_current t) + 8192"
proof -
  note fails = that(1) and gets = that(2)
  have m: "pfa_ok t" "window_closed t" "length (page_directory t) = 1024" "page_directory t = page_directory s"
    using st by (auto simp: stage_def mem_ok_def quiet_def)
  have ne: "avail_frames t \<noteq> {}" using av by auto
  obtain d t1 where z: "alloc_zeroed_frame t = Some (d, t1)" "d \<noteq> 0" "pg d = d" "d \<in> avail_frames t" "taken {d} t t1"
    "pmem t1 = (pmem t)(d := zero_page (pmem t d))"
    using taken_refl [OF m(1,2)] by (rule taken_zeroed) (use ne in auto)
  have a: "alloc_page_table t = Some (d, t1)" by (rule alloc_page_table_eq [OF taken_refl [OF m(1,2)] z(1,2)])
  let ?P1 = "P(q + 8 \<mapsto> new_pcb\<lparr>pid := i, ppid := 0, pdt := d\<rparr>)"
  let ?c = "new_pcb\<lparr>pid := i, ppid := 0, pdt := d, eflags := 0x200, cs := 0x1B, ss := 0x23, predicted_burst := 1\<rparr>"
  have P1: "pcbs t1 = P(q + 8 \<mapsto> new_pcb\<lparr>pid := i, ppid := 0\<rparr>)" using stage_taken [OF st z(5)] by (simp add: stage_def)
  define u where "u = serial_write_hex d (serial_line ''[process] PDT alocada em:'' (t1\<lparr>pcbs := ?P1\<rparr>))"
  define l where "l = serial_log u"
  have u: "u = t1\<lparr>pcbs := ?P1, serial_log := l\<rparr>" by (simp add: u_def l_def serial_line_def serial_write_hex_def)
  let ?t = "t\<lparr>pcbs := ?P1, serial_log := l\<rparr>"
  have Tu: "taken {d} ?t u" unfolding u by (intro taken_log taken_pcbs z(5))
  define v where "v = set_page d (put32 (pmem u d) (4 * 768) (page_directory s ! 768)) u"
  have zu: "entry (pmem u d) n = 0" if "n < 1024" for n using that z(6) by (simp add: u entry_zero_page)
  note b = building_directory [OF Tu zu v_def]
  have "stage lo s (insert q A) ?P1 ?t" by (intro stage_log stage_pcbs [OF st])
  with b(1) have mv: "making lo s (insert q A) ?P1 d {} v" by (auto simp: making_def)
  have wu: "window_closed u" and pu: "page_directory u = page_directory s" using taken_simps(2,4) [OF Tu] m(4) by simp_all
  have wr: "do { s \<leftarrow> paging_temp_map d u; kpde \<leftarrow> arr_get (page_directory s) 768; s \<leftarrow> win_write32 768 kpde s; s \<leftarrow> paging_temp_unmap s; f s } = f v"
    for f :: "'a sched_scheme \<Rightarrow> (u32 \<times> 'a sched_scheme) option"
    using wu pu m(3,4) z(3) by (simp add: open_window win_ops v_def set_page_def)
  define w where "w = (serial_line ''[process] PDE do kernel copiada (index 768)'' v)\<lparr>pcbs := P(q + 8 \<mapsto> ?c)\<rparr>"
  have mw: "making lo s (insert q A) (P(q + 8 \<mapsto> ?c)) d {} w" unfolding w_def by (rule making_pcbs [OF making_serial(1) [OF mv]])
  have "heap_current t1 = heap_current t" using z(5) by (auto simp: taken_def)
  then have pw: "pmem w = pmem v" "heap_current w = heap_current t" "avail_frames w = avail_frames t - {d}"
    using taken_simps(7) [OF z(5)] avail_fields(1) [of w t1] by (simp_all add: w_def v_def u set_page_def serial_line_def)
  have pv: "pcbs v = ?P1" by (simp add: v_def u set_page_def)
  have up: "pcb_update (q + 8) (\<lambda>c. c\<lparr>pdt := d\<rparr>) t1 = Some (t1\<lparr>pcbs := ?P1\<rparr>)" using P1 by (simp add: pcb_update_def)
  have run: "pcb_directory (q + 8) t = pcb_stack (q + 8) d w"
    unfolding pcb_directory_def a using z(2) up pv
    by (simp add: u_def [symmetric] wr) (simp add: pcb_update_def w_def new_pcb_def)
  show thesis
  proof (rule pcb_stack_cases [OF mw _ p q])
    show "owned (pmem w) d = {d}" using b(2) pw(1) by simp
  next
    fix t' assume "pcb_stack (q + 8) d w = Some (0, t')" "stage lo s A P t'" "no_room 8192 w"
    then show thesis using run pw(2,3) av card_avail_Diff [OF z(4)] by (intro fails [of t']) (auto simp: no_room_def)
  next
    fix k t' assume k: "pcb_stack (q + 8) d w = Some (q + 8, t')" "k \<notin> insert q A" "pmem t' = pmem w" "uses 8192 w t'"
      "making lo s (insert k (insert q A)) (P(q + 8 \<mapsto> ?c\<lparr>kernel_stack_base := k + 8, kernel_esp0 := k + 8 + 4096 - 4\<rparr>)) d {} t'"
    have "?c\<lparr>kernel_stack_base := k + 8, kernel_esp0 := k + 8 + 4096 - 4\<rparr> = fresh_pcb i d k" by (simp add: fresh_pcb_def new_pcb_def)
    moreover have "pmem t' g = pmem t g" if "g \<noteq> d" for g using that k(3) pw(1) z(6) by (simp add: v_def u)
    ultimately show thesis
      using k b(2,3) pw card_avail_Diff [OF z(4)] run by (intro gets [where k = k and d = d and t' = t']) (simp_all add: uses_def)
  qed
qed

lemma create_pcb_cases:
  fixes t :: "'a sched_scheme"
  assumes st: "stage lo s A P t" and p: "pfa_ok s" and P: "dom P \<subseteq> (\<lambda>a. a + 8) ` A" and av: "4 \<le> card (avail_frames t)"
  obtains (none) t' where "create_pcb t = Some (0, t')" "stage lo s A P t'" "0xC03FF000 < unat (heap_current t) + 12288"
  | (gets) q d k t' where "create_pcb t = Some (q + 8, t')" "q + 8 \<noteq> 0" "P (q + 8) = None"
      "making lo s (insert k (insert q A)) (P(q + 8 \<mapsto> fresh_pcb (next_pid t) d k)) d {} t'" "owned (pmem t') d = {d}"
      "\<And>i. i < 1024 \<Longrightarrow> pde_at (pmem t') d i = (if i = 768 then page_directory s ! 768 else 0)"
      "\<And>g. g \<noteq> d \<Longrightarrow> pmem t' g = pmem t g"
      "card (avail_frames t) \<le> card (avail_frames t') + 4" "unat (heap_current t') \<le> unat (heap_current t) + 12288"
proof -
  note fails = that(1) and gets = that(2)
  have st0: "stage lo s A P (serial_line ''[process] create_pcb: inicio'' t)"
    using stage_log [OF st] by (simp add: serial_line_def)
  show thesis
  proof (rule stage_kmalloc_pcb [OF st0])
    fix t' assume "kmalloc_pcb (serial_line ''[process] create_pcb: inicio'' t) = Some (0, t')" "stage lo s A P t'"
      "no_room 4096 (serial_line ''[process] create_pcb: inicio'' t)"
    then show thesis using av by (intro fails [of t']) (auto simp: create_pcb_split no_room_def)
  next
    fix q t1 assume q: "kmalloc_pcb (serial_line ''[process] create_pcb: inicio'' t) = Some (q + 8, t1)" "q \<notin> A" "q + 8 \<noteq> 0"
      "stage lo s (insert q A) (P(q + 8 \<mapsto> new_pcb)) t1" "pmem t1 = pmem (serial_line ''[process] create_pcb: inicio'' t)"
      "next_pid t1 = next_pid (serial_line ''[process] create_pcb: inicio'' t)"
      "uses 4096 (serial_line ''[process] create_pcb: inicio'' t) t1"
    let ?i = "next_pid t"
    have Pq: "P (q + 8) = None" using P q(2) by (auto simp: domIff)
    define t2 where "t2 = serial_write_hex (q + 8) (serial_line ''[process] PCB alocado em:'' t1)"
    have st2: "stage lo s (insert q A) (P(q + 8 \<mapsto> new_pcb)) t2"
      unfolding t2_def serial_write_hex_def serial_line_def by (intro stage_log q(4))
    define t3 where "t3 = t2\<lparr>next_pid := (if next_pid t2 + 1 = 0 then 1 else next_pid t2 + 1)\<rparr>"
    have st3: "stage lo s (insert q A) (P(q + 8 \<mapsto> new_pcb)) t3" unfolding t3_def by (rule stage_pid [OF st2])
    have pid: "scheduler_allocate_pid t2 = (?i, t3)" using q(6) by (simp add: scheduler_allocate_pid_def t3_def t2_def)
    define t4 where "t4 = t3\<lparr>pcbs := P(q + 8 \<mapsto> new_pcb\<lparr>pid := ?i, ppid := 0\<rparr>)\<rparr>"
    have up: "pcb_update (q + 8) (\<lambda>c. c\<lparr>pid := ?i, ppid := 0\<rparr>) t3 = Some t4"
      "stage lo s (insert q A) (P(q + 8 \<mapsto> new_pcb\<lparr>pid := ?i, ppid := 0\<rparr>)) t4"
      using stage_pcb_update [OF st3, of "q + 8" new_pcb "\<lambda>c. c\<lparr>pid := ?i, ppid := 0\<rparr>"] by (simp_all add: t4_def)
    have run: "create_pcb t = pcb_directory (q + 8) t4" using q(1,3) pid up(1) by (simp add: create_pcb_split t2_def)
    have f4: "pmem t4 = pmem t" "heap_current t4 = heap_current t1" "avail_frames t4 = avail_frames t1"
      using q(5) avail_fields(1) [of t4 t1] by (simp_all add: t4_def t3_def t2_def serial_line_def serial_write_hex_def)
    have us: "card (avail_frames t) \<le> card (avail_frames t1) + 1" "unat (heap_current t1) \<le> unat (heap_current t) + 4096"
      using q(7) by (simp_all add: uses_def)
    show thesis
    proof (rule pcb_directory_cases [OF up(2) p q(2,3) Pq])
      show "3 \<le> card (avail_frames t4)" using us(1) av f4(3) by simp
    next
      fix t' assume "pcb_directory (q + 8) t4 = Some (0, t')" "stage lo s A P t'" "0xC03FF000 < unat (heap_current t4) + 8192"
      then show thesis using run us(2) f4(2) by (intro fails [of t']) simp_all
    next
      fix d k t' assume "pcb_directory (q + 8) t4 = Some (q + 8, t')"
        "making lo s (insert k (insert q A)) (P(q + 8 \<mapsto> fresh_pcb ?i d k)) d {} t'" "owned (pmem t') d = {d}"
        "\<And>i. i < 1024 \<Longrightarrow> pde_at (pmem t') d i = (if i = 768 then page_directory s ! 768 else 0)"
        "\<And>g. g \<noteq> d \<Longrightarrow> pmem t' g = pmem t4 g"
        "card (avail_frames t4) \<le> card (avail_frames t') + 3" "unat (heap_current t') \<le> unat (heap_current t4) + 8192"
      then show thesis using run us f4 q(3) Pq by (intro gets [where q = q and d = d and k = k and t' = t']) simp_all
    qed
  qed
qed

text \<open>The rest of \<open>create_pcb_grub_modules\<close>, when the control block exists.\<close>

definition load_module :: "u32 \<Rightarrow> u32 \<Rightarrow> u32 \<Rightarrow> u32 \<Rightarrow> 'a sched_scheme \<Rightarrow> (u32 \<times> 'a sched_scheme) option" where
  "load_module pcb pdt_phys mstart mend s = do {
     (pt_phys, s) \<leftarrow> alloc_page_table s;
     s \<leftarrow> paging_temp_map pdt_phys s;
     s \<leftarrow> win_write32 0 (pt_phys OR PTE_PRESENT OR PTE_WRITABLE OR PTE_USER) s;
     s \<leftarrow> paging_temp_unmap s;
     let s = serial_line ''[process] PT alocada para PDT[0]:'' s;
     let s = serial_write_hex pt_phys s;
     s \<leftarrow> alloc_page_frames pt_phys s;
     s \<leftarrow> paging_temp_map pt_phys s;
     w \<leftarrow> win_read32 0 s;
     let page_frame_1 = w AND 0xFFFFF000;
     s \<leftarrow> paging_temp_unmap s;
     s \<leftarrow> copy_module page_frame_1 mstart mend s;
     s \<leftarrow> alloc_stack pdt_phys s;
     s \<leftarrow> pcb_update pcb (\<lambda>c. c\<lparr>esp := 0xBFFFFFFB\<rparr>) s;
     Some (pcb, serial_line ''[process] create_pcb_grub_modules: concluido'' s) }"

lemma create_pcb_grub_modules_split:
  "create_pcb_grub_modules mstart mend s = do {
     (pcb, s) \<leftarrow> create_pcb (serial_line ''[process] create_pcb_grub_modules: inicio'' s);
     if pcb = 0 then Some (0, s)
     else do { c \<leftarrow> pcbs s pcb; load_module pcb (pdt c) mstart mend s } }"
  unfolding create_pcb_grub_modules_def load_module_def Let_def ..

text \<open>How much of a module is loaded.\<close>

definition loaded_size :: "u32 \<Rightarrow> u32 \<Rightarrow> u32" where
  "loaded_size mstart mend = (if mend - mstart > 4096 then 4096 else mend - mstart)"

text \<open>
  What user code finds in a new process: the module and zeros in the first page, the old contents of two
  frames in the second and in the stack page, and nothing else.
\<close>

definition first_image :: "(u32 \<Rightarrow> page) \<Rightarrow> u32 \<Rightarrow> u32 \<Rightarrow> u32 \<Rightarrow> u32 \<Rightarrow> u32 \<Rightarrow> u8 option" where
  "first_image m mstart n f1 f2 v =
     (if v < 0x1000 then Some (if v < n then phys_byte m (mstart + v) else 0)
      else if v < 0x2000 then Some (m f1 (v AND 0xFFF))
      else if 0xBFFFF000 \<le> v then Some (m f2 (v AND 0xFFF)) else None)"

lemma or_7: "pg f = f \<Longrightarrow> present (f OR 7)" "pg f = f \<Longrightarrow> pg (f OR 7) = f"
  using flags_or [of f 7] by (simp_all add: present_def)

lemma page_index_bounds:
  fixes n :: nat
  assumes "b < 1024"
  shows "(n div 4096 div 1024 = a \<and> n div 4096 mod 1024 = b) = (4096 * (1024 * a + b) \<le> n \<and> n < 4096 * (1024 * a + b) + 4096)"
proof -
  let ?k = "n div 4096" and ?c = "1024 * a + b"
  have "(?k div 1024 = a \<and> ?k mod 1024 = b) = (?k = ?c)" using assms by auto
  also have "\<dots> = (?c \<le> ?k \<and> ?k < Suc ?c)" by auto
  also have "\<dots> = (4096 * ?c \<le> n \<and> n < 4096 * ?c + 4096)"
    by (simp add: less_eq_div_iff_mult_less_eq div_less_iff_less_mult ac_simps)
  finally show ?thesis .
qed

lemma three_pages_read:
  assumes ok: "space_ok (pmem t) d" and v: "v < 0xC0000000" and f: "pg f0 = f0" "pg f1 = f1" "pg f2 = f2"
    and pte: "\<And>k l. user k \<Longrightarrow> l < 1024 \<Longrightarrow> pte_at (pmem t) d k l = (if k = 0 \<and> l = 0 then f0 OR 7 else if k = 0 \<and> l = 1 then f1 OR 7
      else if k = 767 \<and> l = 1023 then f2 OR 7 else 0)"
  shows "user_read8 v (t\<lparr>cr3 := d\<rparr>) = (if v < 0x1000 then Some (pmem t f0 (v AND 0xFFF)) else if v < 0x2000 then Some (pmem t f1 (v AND 0xFFF))
    else if 0xBFFFF000 \<le> v then Some (pmem t f2 (v AND 0xFFF)) else None)"
proof -
  let ?k = "unat v div 4096"
  have b: "unat v < 0xC0000000" using v by (simp add: word_less_nat_alt)
  then have k: "?k div 1024 < 768" by (simp add: less_mult_imp_div_less)
  then have u: "user (?k div 1024)" "?k mod 1024 < 1024" by auto
  have lt: "(v < 0x1000) = (unat v < 4096)" "(v < 0x2000) = (unat v < 8192)" "(0xBFFFF000 \<le> v) = (0xBFFFF000 \<le> unat v)"
    by (simp_all only: word_less_nat_alt word_le_nat_alt unat_numeral) simp_all
  have i: "(?k div 1024 = 0 \<and> ?k mod 1024 = 0) = (v < 0x1000)" "(?k div 1024 = 0 \<and> ?k mod 1024 = 1) = (\<not> v < 0x1000 \<and> v < 0x2000)"
    "(?k div 1024 = 767 \<and> ?k mod 1024 = 1023) = (0xBFFFF000 \<le> v)"
    unfolding lt page_index_bounds [of 0, simplified] page_index_bounds [of 1, simplified] page_index_bounds [of 1023, simplified] using b by auto
  have "pte_at (pmem t) d (pd_of v) (pt_of v) = (if v < 0x1000 then f0 OR 7 else if v < 0x2000 then f1 OR 7 else if 0xBFFFF000 \<le> v then f2 OR 7 else 0)"
    unfolding page_pte_vaddr page_pte_def pte [OF u] i by simp
  then show ?thesis unfolding user_read8_pte [OF ok v] Let_def using f by (simp add: or_7)
qed

lemma load_module_result:
  fixes t :: "'a sched_scheme"
  assumes mk: "making lo s A P d {} t" and c: "P p = Some c" and n: "n = loaded_size mstart mend"
    and pde: "\<And>i. i < 1024 \<Longrightarrow> pde_at (pmem t) d i = (if i = 768 then w else 0)"
    and low: "unat mstart + unat n \<le> 0x400000" and src: "\<And>v. v < n \<Longrightarrow> pg (mstart + v) \<notin> avail_frames s"
    and pd: "page_directory s ! 0 = 0x83" and av: "5 \<le> card (avail_frames t)"
  obtains f1 f2 t' where "load_module p d mstart mend t = Some (p, t')" "making lo s A (P(p \<mapsto> c\<lparr>esp := 0xBFFFFFFB\<rparr>)) d {} t'"
    "f1 \<in> avail_frames t" "f2 \<in> avail_frames t" "\<forall>v < 0xC0000000. user_read8 v (t'\<lparr>cr3 := d\<rparr>) = first_image (pmem t) mstart n f1 f2 v"
    "pde_at (pmem t') d 768 = w" "card (avail_frames t) = card (avail_frames t') + 5" "heap_current t' = heap_current t"
proof -
  note D = makingD [OF mk]
  have z: "\<not> present (pde_at (pmem t) d i)" if "user i" for i using pde [of i] that by simp
  have ne: "avail_frames t \<noteq> {}" using av by auto
  obtain p0 u t1 where 1: "alloc_page_table t = Some (p0, u)" "frame_write32 d 0 (p0 OR 7) u = Some t1" "making lo s A P d {} t1"
    "pg p0 = p0" "p0 \<in> avail_frames t" "avail_frames t1 = avail_frames t - {p0}" "heap_current t1 = heap_current t"
    "\<And>k. k < 1024 \<Longrightarrow> pde_at (pmem t1) d k = (if k = 0 then p0 OR 7 else pde_at (pmem t) d k)"
    "\<And>k j. user k \<Longrightarrow> j < 1024 \<Longrightarrow> pte_at (pmem t1) d k j = pte_at (pmem t) d k j"
    "\<And>g. g \<noteq> d \<Longrightarrow> g \<noteq> p0 \<Longrightarrow> pmem t1 g = pmem t g"
    by (rule making_table [OF mk _ z ne, of 0]) auto
  define t2 where "t2 = serial_write_hex p0 (serial_line ''[process] PT alocada para PDT[0]:'' t1)"
  have 2: "making lo s A P d {} t2" "pmem t2 = pmem t1" "avail_frames t2 = avail_frames t1" "heap_current t2 = heap_current t1"
    using 1(3) by (simp_all add: t2_def making_serial)
  have c1: "card (avail_frames t) = card (avail_frames t2) + 1" using card_avail_Diff [OF 1(5)] 1(6) 2(3) by simp
  have pt0: "pte_at (pmem t) d k l = 0" if "user k" for k l using z [OF that] by (simp add: pte_at_def)
  have e2: "0 \<in> dir_slots (pmem t2) d" "p0 = pg (pde_at (pmem t2) d 0)" "\<not> present (pte_at (pmem t2) d 0 0)" "\<not> present (pte_at (pmem t2) d 0 1)"
    using 1(4,8,9) 2(2) pt0 or_7 [of p0] by (simp_all add: dir_slots_def)
  obtain f0 f1 t3 where 3: "alloc_page_frames p0 t2 = Some t3" "making lo s A P d {} t3"
    "f0 \<in> avail_frames t2" "f1 \<in> avail_frames t2" "f0 \<noteq> f1" "pg f0 = f0" "pg f1 = f1"
    "avail_frames t3 = avail_frames t2 - {f0, f1}" "heap_current t3 = heap_current t2"
    "\<And>k. pde_at (pmem t3) d k = pde_at (pmem t2) d k"
    "\<And>k l. user k \<Longrightarrow> l < 1024 \<Longrightarrow> pte_at (pmem t3) d k l =
       (if k = 0 \<and> l = 0 then f0 OR 7 else if k = 0 \<and> l = 1 then f1 OR 7 else pte_at (pmem t2) d k l)"
    "pages (pmem t3) d = insert f0 (insert f1 (pages (pmem t2) d))" "\<And>g. g \<noteq> p0 \<Longrightarrow> pmem t3 g = pmem t2 g"
    by (rule making_alloc_page_frames [OF 2(1) e2]) (use av c1 in auto)
  note D3 = makingD [OF 3(2)]
  have "avail_frames t2 - {f0, f1} = avail_frames t2 - {f0} - {f1}" by auto
  then have c3: "card (avail_frames t) = card (avail_frames t3) + 3"
    using c1 3(3-5,8) card_avail_Diff [OF 3(3)] card_Suc_Diff1 [of "avail_frames t2 - {f0}" f1] makingD(12) [OF 2(1)] by simp
  have sub: "avail_frames t \<subseteq> avail_frames s" "avail_frames t2 \<subseteq> avail_frames t" using D(1) 1(6) 2(3) by (auto simp: stage_def)
  have q3: "page_directory t3 = page_directory s" "page_directory t3 \<noteq> []" using D3(1) by (auto simp: stage_def quiet_def mem_ok_def)
  have "entry (pmem t3 p0) 0 = f0 OR 7" using 3(10) [of 0] 3(11) [of 0 0] e2(1,2) by (simp add: pte_at_def dir_slots_def)
  then have rd: "do { s \<leftarrow> paging_temp_map p0 t3; x \<leftarrow> win_read32 0 s; s \<leftarrow> paging_temp_unmap s; g x s } = g (f0 OR 7) t3"
    for g :: "u32 \<Rightarrow> 'a sched_scheme \<Rightarrow> (u32 \<times> 'a sched_scheme) option"
    using D3(2) 1(4) by (simp add: open_window win_ops entry_def)
  have ap: "pg (mstart + off) \<noteq> f0" if "off < n" for off using src [OF that] 3(3) sub by auto
  define img where "img off = (if off < n then phys_byte (pmem t3) (mstart + off) else if off < 4096 then 0 else pmem t3 f0 off)" for off
  obtain l where cm: "copy_module f0 mstart mend t3 = Some ((set_page f0 img t3)\<lparr>serial_log := l\<rparr>)"
    using copy_module_eq [OF D3(2) 3(6) q3(2) _ n [unfolded loaded_size_def] low ap] pd q3(1) unfolding img_def by auto
  define t4 where "t4 = (set_page f0 img t3)\<lparr>serial_log := l\<rparr>"
  have f0p: "f0 \<in> pages (pmem t3) d" using 3(12) by simp
  note fill = making_fill [OF 3(2) f0p, where p = img]
  have mk4: "making lo s A P d {} t4" unfolding t4_def by (rule making_log [OF fill(1)])
  have p4: "pmem t4 = (pmem t3)(f0 := img)" "avail_frames t4 = avail_frames t3" "heap_current t4 = heap_current t3"
    by (simp_all add: t4_def) (simp add: set_page_def)
  have e4: "pde_at (pmem t4) d k = pde_at (pmem t3) d k" "user k \<Longrightarrow> pte_at (pmem t4) d k m = pte_at (pmem t3) d k m" for k m
    using fill(2,3) by (simp_all add: t4_def)
  have ab4: "\<not> present (pde_at (pmem t4) d 767)" using e4(1) 3(10) 2(2) 1(8) [of 767] z [of 767] by simp
  obtain ps f2 t5 where 5: "alloc_stack d t4 = Some t5" "making lo s A P d {} t5" "ps \<in> avail_frames t4" "f2 \<in> avail_frames t4" "ps \<noteq> f2" "pg f2 = f2"
    "avail_frames t5 = avail_frames t4 - {ps, f2}" "heap_current t5 = heap_current t4"
    "\<And>k. k < 1024 \<Longrightarrow> pde_at (pmem t5) d k = (if k = 767 then ps OR 7 else pde_at (pmem t4) d k)"
    "\<And>k l. user k \<Longrightarrow> l < 1024 \<Longrightarrow> pte_at (pmem t5) d k l = (if k = 767 \<and> l = 1023 then f2 OR 7 else pte_at (pmem t4) d k l)"
    "\<And>g. g \<noteq> ps \<Longrightarrow> g \<noteq> d \<Longrightarrow> pmem t5 g = pmem t4 g"
    by (rule making_alloc_stack [OF mk4 ab4]) (use av c3 p4(2) in auto)
  let ?P = "P(p \<mapsto> c\<lparr>esp := 0xBFFFFFFB\<rparr>)"
  define t6 where "t6 = serial_line ''[process] create_pcb_grub_modules: concluido'' (t5\<lparr>pcbs := ?P\<rparr>)"
  have up: "pcb_update p (\<lambda>c. c\<lparr>esp := 0xBFFFFFFB\<rparr>) t5 = Some (t5\<lparr>pcbs := ?P\<rparr>)"
    using stage_pcb_update(1) [OF makingD(1) [OF 5(2)] c] .
  have mk6: "making lo s A ?P d {} t6" unfolding t6_def by (rule making_serial(1) [OF making_pcbs [OF 5(2)]])
  have or7: "p0 OR 1 OR 2 OR 4 = p0 OR 7" by simp
  have run: "load_module p d mstart mend t = Some (p, t6)"
    unfolding load_module_def 1(1) Let_def frame_write32_bind
    by (simp add: 1(2) or.assoc t2_def [symmetric] 3(1) rd or_7(2) [OF 3(6)] cm t4_def [symmetric] 5(1) up t6_def)
  have far: "d \<notin> avail_frames t" using D(9,10) by auto
  have old: "pmem t6 g = pmem t g" if "g \<noteq> p0" "g \<noteq> f0" "g \<noteq> ps" "g \<noteq> d" for g
    using that 5(11) p4(1) 3(13) 2(2) 1(10) by (simp add: t6_def)
  have in_t: "f0 \<in> avail_frames t" "f1 \<in> avail_frames t" "f2 \<in> avail_frames t" "ps \<in> avail_frames t"
    and df: "f0 \<noteq> p0" "f0 \<noteq> ps" "f1 \<noteq> p0" "f1 \<noteq> ps" "f2 \<noteq> p0" "f2 \<noteq> f0"
    using 1(6) 2(3) 3(3,4,8) p4(2) 5(3,4) by auto
  have m0: "pmem t6 f0 = img" using 5(11) [of f0] df(2) in_t(1) far p4(1) by (auto simp: t6_def)
  have m12: "pmem t6 f1 = pmem t f1" "pmem t6 f2 = pmem t f2" using old df 3(5) 5(5) in_t far by metis+
  have pte: "pte_at (pmem t6) d k l = (if k = 0 \<and> l = 0 then f0 OR 7 else if k = 0 \<and> l = 1 then f1 OR 7
      else if k = 767 \<and> l = 1023 then f2 OR 7 else 0)" if "user k" "l < 1024" for k l
  proof -
    have "pte_at (pmem t6) d k l = pte_at (pmem t5) d k l" by (simp add: t6_def)
    then show ?thesis unfolding 5(10) [OF that] e4(2) [OF that(1)] 3(11) [OF that] 2(2) 1(9) [OF that] pt0 [OF that(1)] by simp
  qed
  have img: "img v = (if v < n then phys_byte (pmem t) (mstart + v) else 0)" if "v < 0x1000" for v
    using that D(1) D3(1) src [of v] by (simp add: img_def phys_byte_def stage_def)
  have "user_read8 v (t6\<lparr>cr3 := d\<rparr>) = first_image (pmem t) mstart n f1 f2 v" if v: "v < 0xC0000000" for v
  proof -
    have "v AND 0xFFF = v" if "v < 0x1000" using that by (simp add: word_unat_eq_iff unat_offset word_less_nat_alt)
    moreover note three_pages_read [OF makingD(3) [OF mk6] v 3(6,7) 5(6), OF pte, unfolded m0 m12]
    ultimately show ?thesis using img by (simp add: first_image_def)
  qed
  moreover have "pde_at (pmem t6) d 768 = w" using 5(9) [of 768] e4(1) 3(10) 2(2) 1(8) [of 768] pde [of 768] by (simp add: t6_def)
  moreover have "avail_frames t4 - {ps, f2} = avail_frames t4 - {ps} - {f2}" by auto
  then have "card (avail_frames t) = card (avail_frames t6) + 5" using avail_fields(1) [of "t5\<lparr>pcbs := ?P\<rparr>" t5]
    using c3 p4(2) 5(3-5,7) card_avail_Diff [OF 5(3)] card_Suc_Diff1 [of "avail_frames t4 - {ps}" f2] makingD(12) [OF mk4] by (simp add: t6_def)
  ultimately show thesis
    using run mk6 in_t(2,3) 5(8) p4(3) 3(9) 2(4) 1(7) by (intro that [of t6 f1 f2]) (simp_all add: t6_def)
qed

lemma create_module_cases:
  fixes t :: "'a sched_scheme"
  assumes st: "stage lo s A P t" and pf: "pfa_ok s" and P: "dom P \<subseteq> (\<lambda>a. a + 8) ` A" and n: "n = loaded_size mstart mend"
    and low: "unat mstart + unat n \<le> 0x400000" and src: "\<And>v. v < n \<Longrightarrow> pg (mstart + v) \<notin> avail_frames s"
    and pd: "page_directory s ! 0 = 0x83" and av: "9 \<le> card (avail_frames t)"
  obtains (none) t' where "create_pcb_grub_modules mstart mend t = Some (0, t')" "stage lo s A P t'" "0xC03FF000 < unat (heap_current t) + 12288"
  | (gets) q d k f1 f2 t' where "create_pcb_grub_modules mstart mend t = Some (q + 8, t')" "q + 8 \<noteq> 0" "P (q + 8) = None"
      "making lo s (insert k (insert q A)) (P(q + 8 \<mapsto> (fresh_pcb (next_pid t) d k)\<lparr>esp := 0xBFFFFFFB\<rparr>)) d {} t'"
      "pde_at (pmem t') d 768 = page_directory s ! 768" "f1 \<in> avail_frames s" "f2 \<in> avail_frames s"
      "\<forall>v < 0xC0000000. user_read8 v (t'\<lparr>cr3 := d\<rparr>) = first_image (pmem t) mstart n f1 f2 v"
      "card (avail_frames t) \<le> card (avail_frames t') + 9" "unat (heap_current t') \<le> unat (heap_current t) + 12288"
proof -
  note fails = that(1) and gets = that(2)
  let ?t = "serial_line ''[process] create_pcb_grub_modules: inicio'' t"
  have st0: "stage lo s A P ?t" using stage_log [OF st] by (simp add: serial_line_def)
  show thesis
  proof (rule create_pcb_cases [OF st0 pf P])
    show "4 \<le> card (avail_frames ?t)" using av by simp
  next
    fix t' assume "create_pcb ?t = Some (0, t')" "stage lo s A P t'" "0xC03FF000 < unat (heap_current ?t) + 12288"
    then show thesis by (intro fails [of t']) (simp_all add: create_pcb_grub_modules_split)
  next
    fix q d k t1 assume 1: "create_pcb ?t = Some (q + 8, t1)" "q + 8 \<noteq> 0" "P (q + 8) = None"
      "making lo s (insert k (insert q A)) (P(q + 8 \<mapsto> fresh_pcb (next_pid ?t) d k)) d {} t1" "owned (pmem t1) d = {d}"
      "\<And>i. i < 1024 \<Longrightarrow> pde_at (pmem t1) d i = (if i = 768 then page_directory s ! 768 else 0)"
      "\<And>g. g \<noteq> d \<Longrightarrow> pmem t1 g = pmem ?t g"
      "card (avail_frames ?t) \<le> card (avail_frames t1) + 4" "unat (heap_current t1) \<le> unat (heap_current ?t) + 12288"
    note D = makingD [OF 1(4)]
    have pc: "pcbs t1 (q + 8) = Some (fresh_pcb (next_pid t) d k)" using D(1) by (simp add: stage_def)
    have run: "create_pcb_grub_modules mstart mend t = load_module (q + 8) d mstart mend t1"
      using 1(1,2) pc by (simp add: create_pcb_grub_modules_split fresh_pcb_def)
    define P1 where "P1 = P(q + 8 \<mapsto> fresh_pcb (next_pid t) d k)"
    have c: "P1 (q + 8) = Some (fresh_pcb (next_pid t) d k)" by (simp add: P1_def)
    have P1: "P1(q + 8 \<mapsto> x) = P(q + 8 \<mapsto> x)" for x unfolding P1_def by (rule fun_upd_upd)
    have mk: "making lo s (insert k (insert q A)) P1 d {} t1" using 1(4) by (simp add: P1_def)
    have a1: "5 \<le> card (avail_frames t1)" using av 1(8) by simp
    have sub: "avail_frames t1 \<subseteq> avail_frames s" "d \<notin> avail_frames t1" using D(1,9,10) by (auto simp: stage_def)
    obtain f1 f2 t' where 2: "load_module (q + 8) d mstart mend t1 = Some (q + 8, t')"
      "making lo s (insert k (insert q A)) (P(q + 8 \<mapsto> (fresh_pcb (next_pid t) d k)\<lparr>esp := 0xBFFFFFFB\<rparr>)) d {} t'"
      "f1 \<in> avail_frames t1" "f2 \<in> avail_frames t1" "\<forall>v < 0xC0000000. user_read8 v (t'\<lparr>cr3 := d\<rparr>) = first_image (pmem t1) mstart n f1 f2 v"
      "pde_at (pmem t') d 768 = page_directory s ! 768" "card (avail_frames t1) = card (avail_frames t') + 5" "heap_current t' = heap_current t1"
      by (rule load_module_result [OF mk c n 1(6) low src pd a1, unfolded P1]) simp_all
    have "f1 \<noteq> d" "f2 \<noteq> d" using sub(2) 2(3,4) by auto
    moreover have "phys_byte (pmem t1) (mstart + v) = phys_byte (pmem t) (mstart + v)" if "v < n" for v
    proof -
      have "pg (mstart + v) \<noteq> d" using src [OF that] D(6) by metis
      then show ?thesis using 1(7) by (simp add: phys_byte_def)
    qed
    ultimately have "first_image (pmem t1) mstart n f1 f2 v = first_image (pmem t) mstart n f1 f2 v" for v
      using 1(7) [of f1] 1(7) [of f2] by (simp add: first_image_def)
    then show thesis
      using 1(2,3,8,9) 2 run sub(1) by (intro gets [where q = q and d = d and k = k and ?f1.0 = f1 and ?f2.0 = f2 and t' = t']) auto
  qed
qed

text \<open>
  C8.  A process made from a boot module.  With nine free frames, and a module that lies below 4 MB in
  frames that are not free, \<open>create_pcb_grub_modules\<close> returns.  Either the result is a control block that
  was not in use: a READY process with the next identifier, the entry point 0, the stack pointer
  \<open>0xBFFFFFFB\<close> and the user selectors, whose kernel stack is a heap block of its own and whose address
  space consists of frames that were free.  In it the first page holds the first 4096 bytes of the module
  and zeros after its end, the second page and the stack page still hold what was in their frames, no
  other address is mapped, and the kernel's directory entry is the one of the boot directory.  Or the
  addresses of the heap are used up, the result is the null pointer and every block and control block is
  as before.  In both cases memory and heap stay sound, the scheduler is not touched and no frame in use
  has changed.
\<close>

theorem create_pcb_grub_modules_loads:
  fixes s :: "'a sched_scheme"
  assumes ker: "kernel_inv lo A s" and av: "9 \<le> card (avail_frames s)" and pd: "page_directory s ! 0 = 0x83"
    and low: "unat mstart + unat (loaded_size mstart mend) \<le> 0x400000"
    and src: "\<forall>v < loaded_size mstart mend. pg (mstart + v) \<notin> avail_frames s"
  shows "\<exists>p s'. create_pcb_grub_modules mstart mend s = Some (p, s') \<and> quiet s s' \<and> avail_frames s' \<subseteq> avail_frames s \<and>
    (\<forall>f. f \<notin> avail_frames s \<longrightarrow> pmem s' f = pmem s f) \<and>
    (p = 0 \<and> kernel_inv lo A s' \<and> pcbs s' = pcbs s \<and> 0xC03FF000 < unat (heap_current s) + 12288 \<or>
     p \<noteq> 0 \<and> pcbs s p = None \<and> (\<exists>c. pcbs s' = (pcbs s)(p \<mapsto> c) \<and> pid c = next_pid s \<and> ppid c = 0 \<and> state c = PROCESS_STATE_READY \<and>
        eip c = 0 \<and> esp c = 0xBFFFFFFB \<and> eflags c = 0x200 \<and> cs c = 0x1B \<and> ss c = 0x23 \<and> c_cs (pcb_context c) = 0 \<and>
        kernel_esp0 c = kernel_stack_base c + 4092 \<and> kernel_inv lo (A \<union> {p - 8, kernel_stack_base c - 8}) s' \<and>
        own_space (pdt c) s' \<and> owned (pmem s') (pdt c) \<subseteq> avail_frames s \<and> pde_at (pmem s') (pdt c) 768 = page_directory s ! 768 \<and>
        (\<exists>f1 \<in> avail_frames s. \<exists>f2 \<in> avail_frames s. \<forall>v < 0xC0000000.
           user_read8 v (s'\<lparr>cr3 := pdt c\<rparr>) = first_image (pmem s) mstart (loaded_size mstart mend) f1 f2 v)))"
  (is "\<exists>p s'. ?Q p s'")
proof -
  have k: "mem_ok s" "heap_ok lo A s" "dom (pcbs s) \<subseteq> (\<lambda>a. a + 8) ` A" using ker by (simp_all add: kernel_inv_def)
  have pf: "pfa_ok s" using k(1) by (simp add: mem_ok_def)
  show ?thesis
  proof (rule create_module_cases [OF stage_start [OF k(1,2)] pf k(3) refl low _ pd av])
    show "pg (mstart + v) \<notin> avail_frames s" if "v < loaded_size mstart mend" for v using src that by simp
  next
    fix t assume t: "create_pcb_grub_modules mstart mend s = Some (0, t)" "stage lo s A (pcbs s) t" "0xC03FF000 < unat (heap_current s) + 12288"
    then have "?Q 0 t" using k(3) by (simp add: stage_def kernel_inv_def)
    then show ?thesis by blast
  next
    fix q d kk f1 f2 t let ?c = "(fresh_pcb (next_pid s) d kk)\<lparr>esp := 0xBFFFFFFB\<rparr>"
    assume t: "create_pcb_grub_modules mstart mend s = Some (q + 8, t)" "q + 8 \<noteq> 0" "pcbs s (q + 8) = None"
      "making lo s (insert kk (insert q A)) ((pcbs s)(q + 8 \<mapsto> ?c)) d {} t"
      "pde_at (pmem t) d 768 = page_directory s ! 768" "f1 \<in> avail_frames s" "f2 \<in> avail_frames s"
      "\<forall>v < 0xC0000000. user_read8 v (t\<lparr>cr3 := d\<rparr>) = first_image (pmem s) mstart (loaded_size mstart mend) f1 f2 v"
    note D = makingD [OF t(4)]
    have c: "pid ?c = next_pid s" "ppid ?c = 0" "state ?c = 0" "eip ?c = 0" "esp ?c = 0xBFFFFFFB" "eflags ?c = 0x200" "cs ?c = 0x1B" "ss ?c = 0x23"
      "c_cs (pcb_context ?c) = 0" "kernel_stack_base ?c = kk + 8" "kernel_esp0 ?c = kk + 8 + 4092" "pdt ?c = d"
      by (simp_all add: fresh_pcb_def new_pcb_def)
    have "own_space d t" using D(3,4,9) by (auto simp: own_space_def)
    moreover have "kernel_inv lo (A \<union> {q + 8 - 8, kernel_stack_base ?c - 8}) t"
      using D(1) k(3) unfolding c(10) by (auto simp: kernel_inv_def stage_def insert_commute)
    ultimately have "?Q (q + 8) t"
      using t D(1,7) c unfolding stage_def by (intro conjI disjI2 exI [of _ ?c] bexI [of _ f1] bexI [of _ f2]) simp_all
    then show ?thesis by blast
  qed
qed

definition sample_creator :: modules where
  "sample_creator = sample_kernel\<lparr>page_directory := (replicate 1024 0)[0 := 0x83]\<rparr>"

lemma sample_creator_facts:
  "kernel_inv 0xC0110000 {0xC0110000} sample_creator" "9 \<le> card (avail_frames sample_creator)"
  "unat (heap_current sample_creator) = 0xC0111000" "f < 0x12C000 \<Longrightarrow> f \<notin> avail_frames sample_creator"
  "phys_byte (pmem sample_creator) 0x1004 = 0x42" "page_directory sample_creator ! 0 = 0x83"
proof -
  let ?c = "sample_creator" and ?k = "sample_kernel"
  have k: "mem_ok ?k" "heap_ok 0xC0110000 {0xC0110000} ?k" "dom (pcbs ?k) \<subseteq> (\<lambda>a. a + 8) ` {0xC0110000}"
    using sample_kernel_facts(2) by (simp_all add: kernel_inv_def)
  have a: "avail_frames ?c = avail_frames ?k" "pfa_ok ?c = pfa_ok ?k" using avail_fields [of ?c ?k] by (simp_all add: sample_creator_def)
  have "kmapped x ?c = kmapped x ?k" for x by (simp add: kmapped_def sample_creator_def)
  moreover have "free_list lo A qs ?c = free_list lo A qs ?k" for lo A qs by (simp add: free_list_def sample_creator_def)
  ultimately have "heap_ok 0xC0110000 {0xC0110000} ?c"
    using k(2) a(2) by (simp add: heap_ok_def heap_mem_def paging_ok_def) (simp add: sample_creator_def)
  moreover have "mem_ok ?c" using k(1) a(2) by (simp add: mem_ok_def window_closed_def) (simp add: sample_creator_def)
  moreover have "pcbs ?c = pcbs ?k" by (simp add: sample_creator_def)
  ultimately show "kernel_inv 0xC0110000 {0xC0110000} ?c" using k(3) by (simp add: kernel_inv_def)
  have e: "avail_frames ?k = avail_frames sample_exec" using avail_fields(1) [of ?k sample_exec] by (simp add: sample_kernel_def)
  have "n \<in> {300..<309} \<Longrightarrow> \<not> used (bitmap sample_exec) n" for n by (auto simp: used_def sample_exec_def)
  then have "{300..<309} \<subseteq> free_frames sample_exec"
    by (auto simp: free_frames_def) (simp_all add: sample_exec_def sample_modules_def sample_state_def)
  from card_mono [OF _ this] show "9 \<le> card (avail_frames ?c)"
    using sample_exec_facts(1) card_avail_frames [of sample_exec] a(1) e by (simp add: mem_ok_def)
  show "f \<notin> avail_frames ?c" if "f < 0x12C000" using sample_exec_facts(9) [OF that] a(1) e by simp
  show "unat (heap_current ?c) = 0xC0111000" "phys_byte (pmem ?c) 0x1004 = 0x42" "page_directory ?c ! 0 = 0x83"
    by (simp_all add: sample_creator_def sample_kernel_def phys_byte_def sample_exec_def)
qed

theorem create_pcb_grub_modules_loads_witness:
  "\<exists>p c s'. create_pcb_grub_modules 0x1000 0x1005 sample_creator = Some (p, s') \<and> pcbs s' p = Some c \<and> eip c = 0 \<and>
     user_read8 4 (s'\<lparr>cr3 := pdt c\<rparr>) = Some 0x42 \<and> user_read8 5 (s'\<lparr>cr3 := pdt c\<rparr>) = Some 0 \<and> user_read8 0x2000 (s'\<lparr>cr3 := pdt c\<rparr>) = None"
proof -
  let ?s = "sample_creator"
  have n: "loaded_size 0x1000 0x1005 = 5" by (simp add: loaded_size_def)
  have low: "unat (0x1000 :: u32) + unat (loaded_size 0x1000 0x1005) \<le> 0x400000" by (simp add: n)
  have src: "\<forall>v < loaded_size 0x1000 0x1005. pg (0x1000 + v) \<notin> avail_frames ?s"
  proof (intro allI impI)
    fix v :: u32 assume "v < loaded_size 0x1000 0x1005"
    then have "0x1000 + v < 0x12C000" by (simp add: n word_less_nat_alt unat_word_ariths)
    then have "pg (0x1000 + v) < 0x12C000" using word_and_le2 [of "0x1000 + v" "0xFFFFF000"] by (rule le_less_trans [rotated])
    then show "pg (0x1000 + v) \<notin> avail_frames ?s" by (rule sample_creator_facts(4))
  qed
  from create_pcb_grub_modules_loads [OF sample_creator_facts(1,2,6) low src] obtain p c s' f1 f2 where
    r: "create_pcb_grub_modules 0x1000 0x1005 ?s = Some (p, s')" "pcbs s' = (pcbs ?s)(p \<mapsto> c)" "eip c = 0"
    "\<forall>v < 0xC0000000. user_read8 v (s'\<lparr>cr3 := pdt c\<rparr>) = first_image (pmem ?s) 0x1000 5 f1 f2 v"
    unfolding sample_creator_facts(3) n by (simp, blast)
  have "first_image (pmem ?s) 0x1000 5 f1 f2 4 = Some 0x42" "first_image (pmem ?s) 0x1000 5 f1 f2 5 = Some 0"
    "first_image (pmem ?s) 0x1000 5 f1 f2 0x2000 = None" using sample_creator_facts(5) by (simp_all add: first_image_def)
  then show ?thesis using r by (intro exI [of _ p] exI [of _ c] exI [of _ s']) simp
qed

end
