(* ===== verification/Kernel_Inv.thy ===== *)
theory Kernel_Inv
  imports Process_Create
begin

text \<open>
  The invariant of the running kernel, over the state of all components: the scheduler, the frame
  allocator, the kernel heap, the address space of every process and the table of boot modules.  The
  operations that change processes, \<open>fork\<close>, \<open>exec\<close>, \<open>exit\<close> and the switch of the scheduler, keep it, and do
  not touch the processes that wait.
\<close>

subsection \<open>The invariant\<close>

text \<open>The processes of the system: the one that runs and those that wait.\<close>

definition live :: "'a sched_scheme \<Rightarrow> u32 set" where
  "live s = insert (current_pcb s) (set (ready_list s))"

text \<open>The physical frames that hold the boot modules.\<close>

definition table_entries :: "'a modules_scheme \<Rightarrow> loaded_module set" where
  "table_entries s = set (take (unat (loaded_modules_count s)) (loaded_modules s))"

definition module_frames :: "'a modules_scheme \<Rightarrow> u32 set" where
  "module_frames s = {pg (mod_start e + v) |e v. e \<in> table_entries s \<and> v < mod_end e - mod_start e}"

definition table_ok :: "'a modules_scheme \<Rightarrow> bool" where
  "table_ok s \<longleftrightarrow> unat (loaded_modules_count s) \<le> length (loaded_modules s) \<and>
     (\<forall>e \<in> table_entries s. mod_start e < mod_end e \<and> mod_end e - mod_start e \<le> 0xBFFFF000)"

text \<open>
  A directory that leads to the kernel: its entry 768 (the kernel half, \<open>0xC0000000\<close> upwards) is the one of
  the kernel's own directory, so that the code, the heap and the page window are found through it.
\<close>

definition kernel_half :: "u32 \<Rightarrow> 'a paging_scheme \<Rightarrow> bool" where
  "kernel_half d s \<longleftrightarrow> pde_at (pmem s) d 768 = page_directory s ! 768"

text \<open>
  The processes \<open>L\<close> have address spaces of their own, apart from each other, from the free frames and from
  the frames \<open>M\<close>, which are not free either; the kernel is mapped in each of them.
\<close>

definition spaces_on :: "u32 set \<Rightarrow> u32 set \<Rightarrow> 'a sched_scheme \<Rightarrow> bool" where
  "spaces_on L M s \<longleftrightarrow> M \<inter> avail_frames s = {} \<and>
     (\<forall>p \<in> L. \<exists>c. pcbs s p = Some c \<and> own_space (pdt c) s \<and> owned (pmem s) (pdt c) \<inter> M = {} \<and> kernel_half (pdt c) s) \<and>
     (\<forall>p \<in> L. \<forall>q \<in> L. \<forall>c d. p \<noteq> q \<longrightarrow> pcbs s p = Some c \<longrightarrow> pcbs s q = Some d \<longrightarrow>
        owned (pmem s) (pdt c) \<inter> owned (pmem s) (pdt d) = {})"

abbreviation spaces_ok :: "u32 set \<Rightarrow> 'a sched_scheme \<Rightarrow> bool" where
  "spaces_ok M s \<equiv> spaces_on (live s) M s"

definition kernel_ok :: "nat \<Rightarrow> u32 set \<Rightarrow> 'a modules_scheme \<Rightarrow> bool" where
  "kernel_ok lo A s \<longleftrightarrow> sched_at False s \<and> kernel_inv lo A s \<and> spaces_ok (module_frames s) s \<and> table_ok s \<and>
     present (page_directory s ! 768)"

lemma kernel_okD:
  assumes "kernel_ok lo A s"
  shows "sched_at False s" "kernel_inv lo A s" "spaces_ok (module_frames s) s" "table_ok s" "mem_ok s" "heap_ok lo A s"
    "dom (pcbs s) \<subseteq> (\<lambda>a. a + 8) ` A" "current_pcb s \<noteq> 0" "sched_ok s" "asched_inv (abs_sched s)"
    "present (page_directory s ! 768)"
  using assms by (simp_all add: kernel_ok_def kernel_inv_def sched_at_def)

lemma spaces_okD:
  assumes "spaces_on L M s" and "p \<in> L"
  obtains c where "pcbs s p = Some c" "own_space (pdt c) s" "owned (pmem s) (pdt c) \<inter> M = {}"
    "\<And>q d. q \<in> L \<Longrightarrow> q \<noteq> p \<Longrightarrow> pcbs s q = Some d \<Longrightarrow> owned (pmem s) (pdt c) \<inter> owned (pmem s) (pdt d) = {}" "kernel_half (pdt c) s"
proof -
  from assms obtain c where c: "pcbs s p = Some c" "own_space (pdt c) s" "owned (pmem s) (pdt c) \<inter> M = {}" "kernel_half (pdt c) s"
    by (auto simp: spaces_on_def)
  moreover have "owned (pmem s) (pdt c) \<inter> owned (pmem s) (pdt d) = {}" if "q \<in> L" "q \<noteq> p" "pcbs s q = Some d" for q d
    using assms that c(1) unfolding spaces_on_def by metis
  ultimately show thesis by (intro that)
qed

text \<open>A space is the same wherever its frames are.\<close>

lemma own_space_kept:
  assumes "own_space d s" and "\<forall>f \<in> owned (pmem s) d. pmem s' f = pmem s f" and "owned (pmem s) d \<inter> avail_frames s' = {}"
  shows "own_space d s'" "owned (pmem s') d = owned (pmem s) d"
    "v < 0xC0000000 \<Longrightarrow> user_read8 v (s'\<lparr>cr3 := d\<rparr>) = user_read8 v (s\<lparr>cr3 := d\<rparr>)"
proof -
  have o: "d \<noteq> 0" "space_ok (pmem s) d" using assms(1) by (simp_all add: own_space_def)
  have m: "pmem s' (pg d) = pmem s (pg d)" "\<forall>f \<in> tables (pmem s) d. pmem s' f = pmem s f" using assms(2) by (auto simp: owned_def)
  note c = space_cong [of "pmem s'" d "pmem s", OF m]
  show "own_space d s'" "owned (pmem s') d = owned (pmem s) d" using o assms(3) c by (simp_all add: own_space_def)
  show "v < 0xC0000000 \<Longrightarrow> user_read8 v (s'\<lparr>cr3 := d\<rparr>) = user_read8 v (s\<lparr>cr3 := d\<rparr>)" by (rule user_read8_cong [OF o(2) assms(2)])
qed

text \<open>
  What keeps a process whole under a change of the kernel: it keeps its directory, and no frame of its
  space is written or freed.
\<close>

definition untouched :: "'a sched_scheme \<Rightarrow> 'a sched_scheme \<Rightarrow> u32 \<Rightarrow> bool" where
  "untouched s s' p \<longleftrightarrow> (\<forall>c. pcbs s p = Some c \<longrightarrow> map_option pdt (pcbs s' p) = Some (pdt c) \<and>
     (\<forall>f \<in> owned (pmem s) (pdt c). pmem s' f = pmem s f \<and> f \<notin> avail_frames s'))"

lemma untouchedD:
  assumes ok: "spaces_on L M s" and p: "p \<in> L" and u: "untouched s s' p"
  obtains c c' where "pcbs s p = Some c" "pcbs s' p = Some c'" "pdt c' = pdt c" "own_space (pdt c') s'"
    "owned (pmem s') (pdt c') = owned (pmem s) (pdt c)" "owned (pmem s) (pdt c) \<inter> M = {}"
    "\<forall>v < 0xC0000000. user_read8 v (s'\<lparr>cr3 := pdt c'\<rparr>) = user_read8 v (s\<lparr>cr3 := pdt c\<rparr>)"
    "page_directory s' = page_directory s \<Longrightarrow> kernel_half (pdt c') s'"
proof -
  from ok p obtain c where c: "pcbs s p = Some c" "own_space (pdt c) s" "owned (pmem s) (pdt c) \<inter> M = {}" "kernel_half (pdt c) s"
    by (rule spaces_okD)
  obtain c' where c': "pcbs s' p = Some c'" "pdt c' = pdt c" "\<forall>f \<in> owned (pmem s) (pdt c). pmem s' f = pmem s f \<and> f \<notin> avail_frames s'"
    using u c(1) by (auto simp: untouched_def)
  then have "\<forall>f \<in> owned (pmem s) (pdt c). pmem s' f = pmem s f" "owned (pmem s) (pdt c) \<inter> avail_frames s' = {}" by auto
  note k = own_space_kept [OF c(2) this]
  have "pg (pdt c) \<in> owned (pmem s) (pdt c)" by (simp add: owned_def)
  then have "pmem s' (pg (pdt c)) = pmem s (pg (pdt c))" using c'(3) by blast
  then have "page_directory s' = page_directory s \<Longrightarrow> kernel_half (pdt c') s'" using c(4) c'(2) by (simp add: kernel_half_def pde_at_def)
  then show thesis using c c' k by (intro that [of c c']) simp_all
qed

text \<open>Processes may end, and one process may have a new space made of frames that were free or its own.\<close>

lemma spaces_ok_step:
  assumes ok: "spaces_on L M s" and u: "\<forall>p \<in> L' - N. p \<in> L \<and> untouched s s' p" and M: "M \<inter> avail_frames s' = {}"
    and N: "\<forall>p \<in> N \<inter> L'. \<exists>c. pcbs s' p = Some c \<and> own_space (pdt c) s' \<and> owned (pmem s') (pdt c) \<subseteq> avail_frames s \<and> kernel_half (pdt c) s'"
    and pd: "page_directory s' = page_directory s"
    and one: "\<forall>p \<in> N. \<forall>q \<in> N. p = q"
  shows "spaces_on L' M s'"
proof -
  have old: "\<exists>c c'. pcbs s p = Some c \<and> pcbs s' p = Some c' \<and> own_space (pdt c') s' \<and> own_space (pdt c) s \<and>
      owned (pmem s') (pdt c') = owned (pmem s) (pdt c) \<and> owned (pmem s) (pdt c) \<inter> M = {} \<and> kernel_half (pdt c') s'" if "p \<in> L'" "p \<notin> N" for p
  proof -
    have p: "p \<in> L" "untouched s s' p" using u that by auto
    from ok p(1) obtain c where c: "pcbs s p = Some c" "own_space (pdt c) s" by (rule spaces_okD)
    with untouchedD [OF ok p] pd show ?thesis by (metis option.inject)
  qed
  have free: "M \<inter> avail_frames s = {}" using ok by (simp add: spaces_on_def)
  have "\<exists>c. pcbs s' p = Some c \<and> own_space (pdt c) s' \<and> owned (pmem s') (pdt c) \<inter> M = {} \<and> kernel_half (pdt c) s'" if "p \<in> L'" for p
  proof (cases "p \<in> N")
    case True
    then show ?thesis using N that free by blast
  next
    case False
    with old [OF that] show ?thesis by metis
  qed
  moreover have "owned (pmem s') (pdt c) \<inter> owned (pmem s') (pdt d) = {}"
    if pq: "p \<in> L'" "q \<in> L'" "p \<noteq> q" "pcbs s' p = Some c" "pcbs s' q = Some d" for p q c d
  proof -
    have new: "owned (pmem s') (pdt c) \<inter> owned (pmem s') (pdt d) = {}"
      if "p \<in> N" "p \<in> L'" "q \<notin> N" "q \<in> L'" "pcbs s' p = Some c" "pcbs s' q = Some d" for p q c d
    proof -
      note at = that
      have "owned (pmem s') (pdt c) \<subseteq> avail_frames s" using N at(1,2,5) by (metis IntI option.inject)
      moreover obtain d0 :: PCB where "owned (pmem s') (pdt d) = owned (pmem s) (pdt d0)" "own_space (pdt d0) s"
        using old [OF at(4,3)] at(6) by auto
      ultimately show ?thesis by (auto simp: own_space_def)
    qed
    consider "p \<in> N" "q \<notin> N" | "p \<notin> N" "q \<in> N" | "p \<notin> N" "q \<notin> N" using one pq(3) by blast
    then show ?thesis
    proof cases
      case 1 then show ?thesis using new pq by blast
    next
      case 2 then show ?thesis using new [of q p d c] pq by blast
    next
      case 3
      then obtain c0 d0 where "pcbs s p = Some c0" "owned (pmem s') (pdt c) = owned (pmem s) (pdt c0)"
        "pcbs s q = Some d0" "owned (pmem s') (pdt d) = owned (pmem s) (pdt d0)" using old pq by (metis option.inject)
      moreover have "p \<in> L" "q \<in> L" using u 3 pq(1,2) by auto
      ultimately show ?thesis using ok pq(3) unfolding spaces_on_def by metis
    qed
  qed
  ultimately show ?thesis using M unfolding spaces_on_def by blast
qed

subsection \<open>Changes that the invariant does not see\<close>

lemma more_modules:
  assumes "sched.more s' = sched.more s"
  shows "loaded_modules s' = loaded_modules s" "loaded_modules_count s' = loaded_modules_count s"
  using assms by (cases s; cases s'; simp)+

lemma table_fields:
  assumes "loaded_modules s' = loaded_modules s" "loaded_modules_count s' = loaded_modules_count s"
  shows "module_frames s' = module_frames s" "table_ok s' = table_ok s"
  using assms by (simp_all add: module_frames_def table_ok_def table_entries_def)

lemma kernel_okI:
  assumes "sched_at False s'" "mem_ok s'" "heap_ok lo A s'" "dom (pcbs s') \<subseteq> (\<lambda>a. a + 8) ` A" "spaces_ok (module_frames s) s'"
    "table_ok s" "loaded_modules s' = loaded_modules s" "loaded_modules_count s' = loaded_modules_count s"
    "page_directory s' = page_directory s" "present (page_directory s ! 768)"
  shows "kernel_ok lo A s'"
  using assms table_fields [of s' s] by (simp add: kernel_ok_def kernel_inv_def)

lemma dom_pdt: "\<forall>p. map_option pdt (P' p) = map_option pdt (P p) \<Longrightarrow> dom P' = dom P"
proof -
  assume "\<forall>p. map_option pdt (P' p) = map_option pdt (P p)"
  then have "(P' p = None) = (P p = None)" for p by (metis option.map_disc_iff)
  then show ?thesis by (simp add: dom_def)
qed

text \<open>A state that differs in nothing the invariant speaks of.\<close>

definition same_kernel :: "'a modules_scheme \<Rightarrow> 'a modules_scheme \<Rightarrow> bool" where
  "same_kernel s s' \<longleftrightarrow> bitmap s' = bitmap s \<and> start_frame s' = start_frame s \<and> total_frames s' = total_frames s \<and>
     page_directory s' = page_directory s \<and> kernel_page_table s' = kernel_page_table s \<and> pmem s' = pmem s \<and> stale s' = stale s \<and>
     hdrs s' = hdrs s \<and> freep s' = freep s \<and> heap_current s' = heap_current s \<and> heap_max s' = heap_max s \<and> base_addr s' = base_addr s \<and>
     ready_queue s' = ready_queue s \<and> ready_head s' = ready_head s \<and> ready_tail s' = ready_tail s \<and> ready_len s' = ready_len s \<and>
     pcbs s' = pcbs s \<and> current_pcb s' = current_pcb s \<and> cr3 s' = cr3 s \<and> t_esp0 (tss s') = t_esp0 (tss s) \<and>
     loaded_modules s' = loaded_modules s \<and> loaded_modules_count s' = loaded_modules_count s"

lemma same_kernel_fields:
  assumes "same_kernel s s'"
  shows "avail_frames s' = avail_frames s" "live s' = live s" "ready_list s' = ready_list s" "pcbs s' = pcbs s" "pmem s' = pmem s"
    "current_pcb s' = current_pcb s" "untouched s' t p = untouched s t p" "untouched t s' p = untouched t s p"
proof -
  note e = assms [unfolded same_kernel_def]
  show l: "ready_list s' = ready_list s" by (rule sched_fields(1)) (use e in simp_all)
  show a: "avail_frames s' = avail_frames s" by (rule avail_fields(1)) (use e in simp_all)
  show "pcbs s' = pcbs s" "pmem s' = pmem s" "current_pcb s' = current_pcb s" "live s' = live s" using e l by (simp_all add: live_def)
  then show "untouched s' t p = untouched s t p" "untouched t s' p = untouched t s p" using a by (simp_all add: untouched_def)
qed

lemma same_kernel_ok:
  assumes ok: "kernel_ok lo A s" and sk: "same_kernel s s'"
  shows "kernel_ok lo A s'"
proof -
  note e = sk [unfolded same_kernel_def] and k = kernel_okD [OF ok] and f = same_kernel_fields [OF sk]
  have so: "sched_ok s' = sched_ok s" by (rule sched_fields(2)) (use e in simp_all)
  have "asched_inv (abs_sched s')"
    using k(10) e f(3) unfolding asched_inv_def ready_entries_def space_inv_def by (simp add: abs_sched_def)
  then have at: "sched_at False s'" using k(8,9) so e by (simp add: sched_at_def)
  have pf: "pfa_ok s' = pfa_ok s" by (rule avail_fields(3)) (use e in simp_all)
  then have mo: "mem_ok s'" using k(5) e by (simp add: mem_ok_def window_closed_def)
  have ho: "heap_ok lo A s'" by (rule heap_ok_fields [OF k(6)]) (use e pf k(5) in \<open>simp_all add: mem_ok_def\<close>)
  have "spaces_ok (module_frames s) s'" using k(3) f e by (simp add: spaces_on_def own_space_def kernel_half_def)
  with at mo ho show ?thesis by (intro kernel_okI [of s' lo A s]) (use k(4,7,11) e in simp_all)
qed

lemma same_kernel_trans: "same_kernel s t \<Longrightarrow> same_kernel t u \<Longrightarrow> same_kernel s u"
  by (simp add: same_kernel_def)

lemma same_kernel_log: "same_kernel s (serial_line l s)" "same_kernel s (serial_write_hex w s)"
  by (simp_all add: same_kernel_def serial_line_def serial_write_hex_def)

text \<open>The boot modules stay where they are, with the bytes they had.\<close>

definition modules_kept :: "'a modules_scheme \<Rightarrow> 'a modules_scheme \<Rightarrow> bool" where
  "modules_kept s s' \<longleftrightarrow> loaded_modules s' = loaded_modules s \<and> loaded_modules_count s' = loaded_modules_count s \<and>
     (\<forall>f \<in> module_frames s. pmem s' f = pmem s f)"

lemma modules_kept_trans:
  assumes "modules_kept s t" and "modules_kept t u"
  shows "modules_kept s u"
  using assms table_fields(1) [of t s] by (simp add: modules_kept_def)

lemma same_kernel_modules: "same_kernel s s' \<Longrightarrow> modules_kept s s'"
  by (simp add: same_kernel_def modules_kept_def)

text \<open>A switch between processes.\<close>

lemma same_memory_heap:
  assumes "same_memory s s'" "heap_ok lo A s" "mem_ok s"
  shows "heap_ok lo A s'"
  by (rule heap_ok_fields [OF assms(2)]) (use assms(1,3) same_memory_kept(1) [OF assms(1)] in \<open>simp_all add: same_memory_def mem_ok_def\<close>)

lemma reschedule:
  fixes s :: "'a modules_scheme"
  assumes ok: "kernel_ok lo A s"
  obtains r ctx' s' where "scheduler_schedule_from_context (Some ctx) True cid s = Some (r, Some ctx', s')"
    "kernel_ok lo A s'" "live s' = live s" "\<forall>p \<in> live s. untouched s s' p" "modules_kept s s'"
proof -
  note k = kernel_okD [OF ok]
  obtain r ctx' s' where s': "scheduler_schedule_from_context (Some ctx) True cid s = Some (r, Some ctx', s')" "sched_at False s'"
    "spec_schedule ctx True (abs_sched s) = (r, ctx', abs_sched s')" by (rule schedule_at [OF k(1)])
  note m = schedule_memory [OF s'(1)]
  note mk = same_memory_kept [OF m] and mo = more_modules [of s' s]
  have d: "a_current (abs_sched s) \<in> dom (a_procs (abs_sched s))" "set (a_ready (abs_sched s)) \<subseteq> dom (a_procs (abs_sched s))"
    using k(10) by (auto simp: asched_inv_def ready_entries_def space_inv_def)
  have P: "\<forall>p. map_option pdt (pcbs s' p) = map_option pdt (pcbs s p)" using spec_schedule_pdt [OF s'(3) d] by simp
  have "mset (current_pcb s' # ready_list s') = mset (current_pcb s # ready_list s)" using spec_schedule_mset(1) [OF s'(3)] k(8) by simp
  then have L: "live s' = live s" unfolding live_def by (metis list.simps(15) set_mset_mset)
  have U: "untouched s s' p" if p: "p \<in> live s" for p
  proof -
    from k(3) p obtain c where "pcbs s p = Some c" "own_space (pdt c) s" by (rule spaces_okD)
    then show ?thesis using P mk(2,4) by (auto simp: untouched_def own_space_def)
  qed
  have "spaces_ok (module_frames s) s'"
    by (rule spaces_ok_step [OF k(3), where N = "{}"]) (use U L mk(2) k(3) m in \<open>auto simp: spaces_on_def same_memory_def\<close>)
  then have "kernel_ok lo A s'"
    using k(4,7,11) s'(2) same_memory_ok [OF m k(5)] same_memory_heap [OF m k(6,5)] dom_pdt [OF P] m mo
    by (intro kernel_okI [of s' lo A s]) (simp_all add: same_memory_def)
  moreover have "modules_kept s s'" using m mo mk(4) by (simp add: modules_kept_def same_memory_def)
  ultimately show thesis using s'(1) L U by (intro that [of r ctx' s']) auto
qed

subsection \<open>Fork and exit\<close>

lemma current_process:
  assumes "kernel_ok lo A s"
  obtains c where "pcbs s (current_pcb s) = Some c" "own_space (pdt c) s" "cr3 s = pdt c" "owned (pmem s) (pdt c) \<inter> module_frames s = {}"
    "\<And>q d. q \<in> live s \<Longrightarrow> q \<noteq> current_pcb s \<Longrightarrow> pcbs s q = Some d \<Longrightarrow> owned (pmem s) (pdt c) \<inter> owned (pmem s) (pdt d) = {}"
    "kernel_half (pdt c) s"
proof -
  note k = kernel_okD [OF assms]
  have "current_pcb s \<in> live s" by (simp add: live_def)
  from k(3) this obtain c where c: "pcbs s (current_pcb s) = Some c" "own_space (pdt c) s" "owned (pmem s) (pdt c) \<inter> module_frames s = {}"
    "\<And>q d. q \<in> live s \<Longrightarrow> q \<noteq> current_pcb s \<Longrightarrow> pcbs s q = Some d \<Longrightarrow> owned (pmem s) (pdt c) \<inter> owned (pmem s) (pdt d) = {}"
    "kernel_half (pdt c) s" by (rule spaces_okD) blast
  moreover have "cr3 s = pdt c" using k(10) c(1) by (auto simp: asched_inv_def space_inv_def)
  ultimately show thesis by (intro that)
qed

text \<open>An operation that writes and frees only frames that were free or belong to the running process.\<close>

lemma others_untouched:
  assumes ok: "kernel_ok lo A s" and c: "pcbs s (current_pcb s) = Some c" and p: "p \<in> live s" "p \<noteq> current_pcb s"
    and P: "map_option pdt (pcbs s' p) = map_option pdt (pcbs s p)"
    and m: "\<And>f. f \<notin> avail_frames s \<Longrightarrow> f \<notin> owned (pmem s) (pdt c) \<Longrightarrow> pmem s' f = pmem s f"
    and a: "avail_frames s' \<subseteq> avail_frames s \<union> owned (pmem s) (pdt c)"
  shows "untouched s s' p"
proof -
  from kernel_okD(3) [OF ok] p(1) obtain e where e: "pcbs s p = Some e" "own_space (pdt e) s" by (rule spaces_okD)
  obtain c' where c': "pcbs s (current_pcb s) = Some c'"
    "\<And>q d. q \<in> live s \<Longrightarrow> q \<noteq> current_pcb s \<Longrightarrow> pcbs s q = Some d \<Longrightarrow> owned (pmem s) (pdt c') \<inter> owned (pmem s) (pdt d) = {}"
    by (rule current_process [OF ok]) blast
  have "owned (pmem s) (pdt c) \<inter> owned (pmem s) (pdt e) = {}" using c'(1) c c'(2) [OF p e(1)] by simp
  with e have "f \<notin> avail_frames s" "f \<notin> owned (pmem s) (pdt c)" if "f \<in> owned (pmem s) (pdt e)" for f using that by (auto simp: own_space_def)
  then show ?thesis using e(1) P m a by (auto simp: untouched_def)
qed

lemma fork_step:
  fixes s :: "'a modules_scheme"
  assumes ok: "kernel_ok lo A s"
  obtains r s' A' where "sys_fork frame s = Some (r, frame, s')" "A \<subseteq> A'" "kernel_ok lo A' s'" "live s \<subseteq> live s'" "\<forall>p \<in> live s. untouched s s' p"
    "modules_kept s s'"
proof -
  note k = kernel_okD [OF ok]
  obtain c where c: "pcbs s (current_pcb s) = Some c" "own_space (pdt c) s" by (rule current_process [OF ok])
  from sys_fork_result [OF k(1,2) c, of frame] obtain r s' where r: "sys_fork frame s = Some (r, frame, s')" "sched_at False s'"
    "avail_frames s' \<subseteq> avail_frames s" "\<forall>f. f \<notin> avail_frames s \<longrightarrow> pmem s' f = pmem s f" "around s s'"
    and res: "kernel_inv lo A s' \<and> pcbs s' = pcbs s \<and> ready_list s' = ready_list s \<or> (\<exists>child cc. child \<notin> dom (pcbs s) \<and>
        pcbs s' = (pcbs s)(child \<mapsto> cc) \<and> ready_list s' = ready_list s @ [child] \<and>
        kernel_inv lo (A \<union> {child - 8, kernel_stack_base cc - 8}) s' \<and> own_space (pdt cc) s' \<and> owned (pmem s') (pdt cc) \<subseteq> avail_frames s \<and>
        pde_at (pmem s') (pdt cc) 768 = page_directory s ! 768)"
    by (elim exE conjE disjE) (intro that; blast)+
  obtain N A' where N: "live s' = live s \<union> N" "N \<inter> dom (pcbs s) = {}" "\<forall>p. p \<notin> N \<longrightarrow> pcbs s' p = pcbs s p" "A \<subseteq> A'" "kernel_inv lo A' s'"
    "\<forall>p \<in> N. \<exists>c. pcbs s' p = Some c \<and> own_space (pdt c) s' \<and> owned (pmem s') (pdt c) \<subseteq> avail_frames s \<and> kernel_half (pdt c) s'"
    "\<forall>p \<in> N. \<forall>q \<in> N. p = q"
    using res
  proof (elim disjE exE conjE)
    assume "kernel_inv lo A s'" "pcbs s' = pcbs s" "ready_list s' = ready_list s"
    then show thesis using r(5) by (intro that [of "{}" A]) (auto simp: live_def around_def)
  next
    fix child cc assume "child \<notin> dom (pcbs s)" "pcbs s' = (pcbs s)(child \<mapsto> cc)" "ready_list s' = ready_list s @ [child]"
      "kernel_inv lo (A \<union> {child - 8, kernel_stack_base cc - 8}) s'" "own_space (pdt cc) s'" "owned (pmem s') (pdt cc) \<subseteq> avail_frames s"
      "pde_at (pmem s') (pdt cc) 768 = page_directory s ! 768"
    then show thesis using r(5) by (intro that [of "{child}" "A \<union> {child - 8, kernel_stack_base cc - 8}"]) (auto simp: live_def around_def kernel_half_def)
  qed
  have out: "p \<notin> N" if p: "p \<in> live s" for p
  proof -
    from k(3) p obtain e where "pcbs s p = Some e" by (rule spaces_okD)
    then show ?thesis using N(2) by auto
  qed
  have U: "untouched s s' p" if p: "p \<in> live s" for p
  proof -
    from k(3) p obtain e where e: "pcbs s p = Some e" "own_space (pdt e) s" by (rule spaces_okD)
    then show ?thesis using out [OF p] N(3) r(3,4) by (auto simp: untouched_def own_space_def)
  qed
  have M: "module_frames s \<inter> avail_frames s = {}" using k(3) by (simp add: spaces_on_def)
  then have "spaces_ok (module_frames s) s'"
    using U N(1,6,7) r(3,5) by (intro spaces_ok_step [OF k(3), where N = N]) (auto simp: around_def)
  moreover have t: "loaded_modules s' = loaded_modules s" "loaded_modules_count s' = loaded_modules_count s"
    using r(5) more_modules [of s' s] by (simp_all add: around_def)
  ultimately have "kernel_ok lo A' s'" using r(2,5) N(5) k(4,11) by (intro kernel_okI [of s' lo A' s]) (simp_all add: kernel_inv_def around_def)
  moreover have "modules_kept s s'" using M t r(4) by (auto simp: modules_kept_def)
  ultimately show thesis using r(1) N(1,4) U by (intro that [of r s' A']) auto
qed

lemma exit_step:
  fixes s :: "'a modules_scheme"
  assumes ok: "kernel_ok lo A s" and w: "ready_list s \<noteq> []"
  obtains frame' s' where "sys_exit frame s = Some (Returns (c_eax frame'), frame', s')" "kernel_ok lo A s'" "live s' = live s - {current_pcb s}"
    "\<forall>p \<in> live s - {current_pcb s}. untouched s s' p" "modules_kept s s'"
proof -
  note k = kernel_okD [OF ok]
  obtain c where c: "pcbs s (current_pcb s) = Some c" "own_space (pdt c) s" "owned (pmem s) (pdt c) \<inter> module_frames s = {}"
    by (rule current_process [OF ok])
  from sys_exit_result [OF k(1) w k(5) c(1,2), of frame] obtain frame' s' s1 bm q where
    e: "sys_exit frame s = Some (Returns (c_eax frame'), frame', s')" "sched_inv s'" "mset (current_pcb s' # ready_list s') = mset (ready_list s)"
    "mem_ok s'" "avail_frames s' = avail_frames s \<union> (owned (pmem s) (pdt c) \<inter> managed_frames s)"
    "\<forall>f. f \<noteq> pdt c \<longrightarrow> pmem s' f = pmem s f" "\<forall>p. map_option pdt (pcbs s' p) = map_option pdt (pcbs s p)"
    and s1: "same_memory s s1" "s' = s1\<lparr>bitmap := bm, pmem := (pmem s)(pdt c := q)\<rparr>" by blast
  have "distinct (ready_list s)" "current_pcb s \<notin> set (ready_list s)" using k(10) by (auto simp: asched_inv_def ready_entries_def)
  moreover have "live s' = set (ready_list s)" using e(3) unfolding live_def by (metis list.simps(15) set_mset_mset)
  ultimately have L: "live s' = live s - {current_pcb s}" by (auto simp: live_def)
  have pd: "pdt c \<in> owned (pmem s) (pdt c)" using c(2) by (auto simp: own_space_def space_ok_def owned_def)
  have U: "untouched s s' p" if p: "p \<in> live s" "p \<noteq> current_pcb s" for p
  proof (rule others_untouched [OF ok c(1) p])
    show "pmem s' f = pmem s f" if "f \<notin> owned (pmem s) (pdt c)" for f using that e(6) pd by metis
  qed (use e(5,7) in auto)
  have pd': "page_directory s' = page_directory s" using s1 by (simp add: same_memory_def)
  have "module_frames s \<inter> avail_frames s = {}" using k(3) by (simp add: spaces_on_def)
  then have "spaces_ok (module_frames s) s'"
    by (intro spaces_ok_step [OF k(3), where N = "{}"]) (use U L e(5) c(3) pd' in auto)
  moreover have "heap_ok lo A s'"
    by (rule heap_ok_fields [OF same_memory_heap [OF s1(1) k(6,5)]]) (use e(4) in \<open>simp_all add: s1(2) mem_ok_def\<close>)
  moreover have mo: "sched.more s' = sched.more s" using s1 by (simp add: same_memory_def)
  ultimately have "kernel_ok lo A s'"
    using e(2,4) sched_at_mono(2) [OF e(2)] k(4,7,11) pd' dom_pdt [OF e(7)] more_modules [of s' s] by (intro kernel_okI [of s' lo A s]) simp_all
  moreover have "pdt c \<notin> module_frames s" using pd c(3) by blast
  then have "modules_kept s s'" using more_modules [OF mo] e(6) unfolding modules_kept_def by metis
  ultimately show thesis using e(1) L U by (intro that [of frame' s']) auto
qed

subsection \<open>Exec\<close>

lemma exec_found:
  assumes "table_ok s" and "module_loader_find_module_by_path (Some path) s = Some (Some (a, b))"
  obtains e where "e \<in> table_entries s" "a = mod_start e" "b = mod_end e"
proof -
  let ?Q = "\<lambda>e. path_matches_cmdline path (c_string (cmdline e))" and ?xs = "take (unat (loaded_modules_count s)) (loaded_modules s)"
  obtain e where e: "find ?Q ?xs = Some e" "a = mod_start e" "b = mod_end e"
    using assms find_module_loop_first [of s 0 path] by (auto simp: module_loader_find_module_by_path_def table_ok_def)
  then have "e \<in> set ?xs" unfolding find_Some_iff by (metis nth_mem)
  with e(2,3) show thesis by (intro that) (simp_all add: table_entries_def)
qed

lemma find_module_total: "table_ok s \<Longrightarrow> \<exists>m. module_loader_find_module_by_path (Some path) s = Some m"
  using find_module_loop_first [of s 0 path] by (auto simp: module_loader_find_module_by_path_def table_ok_def)

lemma exec_frame_fields:
  assumes "exec_frame s s'"
  shows "ready_list s' = ready_list s" "rq_ok s' = rq_ok s" "current_pcb s' = current_pcb s" "t_esp0 (tss s') = t_esp0 (tss s)"
    "heap_ok lo A s \<Longrightarrow> pfa_ok s' \<Longrightarrow> heap_ok lo A s'" "loaded_modules s' = loaded_modules s" "loaded_modules_count s' = loaded_modules_count s"
    "page_directory s' = page_directory s"
proof -
  from assms obtain b m P d S l where s': "s' = s\<lparr>bitmap := b, pmem := m, pcbs := P, cr3 := d, stale := S, serial_log := l\<rparr>" "S \<subseteq> stale s"
    unfolding exec_frame_def by blast
  have "ready_at s' = ready_at s" by (simp add: ready_at_def fun_eq_iff s')
  then show "ready_list s' = ready_list s" by (simp add: ready_list_def) (simp add: s')
  show "rq_ok s' = rq_ok s" by (simp add: rq_ok_def s')
  show "current_pcb s' = current_pcb s" "t_esp0 (tss s') = t_esp0 (tss s)"
    "loaded_modules s' = loaded_modules s" "loaded_modules_count s' = loaded_modules_count s" "page_directory s' = page_directory s"
    by (simp_all add: s')
  show "heap_ok lo A s'" if "heap_ok lo A s" "pfa_ok s'" by (rule heap_ok_fields [OF that(1)]) (use that(2) s'(2) in \<open>simp_all add: s'(1)\<close>)
qed

text \<open>The running process gets a new directory, or keeps the one it has.\<close>

lemma exec_sched:
  assumes ok: "kernel_ok lo A s" and ef: "exec_frame s s'" and c: "pcbs s (current_pcb s) = Some c"
    and P: "pcbs s' = (pcbs s)(current_pcb s \<mapsto> c')" "cr3 s' = pdt c'" "kernel_esp0 c' = kernel_esp0 c"
  shows "sched_at False s'"
proof -
  note k = kernel_okD [OF ok] and f = exec_frame_fields [OF ef]
  have "t_esp0 (tss s) = kernel_esp0 c" using k(10) c by (auto simp: asched_inv_def space_inv_def)
  moreover have "current_pcb s \<notin> set (ready_list s)" using k(10) by (simp add: asched_inv_def)
  ultimately have "asched_inv (abs_sched s')"
    using k(10) P f(1,3,4) by (auto simp: asched_inv_def ready_entries_def space_inv_def)
  moreover have "sched_ok s'" by (rule sched_ok_frame [OF k(9) f(1,2) _ f(3)]) (use P(1) in auto)
  ultimately show ?thesis using k(8) f(3) by (simp add: sched_at_def)
qed

text \<open>The part of the effect of \<open>exec\<close> that concerns the other processes.\<close>

definition exec_outcome :: "PCB \<Rightarrow> u32 \<Rightarrow> 'a modules_scheme \<Rightarrow> 'a modules_scheme \<Rightarrow> bool" where
  "exec_outcome c r s s' \<longleftrightarrow> (if r = 0 then
       own_space (cr3 s') s' \<and> owned (pmem s') (cr3 s') \<subseteq> avail_frames s \<and>
       avail_frames s' = avail_frames s - owned (pmem s') (cr3 s') \<union> (owned (pmem s) (pdt c) \<inter> managed_frames s) \<and>
       pcbs s' = (pcbs s)(current_pcb s \<mapsto> c\<lparr>pdt := cr3 s', eip := 0, esp := 0xBFFFFFF8, eflags := eflags c OR 0x200,
          cs := 0x1B, ss := 0x23, state := PROCESS_STATE_READY\<rparr>) \<and>
       (\<forall>f. f \<notin> avail_frames s \<longrightarrow> f \<noteq> pdt c \<longrightarrow> pmem s' f = pmem s f) \<and> pde_at (pmem s') (cr3 s') 768 = page_directory s ! 768
     else cr3 s' = cr3 s \<and> pcbs s' = pcbs s \<and> avail_frames s' = avail_frames s \<and> (\<forall>f. f \<notin> avail_frames s \<longrightarrow> pmem s' f = pmem s f))"

lemma exec_outcome_fields:
  assumes o: "exec_outcome c r s s'" and c: "pcbs s (current_pcb s) = Some c" "own_space (pdt c) s" "cr3 s = pdt c"
  shows "\<exists>c'. pcbs s' = (pcbs s)(current_pcb s \<mapsto> c') \<and> cr3 s' = pdt c' \<and> kernel_esp0 c' = kernel_esp0 c"
    "avail_frames s' \<subseteq> avail_frames s \<union> owned (pmem s) (pdt c)"
    "f \<notin> avail_frames s \<Longrightarrow> f \<notin> owned (pmem s) (pdt c) \<Longrightarrow> pmem s' f = pmem s f"
    "r \<noteq> 0 \<Longrightarrow> untouched s s' (current_pcb s) \<and> avail_frames s' = avail_frames s"
    "r = 0 \<Longrightarrow> \<exists>c. pcbs s' (current_pcb s) = Some c \<and> own_space (pdt c) s' \<and> owned (pmem s') (pdt c) \<subseteq> avail_frames s \<and>
       pde_at (pmem s') (pdt c) 768 = page_directory s ! 768"
proof -
  have pd: "pdt c \<in> owned (pmem s) (pdt c)" using c(2) by (auto simp: own_space_def space_ok_def owned_def)
  show "\<exists>c'. pcbs s' = (pcbs s)(current_pcb s \<mapsto> c') \<and> cr3 s' = pdt c' \<and> kernel_esp0 c' = kernel_esp0 c"
  proof (cases "r = 0")
    case True
    then show ?thesis using o unfolding exec_outcome_def
      by (intro exI [of _ "c\<lparr>pdt := cr3 s', eip := 0, esp := 0xBFFFFFF8, eflags := eflags c OR 0x200, cs := 0x1B, ss := 0x23,
        state := PROCESS_STATE_READY\<rparr>"]) simp
  next
    case False
    then show ?thesis using o c(1,3) by (intro exI [of _ c]) (simp add: exec_outcome_def fun_upd_idem)
  qed
  show "avail_frames s' \<subseteq> avail_frames s \<union> owned (pmem s) (pdt c)" using o unfolding exec_outcome_def by (cases "r = 0") auto
  show "pmem s' f = pmem s f" if "f \<notin> avail_frames s" "f \<notin> owned (pmem s) (pdt c)"
  proof -
    have "f \<noteq> pdt c" using that(2) pd by metis
    then show ?thesis using o that(1) unfolding exec_outcome_def by (cases "r = 0") simp_all
  qed
  show "r \<noteq> 0 \<Longrightarrow> untouched s s' (current_pcb s) \<and> avail_frames s' = avail_frames s"
    using o c(1,2) unfolding exec_outcome_def untouched_def own_space_def by auto
  show "r = 0 \<Longrightarrow> \<exists>c. pcbs s' (current_pcb s) = Some c \<and> own_space (pdt c) s' \<and> owned (pmem s') (pdt c) \<subseteq> avail_frames s \<and>
       pde_at (pmem s') (pdt c) 768 = page_directory s ! 768"
    using o unfolding exec_outcome_def by simp
qed

lemma exec_keeps:
  fixes s :: "'a modules_scheme"
  assumes ok: "kernel_ok lo A s" and c: "pcbs s (current_pcb s) = Some c" and o: "exec_outcome c r s s'" and s': "mem_ok s'" "exec_frame s s'"
  shows "kernel_ok lo A s'" "live s' = live s" "\<forall>p \<in> live s - {current_pcb s}. untouched s s' p" "modules_kept s s'"
proof -
  let ?cur = "current_pcb s"
  note k = kernel_okD [OF ok]
  obtain d where "pcbs s ?cur = Some d" "own_space (pdt d) s" "cr3 s = pdt d" "owned (pmem s) (pdt d) \<inter> module_frames s = {}"
    by (rule current_process [OF ok])
  then have cc: "own_space (pdt c) s" "cr3 s = pdt c" "owned (pmem s) (pdt c) \<inter> module_frames s = {}" using c by simp_all
  have M: "module_frames s \<inter> avail_frames s = {}" using k(3) by (simp add: spaces_on_def)
  note x = exec_outcome_fields [OF o c cc(1,2)] and ef = exec_frame_fields [OF s'(2)]
  obtain c' where c': "pcbs s' = (pcbs s)(?cur \<mapsto> c')" "cr3 s' = pdt c'" "kernel_esp0 c' = kernel_esp0 c" using x(1) by blast
  show L: "live s' = live s" using ef(1,3) by (simp add: live_def)
  have U: "untouched s s' p" if p: "p \<in> live s" "p \<noteq> ?cur" for p
    by (rule others_untouched [OF ok c p _ x(3,2)]) (use c'(1) p in simp_all)
  then show "\<forall>p \<in> live s - {?cur}. untouched s s' p" by blast
  show "modules_kept s s'" using ef(6,7) x(3) M cc(3) unfolding modules_kept_def by blast
  have Ms: "module_frames s \<inter> avail_frames s' = {}" using M cc(3) x(2) by blast
  have "spaces_ok (module_frames s) s'"
  proof (cases "r = 0")
    case True
    then show ?thesis using U L Ms x(5) ef(8) by (intro spaces_ok_step [OF k(3), where N = "{?cur}"]) (auto simp: kernel_half_def)
  next
    case False
    then show ?thesis using U L Ms x(4) ef(8) by (intro spaces_ok_step [OF k(3), where N = "{}"]) auto
  qed
  moreover have "dom (pcbs s') \<subseteq> (\<lambda>a. a + 8) ` A" using k(7) c c'(1) by auto
  moreover have "heap_ok lo A s'" using ef(5) [OF k(6)] s'(1) by (simp add: mem_ok_def)
  ultimately show "kernel_ok lo A s'" using exec_sched [OF ok s'(2) c c'] s'(1) k(4,11) ef(6-8) by (intro kernel_okI [of s' lo A s])
qed

lemma exec_step:
  fixes s :: "'a modules_scheme"
  assumes ok: "kernel_ok lo A s" and cp: "copy_user_string (c_ebx frame) 64 s \<noteq> None"
  obtains r frame' s' where "sys_exec frame s = Some (r, frame', s')" "kernel_ok lo A s'" "live s' = live s"
    "\<forall>p \<in> live s - {current_pcb s}. untouched s s' p" "modules_kept s s'"
proof -
  note fin = that
  note k = kernel_okD [OF ok]
  obtain c where c: "pcbs s (current_pcb s) = Some c" "own_space (pdt c) s" by (rule current_process [OF ok])
  have M: "module_frames s \<inter> avail_frames s = {}" using k(3) by (simp add: spaces_on_def)
  have self: "untouched s s p" if "p \<in> live s" for p
  proof -
    from k(3) that obtain e where "pcbs s p = Some e" "own_space (pdt e) s" by (rule spaces_okD)
    then show ?thesis by (auto simp: untouched_def own_space_def)
  qed
  have same: thesis if "sys_exec frame s = Some (-1, frame, t)" "same_kernel s t" for t
    using that same_kernel_ok [OF ok] same_kernel_fields [OF that(2)] same_kernel_modules [OF that(2)] self by (intro fin [of "-1" frame t]) auto
  obtain y where "copy_user_string (c_ebx frame) 64 s = Some y" using cp by blast
  then consider "copy_user_string (c_ebx frame) 64 s = Some None" | path where "copy_user_string (c_ebx frame) 64 s = Some (Some path)"
    by (cases y) auto
  then show thesis
  proof cases
    case 1
    then show thesis by (intro same [of s]) (simp_all add: sys_exec_def same_kernel_def)
  next
    case (2 path)
    obtain m where m: "module_loader_find_module_by_path (Some (bytes_to_string path)) s = Some m" using find_module_total [OF k(4)] by blast
    show thesis
    proof (cases m)
      case None
      then show thesis using 2 m same_kernel_log(1) by (intro same) (simp_all add: sys_exec_def)
    next
      case (Some ab)
      then obtain a b where ab: "module_loader_find_module_by_path (Some (bytes_to_string path)) s = Some (Some (a, b))" using m by (cases ab) auto
      obtain e where e: "e \<in> table_entries s" "a = mod_start e" "b = mod_end e" by (rule exec_found [OF k(4) ab])
      have sz: "a < b" "b - a \<le> 0xBFFFF000" using k(4) e by (auto simp: table_ok_def)
      have src: "\<forall>v < b - a. pg (a + v) \<notin> avail_frames s" using M e by (auto simp: module_frames_def)
      obtain r frame' s' where r: "sys_exec frame s = Some (r, frame', s')" "mem_ok s'" "exec_frame s s'" and o: "exec_outcome c r s s'"
        using sys_exec_effect [OF k(5,8) c 2 ab sz src] unfolding exec_outcome_def by (metis (no_types, lifting))
      show thesis using r(1) exec_keeps [OF ok c(1) o r(2,3)] by (intro fin [of r frame' s'])
    qed
  qed
qed

end
