(* ===== verification/Kernel_Run.thy ===== *)
theory Kernel_Run
  imports Kernel_Inv
begin

text \<open>
  The running kernel as a state machine.  Its steps are the ways into the kernel (a system call, a timer
  interrupt, another interrupt, each from its entry to the return to user mode) and the stores of the
  program that runs.  Every step succeeds and keeps the invariant of \<open>Kernel_Inv\<close>; a process that waits
  keeps its memory.
\<close>

subsection \<open>System calls\<close>

lemma user_read8_fields: "pmem s' = pmem s \<Longrightarrow> cr3 s' = cr3 s \<Longrightarrow> user_read8 v s' = user_read8 v s"
  by (simp add: user_read8_def user_walk_def)

lemma copy_user_string_fields:
  assumes "pmem s' = pmem s" "cr3 s' = cr3 s"
  shows "copy_user_string u m s' = copy_user_string u m s"
proof -
  have "copy_user_string_loop u i m buf s' = copy_user_string_loop u i m buf s" for i buf
    using assms
  proof (induction u i m buf s rule: copy_user_string_loop.induct)
    case (1 u i m buf s)
    have r: "user_read8 (u + i) s' = user_read8 (u + i) s" using 1(2,3) by (rule user_read8_fields)
    show ?case
      unfolding copy_user_string_loop.simps [of u i m buf s'] copy_user_string_loop.simps [of u i m buf s] r
      using 1 by (cases "user_read8 (u + i) s") (simp_all add: Let_def)
  qed
  then show ?thesis by (simp add: copy_user_string_def)
qed

lemma self_untouched: "spaces_on L M s \<Longrightarrow> p \<in> L \<Longrightarrow> untouched s s p"
  by (erule (1) spaces_okD) (auto simp: untouched_def own_space_def)

text \<open>
  The kernel runs in the address space of the process that was interrupted: its code, its stacks, its heap
  and the page window are found through entry 768 of the directory in \<open>cr3\<close>, which has to be present and
  to be the kernel's.  A handler runs from an entry to a return that both satisfy this; without it the
  processor would not find the handler.
\<close>

definition kernel_mapped :: "'a paging_scheme \<Rightarrow> bool" where
  "kernel_mapped s \<longleftrightarrow> present (pde_at (pmem s) (cr3 s) 768) \<and> kernel_half (cr3 s) s"

definition in_kernel :: "('a paging_scheme \<Rightarrow> ('r \<times> 'a paging_scheme) option) \<Rightarrow> 'a paging_scheme \<Rightarrow> ('r \<times> 'a paging_scheme) option" where
  "in_kernel handler s = (if kernel_mapped s then do {
     (r, s') \<leftarrow> handler s;
     if kernel_mapped s' then Some (r, s') else None } else None)"

lemma kernel_ok_mapped:
  assumes "kernel_ok lo A s"
  shows "kernel_mapped s"
proof -
  obtain c :: PCB where "cr3 s = pdt c" "kernel_half (pdt c) s" by (rule current_process [OF assms])
  then show ?thesis using kernel_okD(11) [OF assms] by (simp add: kernel_mapped_def kernel_half_def)
qed

lemma kernel_mapped_fields:
  "pmem s' = pmem s \<Longrightarrow> cr3 s' = cr3 s \<Longrightarrow> page_directory s' = page_directory s \<Longrightarrow> kernel_mapped s' = kernel_mapped s"
  by (simp add: kernel_mapped_def kernel_half_def)

lemma exit_last:
  fixes s :: "'a modules_scheme"
  assumes ok: "kernel_ok lo A s" and w: "ready_list s = []"
  obtains s' where "sys_exit frame s = Some (Halts, frame, s')" "kernel_mapped s'"
proof -
  note k = kernel_okD [OF ok]
  obtain c where c: "pcbs s (current_pcb s) = Some c" by (rule current_process [OF ok])
  let ?P = "(pcbs s)(current_pcb s \<mapsto> c\<lparr>state := PROCESS_STATE_TERMINATED\<rparr>)"
  define t where "t = log_process_exit (pid c) (s\<lparr>pcbs := ?P\<rparr>)"
  have a: "abs_sched t = (abs_sched s)\<lparr>a_procs := ?P\<rparr>" by (simp add: t_def log_process_exit_def)
  have "rq_ok t = rq_ok s" unfolding t_def log_process_exit_def log_process_stat_frame by (simp add: rq_ok_def)
  then have "sched_ok t" by (intro sched_ok_frame [OF k(9)]) (auto simp: t_def log_process_exit_def)
  from schedule_refines [OF this, of frame False STAT_CONTEXT_EXIT] obtain r ctx' s' where
    r: "scheduler_schedule_from_context (Some frame) False STAT_CONTEXT_EXIT t = Some (r, Some ctx', s')"
    "spec_schedule frame False (abs_sched t) = (r, ctx', abs_sched s')" by blast
  have "r = 0" "ctx' = frame" using spec_schedule_mset(3) [OF r(2)] k(8) w by (simp_all add: a)
  then have run: "sys_exit frame s = Some (Halts, frame, serial_line ''[SYSCALL] exit: sem processos prontos, entrando em idle'' s')"
    using k(8) c r(1) by (simp add: sys_exit_def scheduler_get_current_def t_def)
  have "a_cr3 b = cr3 s" if "spec_schedule frame False (abs_sched t) = (r, ctx', b)" for b
    using that k(8) w by (auto simp: a spec_schedule_def spec_switch_def)
  then have "cr3 s' = cr3 s" using r(2) by simp
  moreover have "same_memory s t" by (simp add: t_def)
  then have "same_memory s s'" using schedule_memory [OF r(1)] by (rule same_memory_trans)
  then have "pmem s' = pmem s" "page_directory s' = page_directory s" by (simp_all add: same_memory_def)
  ultimately have "kernel_mapped (serial_line ''[SYSCALL] exit: sem processos prontos, entrando em idle'' s') = kernel_mapped s"
    by (intro kernel_mapped_fields) (simp_all add: serial_line_def)
  with run show thesis using kernel_ok_mapped [OF ok] by (intro that) simp_all
qed

text \<open>What an event does to the processes: those that wait are not touched.\<close>

definition step_ok :: "nat \<Rightarrow> u32 set \<Rightarrow> 'a modules_scheme \<Rightarrow> 'a modules_scheme \<Rightarrow> bool" where
  "step_ok lo A s s' \<longleftrightarrow> (\<exists>A'. A \<subseteq> A' \<and> kernel_ok lo A' s') \<and> (\<forall>p \<in> live s - {current_pcb s}. p \<in> live s' \<and> untouched s s' p) \<and>
     modules_kept s s'"

lemma step_okI: "A \<subseteq> A' \<Longrightarrow> kernel_ok lo A' s' \<Longrightarrow> live s - {current_pcb s} \<subseteq> live s' \<Longrightarrow>
    \<forall>p \<in> live s - {current_pcb s}. untouched s s' p \<Longrightarrow> modules_kept s s' \<Longrightarrow> step_ok lo A s s'"
  by (auto simp: step_ok_def)

lemma step_ok_same:
  assumes "step_ok lo A t u" and "same_kernel s t" and "same_kernel u v"
  shows "step_ok lo A s v"
  using assms same_kernel_ok [OF _ assms(3)] same_kernel_fields [OF assms(2)] same_kernel_fields [OF assms(3)]
    modules_kept_trans [OF same_kernel_modules [OF assms(2)]] modules_kept_trans [OF _ same_kernel_modules [OF assms(3)]]
  unfolding step_ok_def by metis

lemma same_step:
  assumes "kernel_ok lo A s" and "same_kernel s s'"
  shows "step_ok lo A s s'"
  using same_kernel_ok [OF assms] same_kernel_fields [OF assms(2)] self_untouched [OF kernel_okD(3) [OF assms(1)]]
    same_kernel_modules [OF assms(2)]
  by (intro step_okI [of A A]) auto

lemma syscall_step:
  fixes s :: "'a modules_scheme"
  assumes ok: "kernel_ok lo A s" and ptr: "c_eax frame = 2 \<Longrightarrow> copy_user_string (c_ebx frame) 64 s \<noteq> None"
  obtains (stops) s' where "syscall_handler_128 frame s = Some (None, s')" "c_eax frame = 5" "ready_list s = []" "kernel_mapped s'"
  | (returns) frame' s' where "syscall_handler_128 frame s = Some (Some frame', s')" "step_ok lo A s s'"
proof -
  note stops = that(1) and returns = that(2)
  let ?n = "c_eax frame"
  define u where "u = serial_write_hex ?n (serial_line ''[SYSCALL] syscall recebida: '' s)"
  have su: "same_kernel s u" unfolding u_def using same_kernel_trans same_kernel_log by blast
  have oku: "kernel_ok lo A u" by (rule same_kernel_ok [OF ok su])
  have ru: "ready_list u = ready_list s" using same_kernel_fields(3) [OF su] .
  have refl: "same_kernel v v" for v :: "'a modules_scheme" by (simp add: same_kernel_def)
  have ret: thesis if "syscall_dispatcher ?n frame s = Some (Returns v, frame', s')" "step_ok lo A u s'" for v frame' s'
    using that(1) step_ok_same [OF that(2) su refl] by (intro returns [of "frame'\<lparr>c_eax := v\<rparr>" s']) (simp_all add: syscall_handler_128_def)
  have logged: thesis if "syscall_dispatcher ?n frame s = Some (Returns v, frame, serial_line l u)" for v l
    using ret [OF that same_step [OF oku same_kernel_log(1)]] .
  have call: "syscall_dispatcher ?n frame s = (if ?n = 0 then Some (Returns 0, frame, serial_line ''[SYSCALL] syscall_test chamada!'' u)
     else if ?n = 1 then Some (Returns 0, frame, serial_line ''[SYSCALL] syscall_write chamada!'' u)
     else if ?n = 2 then do { (r, frame, s) \<leftarrow> sys_exec frame u; Some (Returns r, frame, s) }
     else if ?n = 3 then do { (r, frame, s) \<leftarrow> sys_fork frame u; Some (Returns r, frame, s) }
     else if ?n = 4 then do { (r, frame, s) \<leftarrow> sys_yield frame u; Some (Returns r, frame, s) }
     else if ?n = 5 then sys_exit frame u
     else Some (Returns (-1), frame, serial_line ''[SYSCALL] syscall desconhecida!'' u))"
    unfolding syscall_dispatcher_def Let_def u_def ..
  consider "?n = 2" | "?n = 3" | "?n = 4" | "?n = 5" | "?n = 0" | "?n = 1" | "?n \<notin> {0, 1, 2, 3, 4, 5}" by blast
  then show thesis
  proof cases
    case 1
    have "copy_user_string (c_ebx frame) 64 u = copy_user_string (c_ebx frame) 64 s"
      using su by (intro copy_user_string_fields) (simp_all add: same_kernel_def)
    with ptr [OF 1] have "copy_user_string (c_ebx frame) 64 u \<noteq> None" by simp
    from exec_step [OF oku this] obtain r frame' s' where e: "sys_exec frame u = Some (r, frame', s')" "kernel_ok lo A s'" "live s' = live u"
      "\<forall>p \<in> live u - {current_pcb u}. untouched u s' p" "modules_kept u s'" by blast
    show thesis by (rule ret [OF _ step_okI [OF order_refl e(2) _ e(4,5)]]) (use 1 call e(1,3) in simp_all)
  next
    case 2
    from fork_step [OF oku, of frame] obtain r s' A' where e: "sys_fork frame u = Some (r, frame, s')" "A \<subseteq> A'" "kernel_ok lo A' s'"
      "live u \<subseteq> live s'" "\<forall>p \<in> live u. untouched u s' p" "modules_kept u s'" by blast
    show thesis by (rule ret [OF _ step_okI [OF e(2,3)]]) (use 2 call e(1,4,5,6) in auto)
  next
    case 3
    from reschedule [OF oku, of frame STAT_CONTEXT_YIELD] obtain r ctx' s' where
      e: "scheduler_schedule_from_context (Some frame) True STAT_CONTEXT_YIELD u = Some (r, Some ctx', s')"
      "kernel_ok lo A s'" "live s' = live u" "\<forall>p \<in> live u. untouched u s' p" "modules_kept u s'" by blast
    have so: "step_ok lo A u s'" by (rule step_okI [OF order_refl e(2)]) (use e(3,4,5) in auto)
    show thesis
    proof (cases "r < 0")
      case True
      show thesis
        by (rule ret [OF _ step_ok_same [OF so refl same_kernel_log(1)]]) (use True 3 call e(1) in \<open>simp_all add: sys_yield_def\<close>)
    next
      case False
      show thesis by (rule ret [OF _ so]) (use False 3 call e(1) in \<open>simp_all add: sys_yield_def\<close>)
    qed
  next
    case 4
    show thesis
    proof (cases "ready_list s = []")
      case True
      then obtain s' where "sys_exit frame u = Some (Halts, frame, s')" "kernel_mapped s'" using exit_last [OF oku] ru by metis
      then show thesis using True 4 call by (intro stops) (simp_all add: syscall_handler_128_def)
    next
      case False
      then have "ready_list u \<noteq> []" using ru by simp
      from exit_step [OF oku this, of frame] obtain frame' s' where e: "sys_exit frame u = Some (Returns (c_eax frame'), frame', s')"
        "kernel_ok lo A s'" "live s' = live u - {current_pcb u}" "\<forall>p \<in> live u - {current_pcb u}. untouched u s' p"
        "modules_kept u s'" by blast
      show thesis by (rule ret [OF _ step_okI [OF order_refl e(2) _ e(4,5)]]) (use 4 call e(1,3) in simp_all)
    qed
  qed (use call in \<open>auto intro!: logged\<close>)
qed

subsection \<open>Interrupts and the running program\<close>

lemma same_kernel_refl [simp]: "same_kernel s s"
  by (simp add: same_kernel_def)

lemma same_kernel_ack: "same_kernel s (pic_acknowledge i s)"
  by (simp add: same_kernel_def pic_acknowledge_def outb_def)

lemma tick_step:
  fixes s :: "'a modules_scheme"
  assumes ok: "kernel_ok lo A s"
  obtains f' s' where "timer_interrupt_handler (Some f) s = Some (Some f', s')" "step_ok lo A s s'"
proof -
  define t where "t = s\<lparr>pit_ticks := pit_ticks s + 1\<rparr>"
  have st: "same_kernel s t" by (simp add: t_def same_kernel_def)
  show thesis
  proof (cases "preemption_enabled t \<noteq> 0 \<and> f_cs (common f) AND 3 = 3")
    case False
    then have "timer_interrupt_handler (Some f) s = Some (Some f, pic_acknowledge 32 t)"
      by (auto simp: timer_interrupt_handler_def t_def [symmetric])
    moreover have "step_ok lo A s (pic_acknowledge 32 t)" by (rule same_step [OF ok same_kernel_trans [OF st same_kernel_ack]])
    ultimately show thesis by (rule that)
  next
    case True
    define u where "u = (if pit_preemption_probe_logged t = 0
      then (serial_line ''[PIT] preempting path ativo'' t)\<lparr>pit_preemption_probe_logged := 1\<rparr> else t)"
    have su: "same_kernel s u" using st by (simp add: u_def same_kernel_def serial_line_def)
    from reschedule [OF same_kernel_ok [OF ok su], of "frame_user_to_context f" STAT_CONTEXT_PIT] obtain r ctx' s' where
      e: "scheduler_schedule_from_context (Some (frame_user_to_context f)) True STAT_CONTEXT_PIT u = Some (r, Some ctx', s')"
      "kernel_ok lo A s'" "live s' = live u" "\<forall>p \<in> live u. untouched u s' p" "modules_kept u s'" by blast
    have "step_ok lo A u s'" by (rule step_okI [OF order_refl e(2)]) (use e(3,4,5) in auto)
    then have "step_ok lo A s (pic_acknowledge 32 s')" by (rule step_ok_same [OF _ su same_kernel_ack])
    moreover have "timer_interrupt_handler (Some f) s = Some (Some (if r > 0 then frame_context_to_user ctx' f else f), pic_acknowledge 32 s')"
      using True e(1) by (simp add: timer_interrupt_handler_def t_def [symmetric] u_def [symmetric])
    ultimately show thesis by (intro that)
  qed
qed

lemma keyboard_same: "keyboard_handler scan s = Some s' \<Longrightarrow> same_kernel s s'"
  by (auto simp: keyboard_handler_def same_kernel_def fb_write_cell_def fb_move_cursor_def outb_def Let_def bind_eq_Some_conv split: if_splits)

lemma irq_step:
  fixes s :: "'a modules_scheme"
  assumes ok: "kernel_ok lo A s"
  obtains s' where "interrupt_handler n scan s = Some s'" "step_ok lo A s s'"
proof -
  define u where "u = serial_write_hex n (serial_line interrupt_message s)"
  have su: "same_kernel s u" unfolding u_def using same_kernel_trans same_kernel_log by blast
  obtain v where v: "keyboard_handler scan u = Some v" using keyboard_handler_total by blast
  define w where "w = (if n = 0x21 then v else u)"
  have "same_kernel s w" using keyboard_same [OF v] su same_kernel_trans by (auto simp: w_def)
  then have "step_ok lo A s (pic_acknowledge n w)" by (rule same_step [OF ok same_kernel_trans [OF _ same_kernel_ack]])
  moreover have "interrupt_handler n scan s = Some (pic_acknowledge n w)"
    unfolding interrupt_handler_def Let_def u_def [symmetric] w_def using v by simp
  ultimately show thesis by (intro that)
qed

text \<open>
  A store by the program that runs: the page walk finds the byte.  The kernel half is mapped for the
  supervisor alone, so user mode stores below it.
\<close>

definition user_write8 :: "u32 \<Rightarrow> u8 \<Rightarrow> 'a paging_scheme \<Rightarrow> 'a paging_scheme option" where
  "user_write8 v b s = (if v < 0xC0000000 then map_option (\<lambda>pa. s\<lparr>pmem := (pmem s)(pg pa := (pmem s (pg pa))(pa AND 0xFFF := b))\<rparr>)
     (user_walk (cr3 s) v s) else None)"

lemma user_walk_page:
  assumes ok: "space_ok (pmem s) d" and v: "v < 0xC0000000" and w: "user_walk d v s = Some pa"
  shows "pg pa \<in> pages (pmem s) d"
proof -
  note u = user_vaddr [OF v]
  have k: "drop_bit 22 v = (of_nat (pd_of v) :: u32)" "drop_bit 12 v AND 0x3FF = (of_nat (pt_of v) :: u32)"
    by (simp_all add: pd_of_def pt_of_def)
  have p: "present (pde_at (pmem s) d (pd_of v))"
    using w unfolding user_walk_def k Let_def by (auto simp: present_def pde_at_def entry_def split: if_splits)
  then have "pde_at (pmem s) d (pd_of v) AND 0x80 = 0" using space_okD(5) [OF ok] u(2) by (simp add: dir_slots_def)
  then have "present (pte_at (pmem s) d (pd_of v) (pt_of v))" "pa = pg (pte_at (pmem s) d (pd_of v) (pt_of v)) OR (v AND 0xFFF)"
    using w p unfolding user_walk_def k Let_def by (auto simp: present_def pte_at_def pde_at_def entry_def split: if_splits)
  then show ?thesis using pages_slot [OF u(2,3)] by (simp add: bit.conj_disj_distrib2 and.assoc)
qed

lemma store_step:
  assumes ok: "kernel_ok lo A s" and st: "user_write8 v b s = Some s'"
  shows "step_ok lo A s s'"
proof -
  note k = kernel_okD [OF ok]
  obtain c where c: "pcbs s (current_pcb s) = Some c" "own_space (pdt c) s" "cr3 s = pdt c" "owned (pmem s) (pdt c) \<inter> module_frames s = {}"
    "\<And>q d. q \<in> live s \<Longrightarrow> q \<noteq> current_pcb s \<Longrightarrow> pcbs s q = Some d \<Longrightarrow> owned (pmem s) (pdt c) \<inter> owned (pmem s) (pdt d) = {}"
    using current_process [OF ok] by (metis (no_types, lifting))
  obtain pa m where s': "s' = s\<lparr>pmem := m\<rparr>" "m = (pmem s)(pg pa := (pmem s (pg pa))(pa AND 0xFFF := b))" "user_walk (pdt c) v s = Some pa" "v < 0xC0000000"
    using st c(3) by (auto simp: user_write8_def split: if_splits)
  have so: "space_ok (pmem s) (pdt c)" using c(2) by (simp add: own_space_def)
  have g: "pg pa \<in> pages (pmem s) (pdt c)" by (rule user_walk_page [OF so s'(4,3)])
  then have go: "pg pa \<in> owned (pmem s) (pdt c)" by (simp add: owned_def)
  have av: "avail_frames s' = avail_frames s" by (rule avail_fields(1)) (simp_all add: s'(1))
  have L: "live s' = live s" "pcbs s' = pcbs s" "current_pcb s' = current_pcb s" "pmem s' = m" by (simp_all add: s'(1) live_def ready_list_def ready_at_def)
  have U: "untouched s s' p" if "p \<in> live s" "p \<noteq> current_pcb s" for p
    by (rule others_untouched [OF ok c(1) that]) (use s' go av in auto)
  have pdir: "page_directory s' = page_directory s" by (simp add: s'(1))
  have sp: "space_ok m (pdt e) = space_ok (pmem s) (pdt e) \<and> owned m (pdt e) = owned (pmem s) (pdt e) \<and>
    kernel_half (pdt e) s' = kernel_half (pdt e) s" if p: "p \<in> live s" "pcbs s p = Some e" for p e
  proof -
    have "pg pa \<noteq> pg (pdt e)" "pg pa \<notin> tables (pmem s) (pdt e)"
    proof -
      consider "p = current_pcb s" | "p \<noteq> current_pcb s" by blast
      then have "pg pa \<noteq> pg (pdt e) \<and> pg pa \<notin> tables (pmem s) (pdt e)"
      proof cases
        case 1
        then show ?thesis using c(1) p(2) g space_okD(1,3,4) [OF so] by auto
      next
        case 2
        then show ?thesis using c(5) [OF p(1) 2 p(2)] go by (auto simp: owned_def)
      qed
      then show "pg pa \<noteq> pg (pdt e)" "pg pa \<notin> tables (pmem s) (pdt e)" by simp_all
    qed
    then show ?thesis using space_cong(3,4) [of m "pdt e" "pmem s"] s'(2) pdir by (auto simp: kernel_half_def pde_at_def s'(1))
  qed
  have "spaces_ok (module_frames s) s'"
    using k(3) sp unfolding spaces_on_def own_space_def L av by metis
  moreover have "mem_ok s'" using k(5) by (simp add: s'(1) mem_ok_def pfa_ok_def)
  moreover have "heap_ok lo A s'" by (rule heap_ok_fields [OF k(6)]) (use k(5) in \<open>simp_all add: s'(1) mem_ok_def pfa_ok_def\<close>)
  moreover have "sched_at False s'"
  proof -
    have "sched_ok s' = sched_ok s" by (rule sched_fields(2)) (simp_all add: s'(1))
    moreover have "abs_sched s' = abs_sched s" by (simp add: s'(1) abs_sched_def ready_list_def ready_at_def)
    ultimately show ?thesis using k(1) by (simp add: sched_at_def s'(1))
  qed
  ultimately have "kernel_ok lo A s'" using k(4,7,11) by (intro kernel_okI [of s' lo A s]) (simp_all add: s'(1))
  then show ?thesis by (rule step_okI [OF order_refl]) (use L U c(4) go s'(1,2) in \<open>auto simp: modules_kept_def\<close>)
qed

text \<open>
  The kernel as a state machine: from one return to user mode to the next.  A system call that does not
  return (the last process ends, or the pointer of \<open>exec\<close> is not mapped) is no step.
\<close>

inductive kernel_step :: "'a modules_scheme \<Rightarrow> 'a modules_scheme \<Rightarrow> bool" where
  call: "syscall_handler_128 frame s = Some (Some frame', s') \<Longrightarrow> kernel_step s s'"
| tick: "timer_interrupt_handler (Some f) s = Some (Some f', s') \<Longrightarrow> kernel_step s s'"
| irq: "interrupt_handler n scan s = Some s' \<Longrightarrow> kernel_step s s'"
| store: "user_write8 v b s = Some s' \<Longrightarrow> kernel_step s s'"

inductive_cases kernel_stepE: "kernel_step s s'"

lemma kernel_step_ok:
  assumes "kernel_step s s'" and ok: "kernel_ok lo A s"
  shows "step_ok lo A s s'"
  using assms(1)
proof (rule kernel_stepE)
  fix frame frame' assume c: "syscall_handler_128 frame s = Some (Some frame', s')"
  define u where "u = serial_write_hex (c_eax frame) (serial_line ''[SYSCALL] syscall recebida: '' s)"
  have "copy_user_string (c_ebx frame) 64 s \<noteq> None" if two: "c_eax frame = 2"
  proof
    assume "copy_user_string (c_ebx frame) 64 s = None"
    moreover have "copy_user_string (c_ebx frame) 64 u = copy_user_string (c_ebx frame) 64 s"
      by (intro copy_user_string_fields) (simp_all add: u_def serial_line_def serial_write_hex_def)
    ultimately have "syscall_handler_128 frame s = None"
      using two by (simp add: syscall_handler_128_def syscall_dispatcher_def sys_exec_def u_def)
    with c show False by simp
  qed
  then show ?thesis using c by (cases rule: syscall_step [OF ok, of frame]) auto
next
  fix f f' assume "timer_interrupt_handler (Some f) s = Some (Some f', s')"
  then show ?thesis using tick_step [OF ok, of f] by auto
next
  fix n scan assume "interrupt_handler n scan s = Some s'"
  then show ?thesis using irq_step [OF ok, of n scan] by auto
next
  fix v b assume "user_write8 v b s = Some s'"
  then show ?thesis by (rule store_step [OF ok])
qed

subsection \<open>Two processes\<close>

text \<open>Process 1 runs, process 2 waits; each has a page of its own, the kernel's entry, and the heap block of its control block.\<close>

definition sample_pair :: modules where
  "sample_pair = sample_kernel\<lparr>hdrs := (\<lambda>_. \<lparr>hnext = 0, hsize = 0\<rparr>)(0xC0100000 := \<lparr>hnext = 0xC0100000, hsize = 0\<rparr>,
       0xC0110000 := \<lparr>hnext = 0, hsize = 256\<rparr>, 0xC0110800 := \<lparr>hnext = 0, hsize = 256\<rparr>),
     bitmap := (replicate 2048 0)[64 := 7, 128 := 7], page_directory := (replicate 1024 0)[768 := 0x10F003],
     pmem := (pmem sample_exec)(0x200000 := put32 (put32 (\<lambda>_. 0) 0 0x201007) 0xC00 0x10F003,
       0x400000 := put32 (put32 (\<lambda>_. 0) 0 0x401007) 0xC00 0x10F003, 0x401000 := put32 (\<lambda>_. 0) 0 0x402007,
       0x402000 := (\<lambda>off. if off = 0x10 then 0x55 else 0)),
     ready_queue := (replicate 32 0)[31 := 0xC0110808], ready_tail := 0, ready_len := 1,
     pcbs := [0xC0110008 \<mapsto> sample_pcb 1 1 3, 0xC0110808 \<mapsto> sample_pcb 2 0 5]\<rparr>"

lemma sample_pair_sched:
  "ready_list sample_pair = [0xC0110808]" "current_pcb sample_pair = 0xC0110008" "cr3 sample_pair = 0x200000"
  "pcbs sample_pair = [0xC0110008 \<mapsto> sample_pcb 1 1 3, 0xC0110808 \<mapsto> sample_pcb 2 0 5]" "sched_at False sample_pair"
proof -
  let ?s = "sample_pair"
  show l: "ready_list ?s = [0xC0110808]"
  proof -
    have "unat (ready_len ?s) = 1" "ready_at ?s 0 = 0xC0110808"
      by (simp_all add: ready_at_def sample_pair_def sample_kernel_def sample_exec_def sample_modules_def sample_state_def)
    then show ?thesis by (simp add: ready_list_def)
  qed
  show c: "current_pcb ?s = 0xC0110008" "cr3 ?s = 0x200000"
    by (simp_all add: sample_pair_def sample_kernel_def sample_exec_def sample_modules_def sample_state_def)
  show p: "pcbs ?s = [0xC0110008 \<mapsto> sample_pcb 1 1 3, 0xC0110808 \<mapsto> sample_pcb 2 0 5]" by (simp add: sample_pair_def)
  have "rq_ok ?s" by (simp add: rq_ok_def sample_pair_def sample_kernel_def sample_exec_def sample_modules_def sample_state_def)
  moreover have "t_esp0 (tss ?s) = 0xC0200001"
    by (simp add: sample_pair_def sample_kernel_def sample_exec_def sample_modules_def sample_state_def)
  then have "asched_inv (abs_sched ?s)" using l c p by (simp add: asched_inv_def ready_entries_def space_inv_def sample_pcb_def)
  ultimately show "sched_at False ?s" using l c p by (simp add: sched_at_def sched_ok_def queue_ok_def pcbs_valid_def)
qed

lemma sample_pair_memory: "mem_ok sample_pair" "avail_frames sample_pair \<subseteq> avail_frames sample_exec - {0x400000, 0x401000, 0x402000}"
proof -
  let ?s = "sample_pair"
  have "mem_ok sample_kernel" using sample_kernel_facts(2) by (simp add: kernel_inv_def)
  then show "mem_ok ?s" by (simp add: mem_ok_def pfa_ok_def window_closed_def sample_pair_def)
  have b: "bitmap sample_exec = (replicate 2048 0)[64 := 7]" by (simp add: sample_exec_def)
  have "\<exists>k < 16384. f = of_nat k * 4096 \<and> f \<in> avail_frames sample_exec \<and> k \<noteq> 1024 \<and> k \<noteq> 1025 \<and> k \<noteq> 1026" if f: "f \<in> avail_frames ?s" for f
  proof -
    from f obtain k where k: "f = of_nat k * 4096" "300 \<le> k" "k < 16384" "\<not> used (bitmap ?s) k"
      by (auto simp: avail_frames_def free_frames_def sample_pair_def sample_kernel_def sample_exec_def sample_modules_def sample_state_def)
    have n: "k \<noteq> 1024" "k \<noteq> 1025" "k \<noteq> 1026" using k(4) by (auto simp: used_def sample_pair_def bit_simps)
    have "\<not> used (bitmap sample_exec) k" using k(3,4) by (auto simp: b used_def sample_pair_def nth_list_update split: if_splits)
    then have "k \<in> free_frames sample_exec" using k(2,3)
      by (simp add: free_frames_def) (simp add: sample_exec_def sample_modules_def sample_state_def)
    then show ?thesis using k(1,3) n by (auto simp: avail_frames_def)
  qed
  note av = this
  have "f \<in> avail_frames sample_exec - {0x400000, 0x401000, 0x402000}" if f: "f \<in> avail_frames ?s" for f
  proof -
    from av [OF f] obtain k where k: "k < 16384" "f = of_nat k * 4096" "f \<in> avail_frames sample_exec" "k \<noteq> 1024" "k \<noteq> 1025" "k \<noteq> 1026" by blast
    have "unat f = k * 4096" using k(1,2) by (simp add: unat_frame_addr)
    then show ?thesis using k by auto
  qed
  then show "avail_frames ?s \<subseteq> avail_frames sample_exec - {0x400000, 0x401000, 0x402000}" by blast
qed

lemma sample_pair_heap: "heap_ok 0xC0110000 {0xC0110000, 0xC0110800} sample_pair"
proof -
  let ?k = "sample_kernel" and ?s = "sample_pair"
  have km: "kmapped x ?s = kmapped x ?k" for x by (simp add: kmapped_def sample_pair_def)
  have f: "heap_current ?s = heap_current ?k" "base_addr ?s = base_addr ?k" "freep ?s = freep ?k" "heap_max ?s = heap_max ?k"
    "length (page_directory ?s) = 1024" "kernel_page_table ?s = kernel_page_table ?k" by (simp_all add: sample_pair_def)
  have v: "unat (heap_current ?k) = 0xC0111000" "base_addr ?k = 0xC0100000" "freep ?k = 0xC0100000" by (simp_all add: sample_kernel_def)
  have "pfa_ok ?s" using sample_pair_memory(1) by (simp add: mem_ok_def)
  moreover have "heap_mem 0xC0110000 ?k" using sample_kernel_heap by (simp add: heap_ok_def)
  ultimately have m: "heap_mem 0xC0110000 ?s" using km f by (simp add: heap_mem_def paging_ok_def)
  have h: "hdrs ?s 0xC0110000 = \<lparr>hnext = 0, hsize = 256\<rparr>" "hdrs ?s 0xC0110800 = \<lparr>hnext = 0, hsize = 256\<rparr>"
    "hdrs ?s 0xC0100000 = \<lparr>hnext = 0xC0100000, hsize = 0\<rparr>" by (simp_all add: sample_pair_def)
  then have "ring (hdrs ?s) 0xC0100000 []" by (simp add: ring_def links_def)
  moreover have "tiles (hdrs ?s) 0xC0110000 0xC0111000 {0xC0110000, 0xC0110800}" using h by (auto simp: tiles_def bend_def)
  ultimately have "free_list 0xC0110000 {0xC0110000, 0xC0110800} [] ?s" using f v by (simp add: free_list_def blocks_def touching_def)
  then show ?thesis using m by (auto simp: heap_ok_def)
qed

lemma sample_pair_table: "table_ok sample_pair" "f \<in> module_frames sample_pair \<Longrightarrow> f < 0x12C000"
proof -
  have t: "loaded_modules sample_pair = [\<lparr>mod_start = 0x1000, mod_end = 0x1005, cmdline = ''m'' @ [NUL]\<rparr>]" "loaded_modules_count sample_pair = 1"
    by (simp_all add: sample_pair_def sample_kernel_def sample_exec_def)
  then have e: "table_entries sample_pair = {\<lparr>mod_start = 0x1000, mod_end = 0x1005, cmdline = ''m'' @ [NUL]\<rparr>}" by (simp add: table_entries_def)
  show "table_ok sample_pair" using t by (simp add: table_ok_def e)
  have "pg (0x1000 + v) < 0x12C000" if "v < 5" for v :: u32
  proof -
    have "0x1000 + v < 0x12C000" using that by (simp add: word_less_nat_alt unat_word_ariths)
    then show ?thesis using word_and_le2 [of "0x1000 + v" "0xFFFFF000"] by (rule le_less_trans [rotated])
  qed
  then show "f \<in> module_frames sample_pair \<Longrightarrow> f < 0x12C000" by (auto simp: module_frames_def e)
qed

lemma sample_pair_spaces:
  "space_ok (pmem sample_pair) 0x200000" "owned (pmem sample_pair) 0x200000 = {0x200000, 0x201000, 0x202000}"
  "space_ok (pmem sample_pair) 0x400000" "owned (pmem sample_pair) 0x400000 = {0x400000, 0x401000, 0x402000}"
  "pte_at (pmem sample_pair) 0x200000 0 0 = 0x202007" "pte_at (pmem sample_pair) 0x400000 0 0 = 0x402007"
  "pde_at (pmem sample_pair) 0x200000 768 = 0x10F003" "pde_at (pmem sample_pair) 0x400000 768 = 0x10F003"
  by (rule kernel_page_space [where ?e1.0 = "0x201007" and ?e2.0 = "0x202007" and t = "0x201000" and f = "0x202000" and k = "0x10F003"]
        kernel_page_space [where ?e1.0 = "0x401007" and ?e2.0 = "0x402007" and t = "0x401000" and f = "0x402000" and k = "0x10F003"];
      simp add: sample_pair_def sample_exec_def present_def)+

lemma sample_pair_ok: "kernel_ok 0xC0110000 {0xC0110000, 0xC0110800} sample_pair"
proof -
  let ?s = "sample_pair"
  note sp = sample_pair_spaces and sc = sample_pair_sched and av = sample_pair_memory(2)
  have p: "pdt (sample_pcb 1 1 3) = 0x200000" "pdt (sample_pcb 2 0 5) = 0x400000" by (simp_all add: sample_pcb_def)
  have o: "{0x200000, 0x201000, 0x202000} \<inter> avail_frames sample_exec = {}" using sample_exec_facts(6,7) by (simp add: own_space_def)
  have own: "own_space 0x200000 ?s" "own_space 0x400000 ?s" using sp o av by (auto simp: own_space_def)
  have M: "module_frames ?s \<inter> avail_frames ?s = {}" using sample_pair_table(2) sample_exec_facts(9) av by blast
  have "\<not> f < 0x12C000" if "f \<in> {0x200000, 0x201000, 0x202000, 0x400000, 0x401000, 0x402000}" for f :: u32 using that by auto
  then have apart: "{0x200000, 0x201000, 0x202000} \<inter> module_frames ?s = {}" "{0x400000, 0x401000, 0x402000} \<inter> module_frames ?s = {}"
    using sample_pair_table(2) by blast+
  have l: "live ?s = {0xC0110008, 0xC0110808}" using sc by (simp add: live_def)
  have d: "page_directory ?s ! 768 = 0x10F003" by (simp add: sample_pair_def)
  have "spaces_ok (module_frames ?s) ?s"
    unfolding spaces_on_def l sc(4) using M own apart by (simp add: p sp kernel_half_def d)
  then show ?thesis using sc(4,5) sample_pair_memory(1) sample_pair_heap sample_pair_table(1)
    by (simp add: kernel_ok_def kernel_inv_def d present_def)
qed

lemma steps_modules: "kernel_step\<^sup>*\<^sup>* s s' \<Longrightarrow> kernel_ok lo A s \<Longrightarrow> \<exists>A'. A \<subseteq> A' \<and> kernel_ok lo A' s' \<and> modules_kept s s'"
proof (induction rule: rtranclp_induct)
  case base
  then show ?case by (auto simp: modules_kept_def)
next
  case (step t u)
  then obtain B where B: "A \<subseteq> B" "kernel_ok lo B t" "modules_kept s t" by blast
  from kernel_step_ok [OF step(2) B(2)] have "\<exists>A'. B \<subseteq> A' \<and> kernel_ok lo A' u" "modules_kept t u" by (simp_all add: step_ok_def)
  then show ?case using B(1) modules_kept_trans [OF B(3)] by blast
qed

lemma syscall_last:
  fixes s :: "'a modules_scheme"
  assumes ok: "kernel_ok lo A s" and last: "c_eax frame = 5" "ready_list s = []"
  obtains s' where "syscall_handler_128 frame s = Some (None, s')" "kernel_mapped s'"
proof -
  define u where "u = serial_write_hex 5 (serial_line ''[SYSCALL] syscall recebida: '' s)"
  have su: "same_kernel s u" unfolding u_def using same_kernel_trans same_kernel_log by blast
  obtain s' where "sys_exit frame u = Some (Halts, frame, s')" "kernel_mapped s'"
    using exit_last [OF same_kernel_ok [OF ok su]] same_kernel_fields(3) [OF su] last(2) by metis
  then show thesis using last(1) by (intro that [of s']) (simp add: syscall_handler_128_def syscall_dispatcher_def u_def)
qed

text \<open>A process that waits.\<close>

lemma steps_waiting:
  assumes "(\<lambda>s s'. kernel_step s s' \<and> current_pcb s \<noteq> p)\<^sup>*\<^sup>* s s'" and "kernel_ok lo A s" and "p \<in> live s" and c: "pcbs s p = Some c"
  shows "\<exists>A' c'. A \<subseteq> A' \<and> kernel_ok lo A' s' \<and> p \<in> live s' \<and> pcbs s' p = Some c' \<and> pdt c' = pdt c \<and>
    (\<forall>v < 0xC0000000. user_read8 v (s'\<lparr>cr3 := pdt c\<rparr>) = user_read8 v (s\<lparr>cr3 := pdt c\<rparr>))"
  using assms
proof (induction rule: rtranclp_induct)
  case base
  then show ?case by blast
next
  case (step t u)
  then obtain B e where B: "A \<subseteq> B" "kernel_ok lo B t" "p \<in> live t" "pcbs t p = Some e" "pdt e = pdt c"
    "\<forall>v < 0xC0000000. user_read8 v (t\<lparr>cr3 := pdt c\<rparr>) = user_read8 v (s\<lparr>cr3 := pdt c\<rparr>)" by blast
  have k: "kernel_step t u" "current_pcb t \<noteq> p" using step(2) by simp_all
  obtain C where C: "B \<subseteq> C" "kernel_ok lo C u" and pu: "p \<in> live u" "untouched t u p"
    using kernel_step_ok [OF k(1) B(2)] B(3) k(2) unfolding step_ok_def by blast
  from untouchedD [OF kernel_okD(3) [OF B(2)] B(3) pu(2)] obtain e' where
    "pcbs u p = Some e'" "pdt e' = pdt e" "\<forall>v < 0xC0000000. user_read8 v (u\<lparr>cr3 := pdt e'\<rparr>) = user_read8 v (t\<lparr>cr3 := pdt e\<rparr>)"
    using B(4) by (metis option.inject)
  then show ?case using B C pu(1) by (intro exI [of _ C] exI [of _ e']) auto
qed

subsection \<open>Properties\<close>

text \<open>
  C4.  The kernel makes progress from every state of its invariant.  The kernel is mapped in the directory
  with which each handler is entered, and in the one with which it returns or halts; in between there is
  no access through a null or unmapped kernel pointer, no missing process record, no index outside an
  array of the kernel.  A system call returns, whatever its number and its arguments, provided the
  argument of \<open>exec\<close> points into the memory of the process; it comes to a halt exactly if the last process
  exits.  The timer and the other interrupts return from every state; what an interrupt writes to the
  display is a cell up to the cursor of the keyboard, hence on the screen if the cursor is, and always
  within the 128 KB from \<open>0xC00B8000\<close> on, below the kernel image (the cursor is not kept on the screen).
\<close>

theorem kernel_makes_progress:
  assumes "kernel_ok lo A s" and "c_eax frame = 2 \<longrightarrow> copy_user_string (c_ebx frame) 64 s \<noteq> None"
  shows "(\<exists>r s'. in_kernel (syscall_handler_128 frame) s = Some (r, s') \<and> (r = None \<longleftrightarrow> c_eax frame = 5 \<and> ready_list s = [])) \<and>
    (\<exists>f' s'. in_kernel (timer_interrupt_handler (Some f)) s = Some (Some f', s')) \<and>
    (\<exists>s'. in_kernel (\<lambda>s. map_option (Pair ()) (interrupt_handler n scan s)) s = Some ((), s') \<and>
       (\<forall>a. fb s' a \<noteq> fb s a \<longrightarrow> unat a < 131072 \<and> (unat (cursor_pos s) < 2000 \<longrightarrow> unat a < 4000)))"
proof (intro conjI)
  note km = kernel_ok_mapped [OF assms(1)]
  have ret: "kernel_mapped s'" if "step_ok lo A s s'" for s' using that kernel_ok_mapped by (auto simp: step_ok_def)
  show "\<exists>r s'. in_kernel (syscall_handler_128 frame) s = Some (r, s') \<and> (r = None \<longleftrightarrow> c_eax frame = 5 \<and> ready_list s = [])"
  proof (cases "c_eax frame = 5 \<and> ready_list s = []")
    case True
    then obtain s' where "syscall_handler_128 frame s = Some (None, s')" "kernel_mapped s'" using syscall_last [OF assms(1), of frame] by metis
    then show ?thesis using True km by (simp add: in_kernel_def)
  next
    case False
    with assms km ret show ?thesis by (cases rule: syscall_step [OF assms(1), of frame]) (auto simp: in_kernel_def)
  qed
  obtain f' s' where "timer_interrupt_handler (Some f) s = Some (Some f', s')" "step_ok lo A s s'" by (rule tick_step [OF assms(1)])
  then show "\<exists>f' s'. in_kernel (timer_interrupt_handler (Some f)) s = Some (Some f', s')" using km ret by (simp add: in_kernel_def)
  obtain t where t: "interrupt_handler n scan s = Some t" "step_ok lo A s t" by (rule irq_step [OF assms(1)])
  have "unat (cursor_pos s) < 65536" using unsigned_less [of "cursor_pos s", where ?'a = nat] by simp
  then have "unat a < 131072 \<and> (unat (cursor_pos s) < 2000 \<longrightarrow> unat a < 4000)" if "fb t a \<noteq> fb s a" for a
    using interrupt_handler_changed [OF t(1) that] by linarith
  then show "\<exists>s'. in_kernel (\<lambda>s. map_option (Pair ()) (interrupt_handler n scan s)) s = Some ((), s') \<and>
      (\<forall>a. fb s' a \<noteq> fb s a \<longrightarrow> unat a < 131072 \<and> (unat (cursor_pos s) < 2000 \<longrightarrow> unat a < 4000))"
    using t km ret by (simp add: in_kernel_def)
qed

text \<open>
  C2.  The invariant of the kernel holds after any sequence of system calls (those that fail included),
  timer ticks, other interrupts and stores by the running program, in any order.  In particular every
  process keeps a page directory of its own, two processes never share a frame, no frame of a process is
  free, and no boot module is ever overwritten, so that \<open>exec\<close> finds the bytes that the boot loader placed.
\<close>

theorem kernel_keeps_invariant:
  assumes "kernel_step\<^sup>*\<^sup>* s s'" and "kernel_ok lo A s"
  shows "\<exists>A'. A \<subseteq> A' \<and> kernel_ok lo A' s' \<and> modules_kept s s'"
  using assms by (rule steps_modules)

text \<open>
  C3.  Isolation: whatever the other processes do while a process waits (fork, load other programs, end,
  store through any pointer of theirs), and whatever interrupts occur, the process stays in the system
  with the same page directory, and finds every byte of its memory as it left it.
\<close>

theorem waiting_process_isolated:
  assumes "(\<lambda>s s'. kernel_step s s' \<and> current_pcb s \<noteq> p)\<^sup>*\<^sup>* s s'" and "kernel_ok lo A s" and "p \<in> live s" and "pcbs s p = Some c"
  shows "p \<in> live s' \<and> (\<exists>c'. pcbs s' p = Some c' \<and> pdt c' = pdt c) \<and>
    (\<forall>v < 0xC0000000. user_read8 v (s'\<lparr>cr3 := pdt c\<rparr>) = user_read8 v (s\<lparr>cr3 := pdt c\<rparr>))"
  using steps_waiting [OF assms] by blast

theorem kernel_makes_progress_witness:
  "kernel_mapped sample_pair \<and>
   (\<exists>r s'. in_kernel (syscall_handler_128 (sample_context 5)) sample_pair = Some (Some r, s')) \<and>
   (\<exists>f' s'. in_kernel (timer_interrupt_handler (Some (sample_frame 7))) sample_pair = Some (Some f', s')) \<and>
   (\<exists>s'. in_kernel (\<lambda>s. map_option (Pair ()) (interrupt_handler 0x21 0x1E s)) sample_pair = Some ((), s') \<and>
      (\<forall>a. fb s' a \<noteq> fb sample_pair a \<longrightarrow> unat a < 131072))"
proof -
  have m: "kernel_mapped sample_pair"
    by (simp add: kernel_mapped_def kernel_half_def sample_pair_sched(3) sample_pair_spaces(7) present_def) (simp add: sample_pair_def)
  have "c_eax (sample_context 5) = 2 \<longrightarrow> copy_user_string (c_ebx (sample_context 5)) 64 sample_pair \<noteq> None" by (simp add: sample_context_def)
  from kernel_makes_progress [OF sample_pair_ok this, of "sample_frame 7" "0x21" "0x1E"] m show ?thesis
    by (auto simp: sample_pair_sched)
qed

theorem kernel_keeps_invariant_witness:
  "\<exists>frame s' A'. syscall_handler_128 (sample_context 3) sample_pair = Some (Some frame, s') \<and> kernel_ok 0xC0110000 A' s' \<and> pmem s' 0x1000 4 = 0x42"
proof -
  obtain frame s' where c: "syscall_handler_128 (sample_context 3) sample_pair = Some (Some frame, s')"
    by (rule syscall_step [OF sample_pair_ok, of "sample_context 3"]) (simp_all add: sample_context_def)
  then have "kernel_step\<^sup>*\<^sup>* sample_pair s'" by (blast intro: kernel_step.call)
  from kernel_keeps_invariant [OF this sample_pair_ok] obtain A' where A: "kernel_ok 0xC0110000 A' s'" "modules_kept sample_pair s'" by blast
  have "\<lparr>mod_start = 0x1000, mod_end = 0x1005, cmdline = ''m'' @ [NUL]\<rparr> \<in> table_entries sample_pair"
    by (simp add: table_entries_def sample_pair_def sample_kernel_def sample_exec_def)
  then have "pg (0x1000 + 4) \<in> module_frames sample_pair" unfolding module_frames_def by (intro CollectI exI [of _ "\<lparr>mod_start = 0x1000, mod_end = 0x1005, cmdline = ''m'' @ [NUL]\<rparr>"] exI [of _ 4]) simp
  then have "pmem s' 0x1000 = pmem sample_pair 0x1000" using A(2) by (simp add: modules_kept_def)
  moreover have "pmem sample_pair 0x1000 4 = 0x42" by (simp add: sample_pair_def sample_exec_def)
  ultimately show ?thesis using c A(1) by auto
qed

theorem waiting_process_isolated_witness:
  "\<exists>s'. user_write8 0x10 0x99 sample_pair = Some s' \<and> user_read8 0x10 s' = Some 0x99 \<and> user_read8 0x10 (s'\<lparr>cr3 := 0x400000\<rparr>) = Some 0x55"
proof -
  let ?s = "sample_pair"
  note sc = sample_pair_sched and sp = sample_pair_spaces
  have z: "pd_of 0x10 = 0" "pt_of 0x10 = 0" by (simp_all add: pd_of_def pt_of_def)
  have pm: "pmem ?s 0x200000 = put32 (put32 (\<lambda>_. 0) 0 0x201007) (4 * 768) 0x10F003" "pmem ?s 0x201000 = put32 (\<lambda>_. 0) 0 0x202007" "pmem ?s 0x402000 0x10 = 0x55"
    by (simp_all add: sample_pair_def sample_exec_def)
  have pd0: "get32 (pmem ?s 0x200000) 0 = 0x201007" using get32_put32_other [of 768 0] by (simp add: pm(1) get32_put32)
  have w: "user_walk 0x200000 0x10 ?s = Some 0x202010" by (simp add: user_walk_def pd0 pm(2) get32_put32)
  define s' where "s' = ?s\<lparr>pmem := (pmem ?s)(0x202000 := (pmem ?s 0x202000)(0x10 := 0x99))\<rparr>"
  have st: "user_write8 0x10 0x99 ?s = Some s'" using w sc(3) by (simp add: user_write8_def s'_def)
  have step: "(\<lambda>s s'. kernel_step s s' \<and> current_pcb s \<noteq> 0xC0110808)\<^sup>*\<^sup>* ?s s'" using kernel_step.store [OF st] sc(2) by (intro r_into_rtranclp) simp
  have p: "0xC0110808 \<in> live ?s" "pcbs ?s 0xC0110808 = Some (sample_pcb 2 0 5)" "pdt (sample_pcb 2 0 5) = 0x400000"
    using sc by (simp_all add: live_def sample_pcb_def)
  from waiting_process_isolated [OF step sample_pair_ok p(1,2)] have "user_read8 0x10 (s'\<lparr>cr3 := 0x400000\<rparr>) = user_read8 0x10 (?s\<lparr>cr3 := 0x400000\<rparr>)"
    unfolding p(3) by simp
  moreover have "user_read8 0x10 (?s\<lparr>cr3 := 0x400000\<rparr>) = Some 0x55"
    by (simp add: user_read8_pte [OF sp(3)] z sp(6) present_def pm(3))
  moreover have "user_read8 0x10 s' = Some 0x99"
    by (simp add: user_read8_def user_walk_def s'_def sc(3) pd0 pm(2) get32_put32)
  ultimately show ?thesis using st by auto
qed

end
