(* ===== verification/Boot.thy ===== *)
theory Boot
  imports Kernel_Run
begin

text \<open>
  The boot sequence, \<open>src/kernel/kmain.c\<close>: every component is initialised, a process is created for each
  boot module, and the first of them is entered in user mode.  The addresses the linker and
  \<open>loader.s\<close> fix are the record \<open>layout\<close>; the multiboot information is the list of modules and their
  number.
\<close>

record layout =
  kernel_physical_end :: u32
  kernel_virtual_end :: u32
  kernel_page_table_addr :: u32
  kernel_stack_top :: u32
  gdt_addr :: u32
  idt_addr :: u32
  tss_addr :: u32
  handler_32 :: u32
  handler_33 :: u32
  handler_39 :: u32
  handler_47 :: u32
  handler_128 :: u32

text \<open>The kernel ends its boot in user mode or in the idle loop.\<close>

datatype boot_end = Enters user_entry | Idles

text \<open>
  \<open>loader.s\<close>: the page directory of its data section, with one large page at 0 and one at \<open>0xC0000000\<close>, is
  loaded, paging is switched on, and \<open>kmain\<close> is called with the virtual address of the multiboot
  information.
\<close>

definition boot_page_directory :: "u32 list" where
  "boot_page_directory = (replicate 1024 0)[0 := 0x83, 768 := 0x83]"

definition loader :: "u32 \<Rightarrow> u32 \<Rightarrow> 'a paging_scheme \<Rightarrow> u32 \<times> 'a paging_scheme" where
  "loader page_directory_addr ebx s =
     (ebx + 0xC0000000, update_cr3 (page_directory_addr - 0xC0000000) (s\<lparr>page_directory := boot_page_directory\<rparr>))"

text \<open>Lines 47-53: the frames of the modules after the first.\<close>

definition reserve_modules :: "multiboot_module list \<Rightarrow> u32 \<Rightarrow> 'a pfa_scheme \<Rightarrow> 'a pfa_scheme option" where
  "reserve_modules mods mods_count s =
     (if mods_count > 1 then
        for_range 1 (unat mods_count) (\<lambda>i s. do {
          m \<leftarrow> arr_get mods (of_nat i);
          pfa_reserve_range (mb_start m) (mb_end m) s }) s
      else Some s)"

text \<open>Lines 101-115: a process for each module, the first one kept, the others enqueued.\<close>

definition create_processes :: "multiboot_module list \<Rightarrow> u32 \<Rightarrow> 'a sched_scheme \<Rightarrow> (u32 \<times> 'a sched_scheme) option" where
  "create_processes mods mods_count s =
     for_range 0 (unat mods_count) (\<lambda>i (first_pcb, s). do {
       let s = serial_line ''Criando PCB para modulo GRUB'' s;
       m \<leftarrow> arr_get mods (of_nat i);
       (pcb, s) \<leftarrow> create_pcb_grub_modules (mb_start m) (mb_end m) s;
       if pcb = 0 then Some (first_pcb, s)
       else if first_pcb = 0 then Some (pcb, s)
       else do {
         s \<leftarrow> pcb_update pcb (\<lambda>c. c\<lparr>state := PROCESS_STATE_READY\<rparr>) s;
         (r, s) \<leftarrow> scheduler_enqueue_ready pcb s;
         Some (first_pcb, if r < 0 then serial_line ''[SCHED] fila READY cheia ao inserir modulo'' s else s) } }) (0, s)"

definition paging_message :: string where
  "paging_message = ''[SYS - PAGING] Kernel modificada para p'' @ [CHR 0xC3, CHR 0xA1] @ ''ginas com 4KB''"

text \<open>Lines 34-95: the components in their order.\<close>

definition kmain_init :: "layout \<Rightarrow> multiboot_module list \<Rightarrow> u32 \<Rightarrow> 'a modules_scheme \<Rightarrow> (multiboot_module list option \<times> 'a modules_scheme) option" where
  "kmain_init l mods mods_count s = do {
     let mem_start = (kernel_physical_end l + 0xFFF) AND NOT 0xFFF;
     let mem_end = 64 * 1024 * 1024;
     let (md, s) = get_module_list mods mods_count s;
     (mstart, mend) \<leftarrow> (case md of None \<Rightarrow> Some (0, 0)
        | Some ms \<Rightarrow> do { m \<leftarrow> arr_get ms 0; Some (mb_start m, mb_end m) });
     s \<leftarrow> module_loader_set_modules md mods_count s;
     s \<leftarrow> pfa_init mem_start mem_end mstart mend s;
     s \<leftarrow> (case md of None \<Rightarrow> Some s | Some ms \<Rightarrow> reserve_modules ms mods_count s);
     let s = serial_line ''[SYS - PAGING] PFA inicializado com sucesso'' s;
     s \<leftarrow> paging_init (kernel_physical_end l) (kernel_page_table_addr l) s;
     let s = serial_line paging_message s;
     let s = kheap_init (kernel_virtual_end l) s;
     let s = serial_line ''[SYS - HEAP] Kernel Heap inicializado'' s;
     s \<leftarrow> init_gdt (gdt_addr l) 6 s;
     let s = serial_line ''[SYS] Iniciou GDT'' s;
     s \<leftarrow> tss_init (tss_addr l) 0x10 (kernel_stack_top l) s;
     s \<leftarrow> init_idt (idt_addr l) (handler_32 l) (handler_33 l) (handler_39 l) (handler_47 l) (handler_128 l) s;
     let s = pit_init 10 s;
     let s = scheduler_init s;
     let s = kernel_enable_preemption s;
     let s = serial_line ''[SCHED] preempcao PIT habilitada'' s;
     let s = scheduler_set_quantum 3 s;
     let s = scheduler_set_policy POLICY_SJF s;
     Some (md, s) }"

definition kmain :: "layout \<Rightarrow> multiboot_module list \<Rightarrow> u32 \<Rightarrow> 'a modules_scheme \<Rightarrow> (boot_end \<times> 'a modules_scheme) option" where
  "kmain l mods mods_count s = do {
     (md, s) \<leftarrow> kmain_init l mods mods_count s;
     case md of
       Some ms \<Rightarrow>
         (if mods_count > 0 then do {
            (first_pcb, s) \<leftarrow> create_processes ms mods_count s;
            if first_pcb \<noteq> 0 then do {
              let s = serial_line ''Executando modulo em user mode'' s;
              (e, s) \<leftarrow> run_user_mode_module first_pcb s;
              Some (case e of None \<Rightarrow> Idles | Some e \<Rightarrow> Enters e, s) }
            else Some (Idles, serial_line ''Falha ao criar PCB para modulos GRUB'' s) }
          else Some (Idles, serial_line ''Nenhum modulo encontrado'' s))
     | None \<Rightarrow> Some (Idles, serial_line ''Nenhum modulo encontrado'' s) }"

end
