(* ===== verification/Boot_Sound.thy ===== *)
theory Boot_Sound
  imports Boot
begin

text \<open>
  The boot sequence brings the kernel into a state of its invariant.  The loop of \<open>kmain\<close> over the modules
  keeps \<open>booting\<close>, the part of the invariant that holds while no process runs yet; entering the first process
  completes it.  The initialisation of the components, from the image in memory on, establishes it.
\<close>

subsection \<open>A process for each module\<close>

text \<open>A control block as process creation leaves it.\<close>

definition fresh_process :: "PCB \<Rightarrow> bool" where
  "fresh_process c \<longleftrightarrow> state c = PROCESS_STATE_READY \<and> eip c = 0 \<and> esp c = 0xBFFFFFFB \<and> eflags c = 0x200 \<and> cs c = 0x1B \<and> ss c = 0x23"

text \<open>
  The kernel between two modules: the processes \<open>ps\<close> have been made, the first is not in the ready queue,
  the others are, in their order.
\<close>

definition booting :: "nat \<Rightarrow> u32 set \<Rightarrow> u32 set \<Rightarrow> u32 list \<Rightarrow> 'a sched_scheme \<Rightarrow> bool" where
  "booting lo M A ps t \<longleftrightarrow> rq_ok t \<and> ready_list t = tl ps \<and> current_pcb t = 0 \<and> kernel_inv lo A t \<and> page_directory t ! 0 = 0x83 \<and>
     present (page_directory t ! 768) \<and>
     distinct ps \<and> 0 \<notin> set ps \<and> (\<forall>p \<in> set ps. \<exists>c. pcbs t p = Some c \<and> fresh_process c) \<and> spaces_on (set ps) M t"

lemma bootingD:
  assumes "booting lo M A ps t"
  shows "rq_ok t" "ready_list t = tl ps" "current_pcb t = 0" "mem_ok t" "heap_ok lo A t" "dom (pcbs t) \<subseteq> (\<lambda>a. a + 8) ` A"
    "page_directory t ! 0 = 0x83" "distinct ps" "0 \<notin> set ps" "\<forall>p \<in> set ps. \<exists>c. pcbs t p = Some c \<and> fresh_process c"
    "spaces_on (set ps) M t" "M \<inter> avail_frames t = {}" "set ps \<subseteq> dom (pcbs t)" "present (page_directory t ! 768)"
  using assms by (auto simp: booting_def kernel_inv_def spaces_on_def)

lemma queue_only_kept:
  fixes t :: "'a sched_scheme"
  assumes "queue_only t t'"
  shows "pmem t' = pmem t" "avail_frames t' = avail_frames t" "pcbs t' = pcbs t" "heap_current t' = heap_current t" "around t t'"
    "mem_ok t \<Longrightarrow> mem_ok t'" "mem_ok t \<Longrightarrow> heap_ok lo A t \<Longrightarrow> heap_ok lo A t'"
proof -
  from assms obtain a b d e g where f: "t' = t\<lparr>ready_queue := a, ready_head := b, ready_tail := d, ready_len := e, serial_log := g\<rparr>"
    unfolding queue_only_def by blast
  note av = avail_fields [of t' t]
  show "pmem t' = pmem t" "pcbs t' = pcbs t" "heap_current t' = heap_current t" "avail_frames t' = avail_frames t" using av(1) by (simp_all add: f)
  show "around t t'" using av(2) by (simp add: around_def) (simp add: f)
  show "mem_ok t'" if "mem_ok t" using that av(3) by (simp add: mem_ok_def window_closed_def f)
  show "heap_ok lo A t'" if "mem_ok t" "heap_ok lo A t"
    by (rule heap_ok_fields [OF that(2)]) (use that(1) av(3) in \<open>simp_all add: f mem_ok_def\<close>)
qed

lemma queue_only_log: "queue_only t (t\<lparr>serial_log := g\<rparr>)"
  unfolding queue_only_def
  by (rule exI [of _ "ready_queue t"], rule exI [of _ "ready_head t"], rule exI [of _ "ready_tail t"], rule exI [of _ "ready_len t"], rule exI [of _ g]) simp

lemma queue_only_refl: "queue_only t t"
  using queue_only_log [of t "serial_log t"] by simp

lemma around_trans: "around s t \<Longrightarrow> around t u \<Longrightarrow> around s u"
  by (simp add: around_def)

text \<open>The bytes of a module in the memory of a process.\<close>

definition runs_module :: "(u32 \<Rightarrow> page) \<Rightarrow> 'a sched_scheme \<Rightarrow> multiboot_module \<Rightarrow> u32 \<Rightarrow> bool" where
  "runs_module m t md p \<longleftrightarrow> (\<exists>c. pcbs t p = Some c \<and> (\<forall>v < loaded_size (mb_start md) (mb_end md).
     user_read8 v (t\<lparr>cr3 := pdt c\<rparr>) = Some (phys_byte m (mb_start md + v))))"

lemma loaded_size_le: "loaded_size a b \<le> 4096"
  by (auto simp: loaded_size_def)

lemma image_of_module:
  assumes "\<forall>v < 0xC0000000. user_read8 v (t\<lparr>cr3 := d\<rparr>) = first_image m a (loaded_size a b) f1 f2 v" and "v < loaded_size a b"
  shows "user_read8 v (t\<lparr>cr3 := d\<rparr>) = Some (phys_byte m (a + v))"
proof -
  have "v < 4096" using assms(2) loaded_size_le by (rule less_le_trans)
  moreover from this have "v < 0xC0000000" by (rule less_trans) simp
  ultimately show ?thesis using assms by (simp add: first_image_def)
qed

lemma boot_step:
  fixes t :: "'a sched_scheme"
  assumes B: "booting lo M A ps t" and low: "unat (mb_start md) + unat (loaded_size (mb_start md) (mb_end md)) \<le> 0x400000"
    and src: "\<forall>v < loaded_size (mb_start md) (mb_end md). pg (mb_start md + v) \<in> M"
    and av: "9 \<le> card (avail_frames t)" and hp: "unat (heap_current t) + 12288 \<le> 0xC03FF000" and len: "length ps \<le> 32"
  obtains p t1 t' A' where "create_pcb_grub_modules (mb_start md) (mb_end md) t = Some (p, t1)" "p \<noteq> 0" "ps = [] \<longrightarrow> t' = t1"
    "ps \<noteq> [] \<longrightarrow> pcb_update p (\<lambda>c. c\<lparr>state := PROCESS_STATE_READY\<rparr>) t1 = Some t1 \<and> scheduler_enqueue_ready p t1 = Some (0, t')"
    "booting lo M A' (ps @ [p]) t'" "card (avail_frames t) \<le> card (avail_frames t') + 9" "unat (heap_current t') \<le> unat (heap_current t) + 12288"
    "\<forall>q \<in> set ps. untouched t t' q" "\<forall>f \<in> M. pmem t' f = pmem t f" "around t t'" "runs_module (pmem t) t' md p"
proof -
  let ?a = "mb_start md" and ?b = "mb_end md"
  note D = bootingD [OF B]
  have pf: "pfa_ok t" using D(4) by (simp add: mem_ok_def)
  obtain q d k f1 f2 t1 where g: "create_pcb_grub_modules ?a ?b t = Some (q + 8, t1)" "q + 8 \<noteq> 0" "pcbs t (q + 8) = None"
      "making lo t (insert k (insert q A)) ((pcbs t)(q + 8 \<mapsto> (fresh_pcb (next_pid t) d k)\<lparr>esp := 0xBFFFFFFB\<rparr>)) d {} t1"
      "\<forall>v < 0xC0000000. user_read8 v (t1\<lparr>cr3 := d\<rparr>) = first_image (pmem t) ?a (loaded_size ?a ?b) f1 f2 v"
      "card (avail_frames t) \<le> card (avail_frames t1) + 9" "unat (heap_current t1) \<le> unat (heap_current t) + 12288"
      "pde_at (pmem t1) d 768 = page_directory t ! 768"
  proof (rule create_module_cases [OF stage_start [OF D(4,5)] pf D(6) refl low _ D(7) av])
    show "pg (?a + v) \<notin> avail_frames t" if "v < loaded_size ?a ?b" for v using src D(12) that by blast
  qed (use hp in simp, rule that)
  let ?c = "(fresh_pcb (next_pid t) d k)\<lparr>esp := 0xBFFFFFFB\<rparr>" and ?p = "q + 8" and ?A = "insert k (insert q A)"
  note K = makingD [OF g(4)]
  have st: "quiet t t1" "mem_ok t1" "heap_ok lo ?A t1" "pcbs t1 = (pcbs t)(?p \<mapsto> ?c)" "avail_frames t1 \<subseteq> avail_frames t"
    "\<forall>f. f \<notin> avail_frames t \<longrightarrow> pmem t1 f = pmem t f" using K(1) by (simp_all add: stage_def)
  note qs = quiet_sched [OF st(1)]
  have fp: "fresh_process ?c" "pdt ?c = d" by (simp_all add: fresh_process_def fresh_pcb_def new_pcb_def)
  obtain t' where t': "queue_only t1 t'" "rq_ok t'" "ready_list t' = tl (ps @ [?p])" "ps = [] \<Longrightarrow> t' = t1"
    "ps \<noteq> [] \<Longrightarrow> scheduler_enqueue_ready ?p t1 = Some (0, t')"
  proof (cases "ps = []")
    case True
    then show thesis using qs(1,2) D(1,2) by (intro that [of t1] queue_only_refl) auto
  next
    case False
    have "length (ready_list t1) < 32" using len False D(2) qs(1) by (cases ps) auto
    from fifo.enq_appends [OF _ g(2) this] qs(2) D(1) obtain t' where "scheduler_enqueue_ready ?p t1 = Some (0, t')" "rq_ok t'" "queue_only t1 t'"
      "ready_list t' = ready_list t1 @ [?p]" by blast
    then show thesis using False qs(1) D(2) by (intro that [of t']) (cases ps; auto)+
  qed
  note Q = queue_only_kept [OF t'(1)]
  have new: "?p \<notin> set ps" using D(13) g(3) by auto
  have U: "untouched t t' x" if x: "x \<in> set ps" for x
  proof -
    from D(11) x obtain e where e: "pcbs t x = Some e" "own_space (pdt e) t" by (rule spaces_okD)
    then show ?thesis using Q(1-3) st(4-6) new x by (auto simp: untouched_def own_space_def)
  qed
  have "own_space d t'" using K(3,4,9) Q(1,2) by (auto simp: own_space_def)
  moreover have "owned (pmem t') d \<subseteq> avail_frames t" using K(7) Q(1) by simp
  moreover have ar: "around t t'" using around_trans [OF quiet_around [OF st(1)] Q(5)] .
  moreover have "kernel_half d t'" using g(8) Q(1) ar by (simp add: kernel_half_def around_def)
  ultimately have sp: "spaces_on (set (ps @ [?p])) M t'"
    using U D(12) st(4,5) Q(2,3) fp(2) by (intro spaces_ok_step [OF D(11), where N = "{?p}"]) (auto simp: around_def)
  have "kernel_inv lo ?A t'" using Q(6,7) st(2,3,4) Q(3) D(6) by (auto simp: kernel_inv_def)
  then have "booting lo M ?A (ps @ [?p]) t'"
    using t'(2,3) ar D(3,7,8,9,10,14) g(2) new sp fp(1) Q(3) st(4) by (auto simp: booting_def around_def)
  moreover have "runs_module (pmem t) t' md ?p"
    using image_of_module [OF g(5)] user_read8_fields [of "t'\<lparr>cr3 := d\<rparr>" "t1\<lparr>cr3 := d\<rparr>"] Q(1,3) st(4) fp(2) by (auto simp: runs_module_def)
  moreover have "pcb_update ?p (\<lambda>c. c\<lparr>state := PROCESS_STATE_READY\<rparr>) t1 = Some t1"
    using st(4) by (simp add: pcb_update_def fresh_pcb_def new_pcb_def)
  moreover have "\<forall>f \<in> M. pmem t' f = pmem t f" using st(6) D(12) Q(1) by auto
  ultimately show thesis using g(1,2,6,7) t'(4,5) U ar Q(2,4) by (intro that [of ?p t1 t' ?A]) auto
qed

lemma runs_module_kept:
  assumes "spaces_on L M t" "p \<in> L" "untouched t t' p" "runs_module m t md p"
  shows "runs_module m t' md p"
proof -
  from untouchedD [OF assms(1-3)] obtain c c' where c: "pcbs t p = Some c" "pcbs t' p = Some c'"
    "\<forall>v < 0xC0000000. user_read8 v (t'\<lparr>cr3 := pdt c'\<rparr>) = user_read8 v (t\<lparr>cr3 := pdt c\<rparr>)" by metis
  have "v < 0xC0000000" if "v < loaded_size (mb_start md) (mb_end md)" for v
  proof -
    have "v < 4096" using that loaded_size_le by (rule less_le_trans)
    then show ?thesis by (rule less_trans) simp
  qed
  then show ?thesis using c assms(4) by (auto simp: runs_module_def)
qed

lemma runs_module_mem:
  assumes "runs_module m t md p" and "\<forall>v < loaded_size (mb_start md) (mb_end md). m (pg (mb_start md + v)) = m' (pg (mb_start md + v))"
  shows "runs_module m' t md p"
  using assms by (auto simp: runs_module_def phys_byte_def)

lemma boot_log:
  fixes t :: "'a sched_scheme"
  shows "booting lo M A ps (serial_line l t) = booting lo M A ps t" "around t (serial_line l t)" "heap_current (serial_line l t) = heap_current t"
    "untouched (serial_line l t) t' p = untouched t t' p"
proof -
  let ?u = "serial_line l t"
  have q: "queue_only t ?u" "queue_only ?u t"
    using queue_only_log [of t] queue_only_log [of ?u "serial_log t"] by (simp_all add: serial_line_def)
  note f = queue_only_kept [OF q(1)] and b = queue_only_kept [OF q(2)]
  show "around t ?u" "heap_current ?u = heap_current t" "untouched ?u t' p = untouched t t' p" using f(1-5) by (simp_all add: untouched_def)
  have "kernel_inv lo A ?u = kernel_inv lo A t" unfolding kernel_inv_def f(3) using f(6) f(7) [of lo A] b(6) b(7) [of lo A] by blast
  moreover have "spaces_on (set ps) M ?u = spaces_on (set ps) M t"
    using f(1-3,5) by (simp add: spaces_on_def own_space_def kernel_half_def around_def)
  moreover have "rq_ok ?u = rq_ok t" "ready_list ?u = ready_list t" "current_pcb ?u = current_pcb t" "page_directory ?u = page_directory t"
    by (simp_all add: serial_line_def rq_ok_def ready_list_def ready_at_def)
  ultimately show "booting lo M A ps ?u = booting lo M A ps t" using f(3) by (simp add: booting_def)
qed

text \<open>The loop of \<open>kmain\<close> over the modules.\<close>

definition boot_progress :: "nat \<Rightarrow> u32 set \<Rightarrow> multiboot_module list \<Rightarrow> 'a sched_scheme \<Rightarrow> nat \<Rightarrow> u32 \<times> 'a sched_scheme \<Rightarrow> bool" where
  "boot_progress lo M mods s i = (\<lambda>(first, t). \<exists>A ps. length ps = i \<and> first = (if ps = [] then 0 else hd ps) \<and> booting lo M A ps t \<and>
     9 * (length mods - i) \<le> card (avail_frames t) \<and> unat (heap_current t) + 12288 * (length mods - i) \<le> 0xC03FF000 \<and>
     list_all2 (runs_module (pmem s) t) (take i mods) ps \<and> (\<forall>f \<in> M. pmem t f = pmem s f) \<and> around s t)"

lemma create_processes_result:
  fixes s :: "'a sched_scheme"
  assumes B: "booting lo M A [] s" and n: "length mods = unat cnt" "length mods \<le> 33"
    and low: "\<forall>md \<in> set mods. unat (mb_start md) + unat (loaded_size (mb_start md) (mb_end md)) \<le> 0x400000"
    and src: "\<forall>md \<in> set mods. \<forall>v < loaded_size (mb_start md) (mb_end md). pg (mb_start md + v) \<in> M"
    and av: "9 * length mods \<le> card (avail_frames s)" and hp: "unat (heap_current s) + 12288 * length mods \<le> 0xC03FF000"
  shows "\<exists>first t. create_processes mods cnt s = Some (first, t) \<and> boot_progress lo M mods s (length mods) (first, t)"
proof -
  let ?P = "boot_progress lo M mods s"
  define body where "body = (\<lambda>i (first_pcb, s). do {
       let s = serial_line ''Criando PCB para modulo GRUB'' s;
       m \<leftarrow> arr_get mods (of_nat i);
       (pcb, s) \<leftarrow> create_pcb_grub_modules (mb_start m) (mb_end m) s;
       if pcb = 0 then Some (first_pcb, s)
       else if first_pcb = 0 then Some (pcb, s)
       else do {
         s \<leftarrow> pcb_update pcb (\<lambda>c. c\<lparr>state := PROCESS_STATE_READY\<rparr>) s;
         (r, s) \<leftarrow> scheduler_enqueue_ready pcb s;
         Some (first_pcb, if r < 0 then serial_line ''[SCHED] fila READY cheia ao inserir modulo'' s else (s :: 'a sched_scheme)) } })"
  have "\<exists>r. for_range 0 (length mods) body (0, s) = Some r \<and> ?P (length mods) r"
  proof (rule for_range_rule)
    show "?P 0 (0, s)" using B av hp unfolding boot_progress_def by (auto simp: around_def)
  next
    fix i and ft :: "u32 \<times> 'a sched_scheme" assume i: "i < length mods" and P: "?P i ft"
    obtain first t where ft: "ft = (first, t)" by (cases ft)
    from P obtain A ps where ps: "length ps = i" "first = (if ps = [] then 0 else hd ps)" "booting lo M A ps t"
      "9 * (length mods - i) \<le> card (avail_frames t)" "unat (heap_current t) + 12288 * (length mods - i) \<le> 0xC03FF000"
      "list_all2 (runs_module (pmem s) t) (take i mods) ps" "\<forall>f \<in> M. pmem t f = pmem s f" "around s t" by (auto simp: boot_progress_def ft)
    let ?t = "serial_line ''Criando PCB para modulo GRUB'' t" and ?m = "mods ! i"
    have mi: "?m \<in> set mods" using i by simp
    obtain k where k: "length mods - i = Suc k" using i by (cases "length mods - i") auto
    then have k': "length mods - Suc i = k" by simp
    have b: "booting lo M A ps ?t" "9 \<le> card (avail_frames ?t)" "unat (heap_current ?t) + 12288 \<le> 0xC03FF000" "length ps \<le> 32"
      using ps(1,3,4,5) k i n(2) by (simp_all add: boot_log)
    from low src mi have m: "unat (mb_start ?m) + unat (loaded_size (mb_start ?m) (mb_end ?m)) \<le> 0x400000"
      "\<forall>v < loaded_size (mb_start ?m) (mb_end ?m). pg (mb_start ?m + v) \<in> M" by blast+
    obtain p t1 t' A' where r: "create_pcb_grub_modules (mb_start ?m) (mb_end ?m) ?t = Some (p, t1)" "p \<noteq> 0" "ps = [] \<longrightarrow> t' = t1"
      "ps \<noteq> [] \<longrightarrow> pcb_update p (\<lambda>c. c\<lparr>state := PROCESS_STATE_READY\<rparr>) t1 = Some t1 \<and> scheduler_enqueue_ready p t1 = Some (0, t')"
      "booting lo M A' (ps @ [p]) t'" "card (avail_frames ?t) \<le> card (avail_frames t') + 9" "unat (heap_current t') \<le> unat (heap_current ?t) + 12288"
      "\<forall>q \<in> set ps. untouched ?t t' q" "\<forall>f \<in> M. pmem t' f = pmem ?t f" "around ?t t'" "runs_module (pmem ?t) t' ?m p"
      by (rule boot_step [OF b(1) m b(2,3,4)])
    have u: "unat (of_nat i :: u32) = i"
    proof -
      have "i < 2 ^ 32" using i n(2) by simp
      then show ?thesis by (simp add: unat_of_nat)
    qed
    have f0: "ps \<noteq> [] \<Longrightarrow> first \<noteq> 0" using ps(2) bootingD(9) [OF ps(3)] by (cases ps) auto
    have run: "body i (first, t) = Some (if ps = [] then p else first, t')"
    proof (cases "ps = []")
      case True
      then show ?thesis using r(1-3) ps(2) u i by (simp add: body_def)
    next
      case False
      then show ?thesis using r(1,2) r(4) f0 u i by (simp add: body_def)
    qed
    note old = bootingD [OF ps(3)]
    have mem: "\<forall>v < loaded_size (mb_start ?m) (mb_end ?m). pmem ?t (pg (mb_start ?m + v)) = pmem s (pg (mb_start ?m + v))" using m(2) ps(7) by simp
    have kept: "runs_module (pmem s) t' md q" if "q \<in> set ps" "runs_module (pmem s) t md q" for md q
      using runs_module_kept [OF old(11) that(1) _ that(2), of t'] r(8) that(1) by (simp add: boot_log)
    have "list_all2 (runs_module (pmem s) t') (take i mods) ps" by (rule list.rel_mono_strong [OF ps(6)]) (use kept in blast)
    then have "list_all2 (runs_module (pmem s) t') (take (Suc i) mods) (ps @ [p])"
      using runs_module_mem [OF r(11) mem] by (simp add: take_Suc_conv_app_nth [OF i] list_all2_appendI)
    moreover have "around s t'" using around_trans [OF ps(8) around_trans [OF boot_log(2) r(10)]] .
    moreover have "9 * k \<le> card (avail_frames t')" using ps(4) r(6) k by simp
    moreover have "unat (heap_current t') + 12288 * k \<le> 0xC03FF000" using ps(5) r(7) k by (simp add: boot_log)
    moreover have "\<forall>f \<in> M. pmem t' f = pmem s f" using r(9) ps(7) by simp
    ultimately have "?P (Suc i) (if ps = [] then p else first, t')"
      unfolding boot_progress_def k' prod.case using ps(1,2) r(5) by (intro exI [of _ A'] exI [of _ "ps @ [p]"]) (auto simp: hd_append)
    then show "\<exists>t'. body i ft = Some t' \<and> ?P (Suc i) t'" using run ft by blast
  qed simp
  then show ?thesis unfolding create_processes_def body_def [symmetric] n(1) [symmetric] by auto
qed

subsection \<open>The first process\<close>

lemma spaces_on_mono: "spaces_on L M s \<Longrightarrow> M' \<subseteq> M \<Longrightarrow> spaces_on L M' s"
  unfolding spaces_on_def by (elim conjE, intro conjI) (blast, metis Int_mono subset_empty subset_refl, assumption)

text \<open>The entry into the first process makes the invariant of the running kernel true.\<close>

lemma enter_first:
  fixes t :: "'a modules_scheme"
  assumes B: "booting lo M A (p # ps) t" and tab: "table_ok t" and M: "module_frames t \<subseteq> M"
  obtains t' where "run_user_mode_module p t = Some (Some \<lparr>u_ss = 0x23, u_esp = 0xBFFFFFFB, u_eflags = 0x200, u_cs = 0x1B, u_eip = 0\<rparr>, t')"
    "kernel_ok lo A t'" "sched_inv t'" "current_pcb t' = p" "ready_list t' = ps" "modules_kept t t'" "\<forall>q \<in> set (p # ps). untouched t t' q"
proof -
  note D = bootingD [OF B]
  obtain c where c: "pcbs t p = Some c" "fresh_process c" using D(10) by auto
  define c' where "c' = c\<lparr>last_dispatch_tick := pit_ticks t, state := PROCESS_STATE_RUNNING\<rparr>"
  define l where "l = serial_log t @ [''[process] run_user_mode_module: trocando cr3'', hex_buffer (pdt c), ''[process] run_user_mode_module: entrando em user mode'']"
  define t' where "t' = t\<lparr>serial_log := l, cr3 := pdt c, stale := {}, seg_data := 0x23, tss := (tss t)\<lparr>t_esp0 := kernel_esp0 c\<rparr>,
     pcbs := (pcbs t)(p \<mapsto> c'), current_pcb := p\<rparr>"
  have run: "run_user_mode_module p t = Some (Some \<lparr>u_ss = 0x23, u_esp = 0xBFFFFFFB, u_eflags = 0x200, u_cs = 0x1B, u_eip = 0\<rparr>, t')"
    using c D(9) by (simp add: run_user_mode_module_def scheduler_set_current_def pcb_update_def update_cr3_def tss_set_kernel_stack_def
      serial_line_def serial_write_hex_def fresh_process_def t'_def c'_def l_def)
  have f: "current_pcb t' = p" "pcbs t' = (pcbs t)(p \<mapsto> c')" "pmem t' = pmem t" "cr3 t' = pdt c" "t_esp0 (tss t') = kernel_esp0 c"
    "loaded_modules t' = loaded_modules t" "loaded_modules_count t' = loaded_modules_count t" "page_directory t' = page_directory t"
    by (simp_all add: t'_def)
  have pd: "pdt c' = pdt c" "kernel_esp0 c' = kernel_esp0 c" "state c' = PROCESS_STATE_RUNNING" by (simp_all add: c'_def)
  note av = avail_fields [of t' t]
  have a: "avail_frames t' = avail_frames t" "pfa_ok t' = pfa_ok t" using av(1,3) by (simp_all add: t'_def)
  have "ready_at t' = ready_at t" by (simp add: ready_at_def fun_eq_iff t'_def)
  then have rl: "ready_list t' = ps" "rq_ok t'" using D(1,2) by (simp_all add: ready_list_def rq_ok_def) (simp_all add: t'_def)
  have mo: "mem_ok t'" using D(4) a(2) by (simp add: mem_ok_def window_closed_def) (simp add: t'_def)
  have ho: "heap_ok lo A t'" by (rule heap_ok_fields [OF D(5)]) (use a(2) D(4) in \<open>simp_all add: mem_ok_def t'_def\<close>)
  have en: "\<forall>q \<in> set ps. q \<noteq> 0 \<and> q \<noteq> p \<and> (\<exists>e. pcbs t q = Some e \<and> state e = PROCESS_STATE_READY)"
    using D(8,9,10) by (auto simp: fresh_process_def)
  then have "asched_inv (abs_sched t')" "sched_ok t'" "running (abs_sched t')"
    using rl f D(8) pd
    by (auto simp: asched_inv_def ready_entries_def space_inv_def sched_ok_def queue_ok_def pcbs_valid_def running_def)
  then have si: "sched_inv t'" using f(1) D(9) by (auto simp: sched_inv_def)
  have U: "untouched t t' q" if "q \<in> set (p # ps)" for q
  proof -
    from D(11) that obtain e where e: "pcbs t q = Some e" "own_space (pdt e) t" by (rule spaces_okD)
    then show ?thesis using f(2,3) a(1) pd(1) c(1) by (auto simp: untouched_def own_space_def)
  qed
  have "spaces_on (set (p # ps)) (module_frames t) t'"
    using U D(12) a(1) M f(8) by (intro spaces_ok_step [OF spaces_on_mono [OF D(11) M], where N = "{}"]) auto
  then have "kernel_ok lo A t'"
    using sched_at_mono(2) [OF si] mo ho tab D(6,14) c(1) f rl(1)
    by (intro kernel_okI [of t' lo A t]) (auto simp: live_def)
  moreover have "modules_kept t t'" using f by (simp add: modules_kept_def)
  ultimately show thesis using run si f(1) rl(1) U by (intro that [of t']) auto
qed

subsection \<open>The initialisation of the components\<close>

text \<open>What the messages on the screen leave alone.\<close>

definition screen_only :: "'a console_scheme \<Rightarrow> 'a console_scheme \<Rightarrow> bool" where
  "screen_only s t \<longleftrightarrow> (\<exists>po f. t = s\<lparr>port_out := po, fb := f\<rparr>)"

lemma screen_only_trans: "screen_only s t \<Longrightarrow> screen_only t u \<Longrightarrow> screen_only s u"
  unfolding screen_only_def by force

lemma screen_only_ops: "screen_only s (fb_write_cell p c fg bg s)" "screen_only s (fb_move_cursor pos s)" "screen_only s s"
proof -
  show "screen_only s s" unfolding screen_only_def by (rule exI [of _ "port_out s"], rule exI [of _ "fb s"]) simp
  show "screen_only s (fb_write_cell p c fg bg s)" unfolding screen_only_def fb_write_cell_def Let_def
    by (rule exI [of _ "port_out s"], rule exI) simp
  show "screen_only s (fb_move_cursor pos s)" unfolding screen_only_def fb_move_cursor_def Let_def outb_def
    by (rule exI, rule exI [of _ "fb s"]) simp
qed

lemma screen_only_write: "screen_only s (fb_write buf s)"
proof -
  have "screen_only s (fb_write_loop buf i p c s)" for i p c and s :: "'a console_scheme"
  proof (induction buf arbitrary: i p c s)
    case (Cons x buf)
    note cell = screen_only_trans [OF screen_only_trans [OF screen_only_ops(1,2)]]
    show ?case
    proof (cases "x = 10")
      case True
      then show ?thesis using Cons.IH by (simp add: Let_def)
    next
      case False
      then show ?thesis using cell [OF Cons.IH] by (simp add: Let_def)
    qed
  qed (simp add: screen_only_ops)
  then show ?thesis unfolding fb_write_def using screen_only_trans [OF screen_only_ops(2)] by blast
qed

lemma screen_only_clear: "screen_only s (fb_clear s)"
proof -
  have "screen_only s (foldl (\<lambda>s i. fb_write_cell (of_nat (2 * i)) 32 0 0 s) s xs)" for xs :: "nat list"
  proof (induction xs arbitrary: s)
    case (Cons x xs)
    then show ?case using screen_only_trans screen_only_ops(1) by (simp only: foldl.simps) blast
  qed (simp add: screen_only_ops)
  then show ?thesis unfolding fb_clear_def using screen_only_trans screen_only_ops(2) by blast
qed

lemma get_module_list_result:
  assumes "cnt \<noteq> 0"
  obtains po f where "get_module_list mods cnt s = (Some mods, s\<lparr>port_out := po, fb := f\<rparr>)"
proof -
  have "screen_only s (fb_write [69, 120, 105, 115, 116, 101, 32, 109, 0xC3, 0xB3, 100, 117, 108, 111, 115] (fb_clear s))"
    using screen_only_trans [OF screen_only_clear screen_only_write] .
  then show thesis using assms that unfolding get_module_list_def screen_only_def Let_def by auto
qed

lemma set_modules_frame:
  assumes "module_loader_set_modules (Some ms) cnt s = Some s'"
  obtains L c where "s' = s\<lparr>loaded_modules_count := c, loaded_modules := L\<rparr>"
proof (cases "cnt = 0")
  case True
  then have "s' = s\<lparr>loaded_modules_count := 0, loaded_modules := loaded_modules s\<rparr>" using assms by (auto simp: module_loader_set_modules_def)
  then show thesis by (rule that)
next
  case False
  define n where "n = (if cnt > MODULE_LOADER_MAX_MODULES then MODULE_LOADER_MAX_MODULES else cnt)"
  have fr: "for_range 0 (unat n) (\<lambda>i s. do {
             m \<leftarrow> arr_get ms (of_nat i);
             e \<leftarrow> arr_get (loaded_modules s) (of_nat i);
             t \<leftarrow> arr_set (loaded_modules s) (of_nat i)
                   \<lparr>mod_start = mb_start m, mod_end = mb_end m, cmdline = copy_cmdline (cmdline e) (mb_cmdline m)\<rparr>;
             Some (s\<lparr>loaded_modules := t\<rparr>) }) (s\<lparr>loaded_modules_count := n\<rparr>) = Some s'"
    using assms False by (simp add: module_loader_set_modules_def n_def)
  have "\<exists>L. s' = s\<lparr>loaded_modules_count := n, loaded_modules := L\<rparr>"
  proof (rule for_range_preserves [where P = "\<lambda>t. \<exists>L. t = s\<lparr>loaded_modules_count := n, loaded_modules := L\<rparr>", OF fr])
    show "\<exists>L. s\<lparr>loaded_modules_count := n\<rparr> = s\<lparr>loaded_modules_count := n, loaded_modules := L\<rparr>" by (rule exI [of _ "loaded_modules s"]) simp
  qed (auto simp: bind_eq_Some_conv)
  then show thesis using that by blast
qed

lemma pfa_init_more: "pfa_init a b c d s = Some s' \<Longrightarrow> pfa.more s' = pfa.more s"
proof -
  have put: "pfa.more t' = pfa.more t" if "bitmap_put i v t = Some t'" for i v and t t' :: "'a pfa_scheme"
    using that by (auto simp: bitmap_put_def split: if_splits)
  have range: "pfa.more t' = pfa.more t" if "pfa_reserve_range a e t = Some t'" for a e and t t' :: "'a pfa_scheme"
    using that
  proof (induction a e t arbitrary: t' rule: pfa_reserve_range.induct)
    case (1 a e t)
    show ?case
    proof (cases "a < e")
      case True
      then obtain u where u: "pfa_reserve a t = Some u" "pfa_reserve_range (a + 4096) e u = Some t'"
        using 1(2) pfa_reserve_range.simps [of a e t] by (auto simp: bind_eq_Some_conv)
      moreover have "pfa.more u = pfa.more t" using u(1) put by (auto simp: pfa_reserve_def Let_def bind_eq_Some_conv)
      ultimately show ?thesis using 1(1) [OF True u] by simp
    next
      case False
      then show ?thesis using 1(2) pfa_reserve_range.simps [of a e t] by simp
    qed
  qed
  assume "pfa_init a b c d s = Some s'"
  then obtain s0 s1 s2 where r: "pfa.more s0 = pfa.more s" "pfa_fill s0 = Some s1" "pfa_release s1 = Some s2"
    "(if c \<noteq> 0 \<or> d \<noteq> 0 then pfa_reserve_range c d s2 else Some s2) = Some s'"
    unfolding pfa_init_def Let_def bind_eq_Some_conv by (elim exE conjE) (rule that, auto)
  have "pfa.more s1 = pfa.more s0" by (rule for_range_preserves [OF r(2) [unfolded pfa_fill_def]]) (auto dest: put)
  moreover have "pfa.more s2 = pfa.more s1"
    by (rule for_range_preserves [OF r(3) [unfolded pfa_release_def]]) (auto simp: Let_def bind_eq_Some_conv dest: put)
  moreover have "pfa.more s' = pfa.more s2" using r(4) range by (auto split: if_splits)
  ultimately show ?thesis using r(1) by simp
qed

text \<open>
  The modules as the boot loader passes them: page-aligned, as the multiboot header asks, not empty, below
  4 MB, where the boot directory maps them.
\<close>

definition boot_modules_ok :: "multiboot_module list \<Rightarrow> bool" where
  "boot_modules_ok mods \<longleftrightarrow> mods_ok mods \<and>
     (\<forall>m \<in> set mods. unat (mb_start m) mod 4096 = 0 \<and> mb_start m < mb_end m \<and> unat (mb_end m) \<le> 0x400000)"

definition mods_frames :: "multiboot_module list \<Rightarrow> u32 set" where
  "mods_frames mods = {pg (mb_start m + v) |m v. m \<in> set mods \<and> v < mb_end m - mb_start m}"

abbreviation mod_touched :: "multiboot_module \<Rightarrow> nat set" where
  "mod_touched m \<equiv> touched (unat (mb_start m)) (unat (mb_end m))"

lemma reserve_modules_marks:
  assumes len: "length (bitmap s) = 2048" "length mods = unat cnt" and ok: "boot_modules_ok mods"
  shows "\<exists>bm. reserve_modules mods cnt s = Some (s\<lparr>bitmap := bm\<rparr>) \<and> length bm = 2048 \<and>
    (\<forall>n. used bm n \<longleftrightarrow> used (bitmap s) n \<or> (\<exists>j. 1 \<le> j \<and> j < length mods \<and> n \<in> mod_touched (mods ! j)))"
proof (cases "cnt > 1")
  case False
  then have "length mods \<le> 1" using len(2) by (simp add: word_less_nat_alt)
  then show ?thesis using False len(1) by (intro exI [of _ "bitmap s"]) (auto simp: reserve_modules_def)
next
  case True
  then have l: "1 \<le> unat cnt" by (simp add: word_less_nat_alt)
  let ?P = "\<lambda>i t. \<exists>bm. t = s\<lparr>bitmap := bm\<rparr> \<and> length bm = 2048 \<and>
    (\<forall>n. used bm n \<longleftrightarrow> used (bitmap s) n \<or> (\<exists>j. 1 \<le> j \<and> j < i \<and> n \<in> mod_touched (mods ! j)))"
  define body where "body = (\<lambda>i (s :: 'a pfa_scheme). do { m \<leftarrow> arr_get mods (of_nat i); pfa_reserve_range (mb_start m) (mb_end m) s })"
  have "\<exists>t. for_range 1 (unat cnt) body s = Some t \<and> ?P (unat cnt) t"
  proof (rule for_range_rule)
    show "?P 1 s" using len(1) by (intro exI [of _ "bitmap s"]) auto
  next
    fix i t assume i: "1 \<le> i" "i < unat cnt" and P: "?P i t"
    then obtain bm where bm: "t = s\<lparr>bitmap := bm\<rparr>" "length bm = 2048"
      "\<forall>n. used bm n \<longleftrightarrow> used (bitmap s) n \<or> (\<exists>j. 1 \<le> j \<and> j < i \<and> n \<in> mod_touched (mods ! j))" by blast
    have "mods ! i \<in> set mods" using i len(2) by simp
    then have e: "unat (mb_end (mods ! i)) \<le> 2 ^ 26" using ok by (auto simp: boot_modules_ok_def)
    have "i < 2 ^ 32" using i(2) unsigned_less [of cnt, where ?'a = nat] by simp
    then have "unat (of_nat i :: u32) = i" by (simp add: unat_of_nat take_bit_nat_eq_self)
    then have get: "arr_get mods (of_nat i) = Some (mods ! i)" using i(2) len(2) by simp
    from pfa_reserve_range_marks [of t, OF _ e, of "mb_start (mods ! i)"] bm(1,2) obtain bm' where
      r: "pfa_reserve_range (mb_start (mods ! i)) (mb_end (mods ! i)) t = Some (s\<lparr>bitmap := bm'\<rparr>)" "length bm' = 2048"
      "\<forall>n. used bm' n \<longleftrightarrow> used bm n \<or> n \<in> mod_touched (mods ! i)" by auto
    have "\<forall>n. used bm' n \<longleftrightarrow> used (bitmap s) n \<or> (\<exists>j. 1 \<le> j \<and> j < Suc i \<and> n \<in> mod_touched (mods ! j))"
      using r(3) bm(3) i(1) by (simp add: less_Suc_eq) blast
    then show "\<exists>t'. body i t = Some t' \<and> ?P (Suc i) t'" using r(1,2) get by (simp add: body_def) blast
  qed (use l in simp_all)
  then show ?thesis using True len(2) unfolding reserve_modules_def body_def by auto
qed

lemma mod_touched_low:
  assumes "boot_modules_ok mods" "m \<in> set mods" "n \<in> mod_touched m"
  shows "n < 1024"
proof -
  obtain k where k: "n = unat (mb_start m) div 4096 + k" "unat (mb_start m) + 4096 * k < unat (mb_end m)" using assms(3) by (auto simp: touched_def)
  have "unat (mb_end m) \<le> 0x400000" using assms(1,2) by (auto simp: boot_modules_ok_def)
  with k(2) have "unat (mb_start m) + 4096 * k < 1024 * 4096" by simp
  then have "(unat (mb_start m) + 4096 * k) div 4096 < 1024" by (rule less_mult_imp_div_less)
  then show ?thesis using k(1) by simp
qed

lemma mods_frames_touched:
  assumes ok: "boot_modules_ok mods" and f: "f \<in> mods_frames mods"
  obtains m n where "m \<in> set mods" "n \<in> mod_touched m" "unat f = n * 4096"
proof -
  from f obtain m v where m: "m \<in> set mods" "v < mb_end m - mb_start m" "f = pg (mb_start m + v)" by (auto simp: mods_frames_def)
  have a: "unat (mb_start m) mod 4096 = 0" "mb_start m < mb_end m" using ok m(1) by (auto simp: boot_modules_ok_def)
  have "unat (mb_end m - mb_start m) = unat (mb_end m) - unat (mb_start m)" using a(2) by (intro unat_sub) simp
  then have v: "unat v < unat (mb_end m) - unat (mb_start m)" using m(2) by (simp add: word_less_nat_alt)
  then have "unat (mb_start m) + unat v < 2 ^ 32" using unsigned_less [of "mb_end m", where ?'a = nat] by simp
  then have x: "unat (mb_start m + v) = unat (mb_start m) + unat v" by (subst unat_add_lem [THEN iffD1]) simp_all
  then have "unat (mb_start m + v) div 4096 \<in> mod_touched m" unfolding touched_aligned [OF a(1)] using v by (intro imageI) auto
  then show thesis using m(1,3) by (intro that [of m "unat (mb_start m + v) div 4096"]) (simp_all add: unat_page_mask)
qed

lemma boot_frames:
  assumes len: "length (bitmap s) = 2048" "length mods = unat cnt" "mods \<noteq> []" and ok: "boot_modules_ok mods" and lo: "unat mem_start \<le> 0x3FF000"
  shows "\<exists>s1 bm. pfa_init mem_start 0x4000000 (mb_start (mods ! 0)) (mb_end (mods ! 0)) s = Some s1 \<and>
    reserve_modules mods cnt s1 = Some (s1\<lparr>bitmap := bm\<rparr>) \<and> pfa.more s1 = pfa.more s \<and> pfa_ok (s1\<lparr>bitmap := bm\<rparr>) \<and>
    {1024..<16384} \<subseteq> free_frames (s1\<lparr>bitmap := bm\<rparr>) \<and> mods_frames mods \<inter> avail_frames (s1\<lparr>bitmap := bm\<rparr>) = {}"
proof -
  let ?m = "mods ! 0"
  have m0: "?m \<in> set mods" using len(3) by simp
  then have e: "unat (mb_end ?m) \<le> 2 ^ 26" using ok by (auto simp: boot_modules_ok_def)
  from pfa_init_frames [OF len(1) _ _ e, of mem_start "0x4000000" "mb_start ?m"] lo obtain s1 where
    s1: "pfa_init mem_start 0x4000000 (mb_start ?m) (mb_end ?m) s = Some s1" "pfa_ok s1" "unat (start_frame s1) = Suc ((unat mem_start + 4095) div 4096)"
      "unat (total_frames s1) = 16384" "free_frames s1 = {n. (unat mem_start + 4095) div 4096 < n \<and> n < 16384} - mod_touched ?m" by auto
  have l1: "length (bitmap s1) = 2048" using s1(2) by (simp add: pfa_ok_def)
  from reserve_modules_marks [OF l1 len(2) ok] obtain bm where bm: "reserve_modules mods cnt s1 = Some (s1\<lparr>bitmap := bm\<rparr>)" "length bm = 2048"
    "\<forall>n. used bm n \<longleftrightarrow> used (bitmap s1) n \<or> (\<exists>j. 1 \<le> j \<and> j < length mods \<and> n \<in> mod_touched (mods ! j))" by blast
  let ?s = "s1\<lparr>bitmap := bm\<rparr>"
  have pf: "pfa_ok ?s" using s1(2) bm(2) by (simp add: pfa_ok_def)
  have free: "n \<in> free_frames ?s \<longleftrightarrow> n \<in> free_frames s1 \<and> (\<forall>j. 1 \<le> j \<and> j < length mods \<longrightarrow> n \<notin> mod_touched (mods ! j))" for n
    using bm(3) by (auto simp: free_frames_def)
  have all: "n \<in> free_frames ?s \<longleftrightarrow> (unat mem_start + 4095) div 4096 < n \<and> n < 16384 \<and> (\<forall>m \<in> set mods. n \<notin> mod_touched m)" for n
  proof -
    have "(\<forall>m \<in> set mods. n \<notin> mod_touched m) \<longleftrightarrow> n \<notin> mod_touched ?m \<and> (\<forall>j. 1 \<le> j \<and> j < length mods \<longrightarrow> n \<notin> mod_touched (mods ! j))"
      using len(3) by (cases mods) (auto simp: all_set_conv_all_nth nth_Cons split: nat.splits)
    then show ?thesis unfolding free s1(5) by auto
  qed
  have k: "(unat mem_start + 4095) div 4096 < 1024" using lo by (intro less_mult_imp_div_less) simp
  have "n \<in> free_frames ?s" if n: "n \<in> {1024..<16384}" for n
  proof -
    have "n \<notin> mod_touched m" if "m \<in> set mods" for m using mod_touched_low [OF ok that, of n] n by auto
    then show ?thesis unfolding all using k n by auto
  qed
  moreover have "mods_frames mods \<inter> avail_frames ?s = {}"
  proof -
    have False if f: "f \<in> mods_frames mods" "f \<in> avail_frames ?s" for f
    proof -
      from mods_frames_touched [OF ok f(1)] obtain m n where m: "m \<in> set mods" "n \<in> mod_touched m" "unat f = n * 4096" by blast
      from f(2) obtain n' where n': "n' \<in> free_frames ?s" "f = of_nat n' * 4096" by (auto simp: avail_frames_def)
      then have "unat f = n' * 4096" using all [of n'] by (simp add: unat_frame_addr)
      then have "n' = n" using m(3) by simp
      then show False using n'(1) m(1,2) unfolding all by blast
    qed
    then show ?thesis by blast
  qed
  ultimately show ?thesis using s1(1) bm(1) pf pfa_init_more [OF s1(1)] by blast
qed

text \<open>
  The kernel image as \<open>loader.s\<close> hands it over: the static arrays have their sizes, the variables that the
  code expects to be zero are, the boot directory is in place, and the symbols of the linker script agree.
\<close>

definition image_loaded :: "layout \<Rightarrow> 'a modules_scheme \<Rightarrow> bool" where
  "image_loaded l s \<longleftrightarrow> length (bitmap s) = 2048 \<and> page_directory s = boot_page_directory \<and> length (kernel_page_table s) = 1024 \<and>
     freep s = 0 \<and> pcbs s = Map.empty \<and> length (ready_queue s) = 32 \<and> modules_ok s \<and> length (gdt_descriptors s) = 6 \<and>
     length (idt_entries s) = 256 \<and> kernel_virtual_end l = kernel_physical_end l + 0xC0000000 \<and>
     0xC0000000 \<le> base_addr s \<and> base_addr s < kernel_virtual_end l"

text \<open>Lines 34-66 of \<open>kmain\<close>: modules, frames, page table and heap.\<close>

definition early_init :: "layout \<Rightarrow> multiboot_module list \<Rightarrow> u32 \<Rightarrow> 'a modules_scheme \<Rightarrow> (multiboot_module list option \<times> 'a modules_scheme) option" where
  "early_init l mods mods_count s = do {
     let mem_start = (kernel_physical_end l + 0xFFF) AND NOT 0xFFF;
     let mem_end = 64 * 1024 * 1024;
     let (md, s) = get_module_list mods mods_count s;
     (mstart, mend) \<leftarrow> (case md of None \<Rightarrow> Some (0, 0)
        | Some ms \<Rightarrow> do { m \<leftarrow> arr_get ms 0; Some (mb_start m, mb_end m) });
     s \<leftarrow> module_loader_set_modules md mods_count s;
     s \<leftarrow> pfa_init mem_start mem_end mstart mend s;
     s \<leftarrow> (case md of None \<Rightarrow> Some s | Some ms \<Rightarrow> reserve_modules ms mods_count s);
     let s = serial_line ''[SYS - PAGING] PFA inicializado com sucesso'' s;
     s \<leftarrow> paging_init (kernel_physical_end l) (kernel_page_table_addr l) s;
     let s = serial_line paging_message s;
     let s = kheap_init (kernel_virtual_end l) s;
     Some (md, serial_line ''[SYS - HEAP] Kernel Heap inicializado'' s) }"

text \<open>Lines 68-95 of \<open>kmain\<close>: descriptor tables, interrupts, timer and scheduler.\<close>

definition late_init :: "layout \<Rightarrow> 'a modules_scheme \<Rightarrow> 'a modules_scheme option" where
  "late_init l s = do {
     s \<leftarrow> init_gdt (gdt_addr l) 6 s;
     let s = serial_line ''[SYS] Iniciou GDT'' s;
     s \<leftarrow> tss_init (tss_addr l) 0x10 (kernel_stack_top l) s;
     s \<leftarrow> init_idt (idt_addr l) (handler_32 l) (handler_33 l) (handler_39 l) (handler_47 l) (handler_128 l) s;
     let s = pit_init 10 s;
     let s = scheduler_init s;
     let s = kernel_enable_preemption s;
     let s = serial_line ''[SCHED] preempcao PIT habilitada'' s;
     let s = scheduler_set_quantum 3 s;
     Some (scheduler_set_policy POLICY_SJF s) }"

lemma kmain_init_split: "kmain_init l mods cnt s = do { (md, s) \<leftarrow> early_init l mods cnt s; s \<leftarrow> late_init l s; Some (md, s) }"
  unfolding kmain_init_def early_init_def late_init_def Let_def by (simp add: split_def)

lemma late_init_result:
  assumes "length (gdt_descriptors s) = 6" and "length (idt_entries s) = 256"
  obtains s' where "late_init l s = Some s'" "bitmap s' = bitmap s" "start_frame s' = start_frame s" "total_frames s' = total_frames s"
    "page_directory s' = page_directory s" "kernel_page_table s' = kernel_page_table s" "pmem s' = pmem s" "stale s' = stale s"
    "base_addr s' = base_addr s" "hdrs s' = hdrs s" "freep s' = freep s" "heap_current s' = heap_current s" "heap_max s' = heap_max s"
    "pcbs s' = pcbs s" "ready_queue s' = ready_queue s" "current_pcb s' = 0" "ready_head s' = 0" "ready_tail s' = 0" "ready_len s' = 0"
    "loaded_modules s' = loaded_modules s" "loaded_modules_count s' = loaded_modules_count s"
proof -
  have "late_init l s \<noteq> None" using assms
    by (simp add: late_init_def init_gdt_def set_gdt_Some tss_init_def init_idt_def set_idt_Some serial_line_def)
  then obtain s' where s': "late_init l s = Some s'" by blast
  then show thesis using assms
    by (intro that [of s']) (auto simp: late_init_def init_gdt_def set_gdt_Some tss_init_def init_idt_def set_idt_Some serial_line_def outb_def pic_init_def
      pit_init_def scheduler_init_def kernel_enable_preemption_def scheduler_set_quantum_def scheduler_set_policy_def)
qed

lemma more_pfa:
  assumes "pfa.more s' = pfa.more s"
  shows "page_directory s' = page_directory s" "kernel_page_table s' = kernel_page_table s" "pmem s' = pmem s" "base_addr s' = base_addr s"
    "freep s' = freep s" "gdt_descriptors s' = gdt_descriptors s" "idt_entries s' = idt_entries s" "pcbs s' = pcbs s" "ready_queue s' = ready_queue s"
    "loaded_modules s' = loaded_modules s" "loaded_modules_count s' = loaded_modules_count s"
  using assms by (cases s; cases s'; simp)+

lemma table_of_modules:
  assumes mo: "modules_ok s" "unat (loaded_modules_count s) = min 8 (length mods)" "\<forall>i < min 8 (length mods). entry_of (mods ! i) (loaded_modules s ! i)"
    and ok: "boot_modules_ok mods"
  shows "table_ok s" "module_frames s \<subseteq> mods_frames mods"
proof -
  have e: "\<exists>m \<in> set mods. mod_start x = mb_start m \<and> mod_end x = mb_end m" if "x \<in> table_entries s" for x
  proof -
    from that obtain i where i: "i < min 8 (length mods)" "x = loaded_modules s ! i" unfolding table_entries_def mo(2) by (auto simp: in_set_conv_nth)
    then show ?thesis using mo(3) by (intro bexI [of _ "mods ! i"]) (auto simp: entry_of_def)
  qed
  have sz: "mb_start m < mb_end m \<and> mb_end m - mb_start m \<le> 0xBFFFF000" if "m \<in> set mods" for m
  proof -
    have m: "mb_start m < mb_end m" "unat (mb_end m) \<le> 0x400000" using ok that by (auto simp: boot_modules_ok_def)
    then have "unat (mb_end m - mb_start m) = unat (mb_end m) - unat (mb_start m)" by (intro unat_sub) simp
    then have "unat (mb_end m - mb_start m) \<le> 0xBFFFF000" using m(2) by simp
    then show ?thesis using m(1) by (simp add: word_le_nat_alt)
  qed
  have "unat (loaded_modules_count s) \<le> length (loaded_modules s)" using mo(1) by (simp add: modules_ok_def)
  then show "table_ok s" unfolding table_ok_def using e sz by metis
  show "module_frames s \<subseteq> mods_frames mods" unfolding module_frames_def mods_frames_def using e by force
qed

lemma kernel_page_mapped:
  assumes "length (kernel_page_table s) = 1024" "stale s = {}" "0xC0000000 \<le> unat a" "unat a < 0xC0000000 + unat kp_end" "unat kp_end \<le> 0x3FF000"
    "\<forall>j < 1024. kernel_page_table s ! j = (if j < (unat kp_end + 4095) div 4096 then of_nat j * 4096 OR 3 else 0)"
  shows "kmapped a s"
proof -
  define x where "x = a - 0xC0000000"
  have ax: "a = 0xC0000000 + x" by (simp add: x_def)
  have ux: "unat x = unat a - 0xC0000000" unfolding x_def using assms(3) by (subst unat_sub) (simp_all add: word_le_nat_alt)
  then have x: "unat x < 2 ^ 22" "unat x < unat kp_end" using assms(3,4,5) by simp_all
  note v = kernel_vaddr [OF x(1), folded ax]
  have j: "unat x div 4096 < (unat kp_end + 4095) div 4096" using x(2) by (simp add: less_mult_imp_div_less div_less_iff_less_mult)
  have "unat x div 4096 < 1024" using x(1) by (intro less_mult_imp_div_less) simp
  moreover have "(of_nat (unat x div 4096) * 4096 OR 3) AND 1 \<noteq> (0 :: u32)" by (simp add: bit.conj_disj_distrib2)
  ultimately show ?thesis using assms(1,2,6) v j by (simp add: kmapped_def)
qed

lemma kmain_init_result:
  fixes s :: "'a modules_scheme"
  assumes img: "image_loaded l s" and ok: "boot_modules_ok mods" and n: "length mods = unat cnt" "mods \<noteq> []" "length mods \<le> 33"
    and room: "unat (kernel_physical_end l) + 12288 * length mods \<le> 0x3FE000"
  obtains lo s' where "kmain_init l mods cnt s = Some (Some mods, s')" "booting lo (mods_frames mods) {} [] s'" "pmem s' = pmem s"
    "table_ok s'" "module_frames s' \<subseteq> mods_frames mods" "9 * length mods \<le> card (avail_frames s')"
    "unat (heap_current s') + 12288 * length mods \<le> 0xC03FF000"
proof -
  let ?kp = "kernel_physical_end l" and ?kv = "kernel_virtual_end l"
  let ?lo = "(unat ?kv + 4095) div 4096 * 4096"
  note I = img [unfolded image_loaded_def]
  have kv: "unat ?kv = 0xC0000000 + unat ?kp" using I room by (simp add: unat_word_ariths)
  have c0: "cnt \<noteq> 0" using n by auto
  obtain po f where s0: "get_module_list mods cnt s = (Some mods, s\<lparr>port_out := po, fb := f\<rparr>)" by (rule get_module_list_result [OF c0])
  let ?s0 = "s\<lparr>port_out := po, fb := f\<rparr>"
  have "modules_ok ?s0" using I by (simp add: modules_ok_def)
  moreover have "mods_ok mods" using ok by (simp add: boot_modules_ok_def)
  ultimately obtain s1 where s1: "module_loader_set_modules (Some mods) cnt ?s0 = Some s1" "modules_ok s1" "unat (loaded_modules_count s1) = min 8 (length mods)"
    "\<forall>i < min 8 (length mods). entry_of (mods ! i) (loaded_modules s1 ! i)" using set_modules_table [OF _ n(1) _ c0, of ?s0] n(1) by auto
  obtain L k where s1': "s1 = ?s0\<lparr>loaded_modules_count := k, loaded_modules := L\<rparr>" by (rule set_modules_frame [OF s1(1)])
  note tab = table_of_modules [OF s1(2-4) ok]
  let ?ms = "(?kp + 0xFFF) AND NOT 0xFFF"
  have kp: "unat ?kp \<le> 0x3FE000" using room by simp
  have "unat (?kp + 4095 AND - 4096) = (unat ?kp + 4095) div 4096 * 4096" using kp by (intro unat_page_round_up) simp
  moreover have "(unat ?kp + 4095) div 4096 \<le> 0x3FF" using kp div_le_mono [of "unat ?kp + 4095" "0x3FE000 + 4095" 4096] by simp
  ultimately have ms: "unat ?ms \<le> 0x3FF000" by simp
  have lb: "length (bitmap s1) = 2048" using I by (simp add: s1')
  from boot_frames [OF lb n(1,2) ok ms] obtain s2 bm where
    s2: "pfa_init ?ms 0x4000000 (mb_start (mods ! 0)) (mb_end (mods ! 0)) s1 = Some s2" "reserve_modules mods cnt s2 = Some (s2\<lparr>bitmap := bm\<rparr>)"
      "pfa.more s2 = pfa.more s1" "pfa_ok (s2\<lparr>bitmap := bm\<rparr>)" "{1024..<16384} \<subseteq> free_frames (s2\<lparr>bitmap := bm\<rparr>)"
      "mods_frames mods \<inter> avail_frames (s2\<lparr>bitmap := bm\<rparr>) = {}" by blast
  note m2 = more_pfa [OF s2(3)]
  define s3 where "s3 = serial_line ''[SYS - PAGING] PFA inicializado com sucesso'' (s2\<lparr>bitmap := bm\<rparr>)"
  have f3: "page_directory s3 = boot_page_directory" "length (kernel_page_table s3) = 1024" "pmem s3 = pmem s" "base_addr s3 = base_addr s" "freep s3 = 0"
    "length (gdt_descriptors s3) = 6" "length (idt_entries s3) = 256" "pcbs s3 = Map.empty" "length (ready_queue s3) = 32"
    "loaded_modules s3 = loaded_modules s1" "loaded_modules_count s3 = loaded_modules_count s1"
    using m2 I by (simp_all add: s3_def serial_line_def) (simp_all add: s1')
  have pf3: "pfa_ok s3" "free_frames s3 = free_frames (s2\<lparr>bitmap := bm\<rparr>)" "avail_frames s3 = avail_frames (s2\<lparr>bitmap := bm\<rparr>)"
    using s2(4) by (simp_all add: s3_def serial_line_def pfa_ok_def free_frames_def avail_frames_def)
  have "paging_ok s3" using f3(1,2) by (simp add: paging_ok_def boot_page_directory_def)
  from paging_init_table [OF this, of ?kp "kernel_page_table_addr l"] kp obtain K where
    K: "paging_init ?kp (kernel_page_table_addr l) s3 = Some (s3\<lparr>kernel_page_table := K,
        page_directory := (page_directory s3)[768 := (kernel_page_table_addr l - 0xC0000000) OR 3], stale := {}\<rparr>)" "length K = 1024"
      "\<forall>j < 1024. K ! j = (if j < (unat ?kp + 4095) div 4096 then of_nat j * 4096 OR 3 else 0)" by auto
  define s4 where "s4 = serial_line paging_message (s3\<lparr>kernel_page_table := K,
        page_directory := (page_directory s3)[768 := (kernel_page_table_addr l - 0xC0000000) OR 3], stale := {}\<rparr>)"
  have f4: "kernel_page_table s4 = K" "stale s4 = {}" "page_directory s4 ! 0 = 0x83" "length (page_directory s4) = 1024" "base_addr s4 = base_addr s"
    "freep s4 = 0" "pfa_ok s4" "pmem s4 = pmem s" "page_directory s4 ! 768 = (kernel_page_table_addr l - 0xC0000000) OR 3"
    using f3 pf3(1) by (simp_all add: s4_def serial_line_def boot_page_directory_def pfa_ok_def)
  have "present (page_directory s4 ! 768)"
    unfolding f4(9) present_def by (simp add: bit.conj_disj_distrib2 or_eq_0_iff)
  note f4 = f4 this
  have "0xC0000000 \<le> base_addr s" "base_addr s < ?kv" using I by blast+
  then have ba: "0xC0000000 \<le> unat (base_addr s)" "unat (base_addr s) < unat ?kv" unfolding word_le_nat_alt word_less_nat_alt by simp_all
  have km: "kmapped (base_addr s4) s4"
    by (rule kernel_page_mapped [of s4 _ ?kp]) (use f4 K(2,3) ba kv kp in simp_all)
  have "paging_ok s4" using f4(1,4) K(2) by (simp add: paging_ok_def)
  from kheap_init_ok [OF this f4(7,6) km, of ?kv] ba f4(5) kv kp
  have h: "heap_ok ?lo {} (kheap_init ?kv s4)" "unat (heap_current (kheap_init ?kv s4)) = ?lo" by simp_all
  define s5 where "s5 = serial_line ''[SYS - HEAP] Kernel Heap inicializado'' (kheap_init ?kv s4)"
  have f5: "length (gdt_descriptors s5) = 6" "length (idt_entries s5) = 256" using f3(6,7) by (simp_all add: s5_def s4_def serial_line_def kheap_init_def)
  obtain s' where s': "late_init l s5 = Some s'" "bitmap s' = bitmap s5" "start_frame s' = start_frame s5" "total_frames s' = total_frames s5"
    "page_directory s' = page_directory s5" "kernel_page_table s' = kernel_page_table s5" "pmem s' = pmem s5" "stale s' = stale s5"
    "base_addr s' = base_addr s5" "hdrs s' = hdrs s5" "freep s' = freep s5" "heap_current s' = heap_current s5" "heap_max s' = heap_max s5"
    "pcbs s' = pcbs s5" "ready_queue s' = ready_queue s5" "current_pcb s' = 0" "ready_head s' = 0" "ready_tail s' = 0" "ready_len s' = 0"
    "loaded_modules s' = loaded_modules s5" "loaded_modules_count s' = loaded_modules_count s5" by (rule late_init_result [OF f5])
  have "arr_get mods 0 = Some (mods ! 0)" using n(2) by simp
  then have "early_init l mods cnt s = Some (Some mods, s5)" using s0 s1(1) s2(1,2) K(1) by (simp add: early_init_def s3_def s4_def s5_def)
  then have run: "kmain_init l mods cnt s = Some (Some mods, s')" using s'(1) by (simp add: kmain_init_split)
  have f5: "bitmap s5 = bitmap s3" "start_frame s5 = start_frame s3" "total_frames s5 = total_frames s3" "page_directory s5 = page_directory s4"
    "kernel_page_table s5 = K" "pmem s5 = pmem s" "stale s5 = {}" "pcbs s5 = Map.empty" "ready_queue s5 = ready_queue s3"
    "loaded_modules s5 = loaded_modules s1" "loaded_modules_count s5 = loaded_modules_count s1" "heap_current s5 = heap_current (kheap_init ?kv s4)"
    using f3 by (simp_all add: s5_def s4_def serial_line_def kheap_init_def)
  have fr: "avail_frames s' = avail_frames s3" "pfa_ok s' = pfa_ok s3" "free_frames s' = free_frames s3"
    using s'(2-4) f5(1-3) by (simp_all add: avail_frames_def pfa_ok_def free_frames_def)
  have mo: "mem_ok s'" using fr(2) pf3(1) K(2,3) f4(4) s'(5,6,8) f5(4,5,7) kp div_le_mono [of "unat ?kp + 4095" "0x3FE000 + 4095" 4096]
    by (simp add: mem_ok_def window_closed_def)
  have ho: "heap_ok ?lo {} s'"
    by (rule heap_ok_fields [OF h(1)]) (use s' mo in \<open>simp_all add: s5_def serial_line_def mem_ok_def\<close>)
  have "rq_ok s'" "ready_list s' = []" using s'(15-19) f5(9) f3(9) by (simp_all add: rq_ok_def ready_list_def)
  moreover have "kernel_inv ?lo {} s'" using mo ho s'(14) f5(8) by (simp add: kernel_inv_def)
  moreover have "spaces_on {} (mods_frames mods) s'" using s2(6) pf3(3) fr(1) by (simp add: spaces_on_def)
  ultimately have bo: "booting ?lo (mods_frames mods) {} [] s'" using s'(5,16) f5(4) f4(3,10) by (simp add: booting_def)
  have tb: "table_ok s'" "module_frames s' \<subseteq> mods_frames mods" using tab table_fields [of s' s1] s'(20,21) f5(10,11) by simp_all
  have "9 * length mods \<le> card {1024..<16384::nat}" using n(3) by simp
  also have "\<dots> \<le> card (free_frames s')" using s2(5) pf3(2) fr(3) by (intro card_mono) (simp_all add: free_frames_def)
  also have "\<dots> = card (avail_frames s')" using card_avail_frames [of s'] mo by (simp add: mem_ok_def)
  finally have av: "9 * length mods \<le> card (avail_frames s')" .
  have "?lo \<le> unat ?kv + 4095" by simp
  then have "unat (heap_current s') + 12288 * length mods \<le> 0xC03FF000" using s'(12) f5(12) h(2) kv room by simp
  then show thesis using run bo tb av s'(7) f5(6) by (intro that [of s' ?lo]) simp_all
qed

lemma kmain_result:
  fixes s :: "'a modules_scheme"
  assumes img: "image_loaded l s" and ok: "boot_modules_ok mods" and n: "length mods = unat cnt" "mods \<noteq> []" "length mods \<le> 33"
    and room: "unat (kernel_physical_end l) + 12288 * length mods \<le> 0x3FE000"
  obtains lo A s' where "kmain l mods cnt s = Some (Enters \<lparr>u_ss = 0x23, u_esp = 0xBFFFFFFB, u_eflags = 0x200, u_cs = 0x1B, u_eip = 0\<rparr>, s')"
    "kernel_ok lo A s'" "sched_inv s'" "list_all2 (runs_module (pmem s) s') mods (current_pcb s' # ready_list s')"
proof -
  let ?M = "mods_frames mods"
  obtain lo t where t: "kmain_init l mods cnt s = Some (Some mods, t)" "booting lo ?M {} [] t" "pmem t = pmem s" "table_ok t" "module_frames t \<subseteq> ?M"
    "9 * length mods \<le> card (avail_frames t)" "unat (heap_current t) + 12288 * length mods \<le> 0xC03FF000"
    by (rule kmain_init_result [OF img ok n room])
  have size: "loaded_size (mb_start m) (mb_end m) \<le> mb_end m - mb_start m" for m :: multiboot_module by (auto simp: loaded_size_def)
  have low: "\<forall>m \<in> set mods. unat (mb_start m) + unat (loaded_size (mb_start m) (mb_end m)) \<le> 0x400000"
  proof
    fix m assume "m \<in> set mods"
    then have m: "mb_start m < mb_end m" "unat (mb_end m) \<le> 0x400000" using ok by (auto simp: boot_modules_ok_def)
    then have "unat (mb_end m - mb_start m) = unat (mb_end m) - unat (mb_start m)" by (intro unat_sub) simp
    then show "unat (mb_start m) + unat (loaded_size (mb_start m) (mb_end m)) \<le> 0x400000"
      using size [of m] m by (simp add: word_le_nat_alt word_less_nat_alt)
  qed
  have src: "\<forall>m \<in> set mods. \<forall>v < loaded_size (mb_start m) (mb_end m). pg (mb_start m + v) \<in> ?M"
    using size less_le_trans by (fastforce simp: mods_frames_def)
  from create_processes_result [OF t(2) n(1,3) low src t(6,7)] obtain first u where
    u: "create_processes mods cnt t = Some (first, u)" "boot_progress lo ?M mods t (length mods) (first, u)" by blast
  then obtain A ps where ps: "length ps = length mods" "first = (if ps = [] then 0 else hd ps)" "booting lo ?M A ps u"
    "list_all2 (runs_module (pmem t) u) mods ps" "around t u" by (auto simp: boot_progress_def)
  obtain p qs where pq: "ps = p # qs" using ps(1) n(2) by (cases ps) auto
  have tab: "table_ok u" "module_frames u \<subseteq> ?M" using table_fields [of u t] more_modules [of u t] ps(5) t(4,5) by (simp_all add: around_def)
  let ?u = "serial_line ''Executando modulo em user mode'' u"
  have b: "booting lo ?M A (p # qs) ?u" using ps(3) pq by (simp add: boot_log)
  have tab': "table_ok ?u" "module_frames ?u \<subseteq> ?M" using tab table_fields [of ?u u] by (simp_all add: serial_line_def)
  from b tab' obtain s' where s': "run_user_mode_module p ?u = Some (Some \<lparr>u_ss = 0x23, u_esp = 0xBFFFFFFB, u_eflags = 0x200, u_cs = 0x1B, u_eip = 0\<rparr>, s')"
    "kernel_ok lo A s'" "sched_inv s'" "current_pcb s' = p" "ready_list s' = qs" "modules_kept ?u s'" "\<forall>q \<in> set (p # qs). untouched ?u s' q"
    by (rule enter_first)
  have c0: "0 < cnt" using n(1,2) by (cases "cnt = 0") (auto simp: word_gt_0)
  have p0: "p \<noteq> 0" using bootingD(9) [OF b] by auto
  have run: "kmain l mods cnt s = Some (Enters \<lparr>u_ss = 0x23, u_esp = 0xBFFFFFFB, u_eflags = 0x200, u_cs = 0x1B, u_eip = 0\<rparr>, s')"
    using t(1) u(1) s'(1) c0 p0 ps(2) pq by (simp add: kmain_def)
  have "runs_module (pmem s) s' m q" if "q \<in> set ps" "runs_module (pmem t) u m q" for m q
    using runs_module_kept [OF bootingD(11) [OF ps(3)] that(1) _ that(2), of s'] s'(7) that(1) pq t(3) by (auto simp: boot_log)
  then have "list_all2 (runs_module (pmem s) s') mods ps" by (intro list.rel_mono_strong [OF ps(4)]) blast
  then show thesis using run s'(2-5) pq by (intro that [of s' lo A]) simp_all
qed

subsection \<open>A kernel with two modules\<close>

definition sample_image :: modules where
  "sample_image = sample_modules\<lparr>page_directory := boot_page_directory, kernel_page_table := replicate 1024 0, base_addr := 0xC0101000,
     pcbs := Map.empty, gdt_descriptors := replicate 6 (init_gdt_descriptor 0 0 0 0), idt_entries := replicate 256 null_idt,
     pmem := (\<lambda>_ _. 0)(0x120000 := (\<lambda>_. 0x42))\<rparr>"

definition sample_layout :: layout where
  "sample_layout = \<lparr>kernel_physical_end = 0x110000, kernel_virtual_end = 0xC0110000, kernel_page_table_addr = 0xC0105000,
     kernel_stack_top = 0xC010F000, gdt_addr = 0xC0102000, idt_addr = 0xC0103000, tss_addr = 0xC0104000,
     handler_32 = 0xC0100100, handler_33 = 0xC0100110, handler_39 = 0xC0100120, handler_47 = 0xC0100130, handler_128 = 0xC0100140\<rparr>"

definition sample_mods :: "multiboot_module list" where
  "sample_mods = [\<lparr>mb_start = 0x120000, mb_end = 0x120005, mb_cmdline = Some ''/init''\<rparr>,
     \<lparr>mb_start = 0x121000, mb_end = 0x122800, mb_cmdline = Some ''/task''\<rparr>]"

end
