(* ===== verification/User_Programs.thy ===== *)
theory User_Programs
  imports Syscall
begin

text \<open>
  The programs that the kernel is shipped with, \<open>src/modules_pre_compiled\<close>: the three CPU-bound tasks, which
  compute and exit, and \<open>program_module.c\<close>, which forks and then computes forever with a system call now and
  then.  The stub \<open>starter.s\<close> calls \<open>main\<close>.  A program is a function on the registers it enters the
  kernel with and the state of the kernel; \<open>int 0x80\<close> is \<open>syscall_handler_128\<close>.  The endless loops are
  run for any number of rounds.
\<close>

subsection \<open>The code\<close>

function do_cpu_work_loop :: "u32 \<Rightarrow> u32 \<Rightarrow> u32 \<Rightarrow> u32 \<Rightarrow> u32" where
  "do_cpu_work_loop m iterations i acc =
     (if i < iterations then do_cpu_work_loop m iterations (i + 1) (acc + (i AND m)) else acc)"
  by pat_completeness auto
termination
  by (relation "measure (\<lambda>(m, iterations, i, acc). unat iterations - unat i)")
     (auto simp: unat_Suc_less word_less_nat_alt)

declare do_cpu_work_loop.simps [simp del]

definition do_cpu_work_short :: "u32 \<Rightarrow> u32" where
  "do_cpu_work_short iterations = do_cpu_work_loop 0x7 iterations 0 0"

definition do_cpu_work_medium :: "u32 \<Rightarrow> u32" where
  "do_cpu_work_medium iterations = do_cpu_work_loop 0xF iterations 0 0"

definition do_cpu_work_long :: "u32 \<Rightarrow> u32" where
  "do_cpu_work_long iterations = do_cpu_work_loop 0x1F iterations 0 0"





text \<open>\<open>program_module.c\<close>: its calls give \<open>eax\<close> only and return the \<open>eax\<close> of the registers that come back.\<close>

definition program_sys_test :: "syscall_frame \<Rightarrow> 'a modules_scheme \<Rightarrow> (syscall_frame \<times> 'a modules_scheme) option" where
  "program_sys_test frame s = do {
     (r, s) \<leftarrow> syscall_handler_128 (frame\<lparr>c_eax := 0\<rparr>) s; frame \<leftarrow> r; Some (frame, s) }"

definition program_sys_fork :: "syscall_frame \<Rightarrow> 'a modules_scheme \<Rightarrow> (syscall_frame \<times> 'a modules_scheme) option" where
  "program_sys_fork frame s = do {
     (r, s) \<leftarrow> syscall_handler_128 (frame\<lparr>c_eax := 3\<rparr>) s; frame \<leftarrow> r; Some (frame, s) }"

definition program_sys_write :: "syscall_frame \<Rightarrow> 'a modules_scheme \<Rightarrow> (syscall_frame \<times> 'a modules_scheme) option" where
  "program_sys_write frame s = do {
     (r, s) \<leftarrow> syscall_handler_128 (frame\<lparr>c_eax := 1\<rparr>) s; frame \<leftarrow> r; Some (frame, s) }"

function busy_work_loop :: "u32 \<Rightarrow> u32 \<Rightarrow> u32" where
  "busy_work_loop rounds i = (if i < rounds then busy_work_loop rounds (i + 1) else i)"
  by pat_completeness auto
termination
  by (relation "measure (\<lambda>(rounds, i). unat rounds - unat i)") (auto simp: unat_Suc_less word_less_nat_alt)

declare busy_work_loop.simps [simp del]

definition busy_work :: "u32 \<Rightarrow> u32" where
  "busy_work rounds = busy_work_loop rounds 0"

text \<open>One round of each of the three endless loops, on the heartbeat, the registers and the kernel.\<close>

type_synonym 'a program_state = "u32 \<times> syscall_frame \<times> 'a modules_scheme"

definition program_error_round :: "'a program_state \<Rightarrow> 'a program_state option" where
  "program_error_round = (\<lambda>(heartbeat, frame, s). do {
     (frame, s) \<leftarrow> program_sys_test frame s;
     let i = busy_work 200000;
     Some (heartbeat, frame, s) })"

definition program_child_round :: "'a program_state \<Rightarrow> 'a program_state option" where
  "program_child_round = (\<lambda>(heartbeat, frame, s). do {
     let i = busy_work 350000;
     let heartbeat = heartbeat + 1;
     if heartbeat AND 0x1F = 0 then do {
       (frame, s) \<leftarrow> program_sys_test frame s;
       (frame, s) \<leftarrow> program_sys_write frame s;
       Some (heartbeat, frame, s) }
     else Some (heartbeat, frame, s) })"

definition program_parent_round :: "'a program_state \<Rightarrow> 'a program_state option" where
  "program_parent_round = (\<lambda>(heartbeat, frame, s). do {
     let i = busy_work 180000;
     let heartbeat = heartbeat + 1;
     if heartbeat AND 0x3F = 0 then do {
       (frame, s) \<leftarrow> program_sys_test frame s;
       Some (heartbeat, frame, s) }
     else Some (heartbeat, frame, s) })"

primrec rounds :: "nat \<Rightarrow> ('s \<Rightarrow> 's option) \<Rightarrow> 's \<Rightarrow> 's option" where
  "rounds 0 body s = Some s"
| "rounds (Suc n) body s = Option.bind (rounds n body s) body"

text \<open>\<open>main\<close> from the return of \<open>fork\<close>, where parent and child both continue, for \<open>n\<close> rounds; and all of it.\<close>

definition program_after_fork :: "nat \<Rightarrow> syscall_frame \<Rightarrow> 'a modules_scheme \<Rightarrow> 'a program_state option" where
  "program_after_fork n frame s =
     (if c_eax frame <s 0 then rounds n program_error_round (0, frame, s)
      else if c_eax frame = 0 then rounds n program_child_round (0, frame, s)
      else rounds n program_parent_round (0, frame, s))"

definition program_main :: "nat \<Rightarrow> syscall_frame \<Rightarrow> 'a modules_scheme \<Rightarrow> 'a program_state option" where
  "program_main n frame s = do { (frame, s) \<leftarrow> program_sys_fork frame s; program_after_fork n frame s }"

subsection \<open>The work of the tasks\<close>

lemma do_cpu_work_loop_sum:
  assumes "i \<le> n"
  shows "do_cpu_work_loop m n i acc = acc + (\<Sum>j \<in> {unat i..<unat n}. of_nat j AND m)"
  using assms
proof (induction m n i acc rule: do_cpu_work_loop.induct)
  case (1 m n i acc)
  show ?case
  proof (cases "i < n")
    case True
    then have u: "unat (i + 1) = Suc (unat i)" "unat i < unat n" by (simp_all add: unat_Suc_less word_less_nat_alt)
    then have "i + 1 \<le> n" by (simp add: word_le_nat_alt)
    then show ?thesis
      using 1(1) [OF True] True u by (subst do_cpu_work_loop.simps) (simp add: sum.atLeast_Suc_lessThan add.assoc)
  next
    case False
    then show ?thesis using 1(2) by (subst do_cpu_work_loop.simps) simp
  qed
qed

lemma of_nat_and_mask: "(of_nat j :: u32) AND mask k = of_nat (j mod 2 ^ k)"
proof -
  have "(of_nat j :: u32) AND mask k = of_nat (take_bit k j)" by (simp only: take_bit_eq_mask [symmetric] take_bit_of_nat)
  then show ?thesis by (simp only: take_bit_eq_mod)
qed

text \<open>The sum of the remainders below \<open>n\<close>, by whole periods and a rest.\<close>

lemma sum_mod:
  assumes "0 < (p :: nat)"
  shows "(\<Sum>j<n. j mod p) = n div p * (p * (p - 1) div 2) + (n mod p) * (n mod p - 1) div 2"
proof (induction n)
  case 0
  then show ?case by simp
next
  case (Suc n)
  have tri: "r * (r - 1) div 2 + r = Suc r * (Suc r - 1) div 2" for r :: nat
    by (cases r) (simp_all add: algebra_simps)
  show ?case
  proof (cases "Suc (n mod p) = p")
    case True
    then have s: "Suc n div p = Suc (n div p)" "Suc n mod p = 0" by (simp_all add: div_Suc mod_Suc)
    have "(n mod p) * (n mod p - 1) div 2 + n mod p = p * (p - 1) div 2" using tri [of "n mod p"] True by simp
    then show ?thesis using Suc.IH s by simp
  next
    case False
    then have s: "Suc n div p = n div p" "Suc n mod p = Suc (n mod p)" by (simp_all add: div_Suc mod_Suc)
    then show ?thesis using Suc.IH tri [of "n mod p"] by simp
  qed
qed

lemma do_cpu_work_closed:
  "do_cpu_work_loop (mask k) n 0 0 = of_nat (unat n div 2 ^ k * (2 ^ k * (2 ^ k - 1) div 2) +
     (unat n mod 2 ^ k) * (unat n mod 2 ^ k - 1) div 2)"
proof -
  have "do_cpu_work_loop (mask k) n 0 0 = (\<Sum>j<unat n. of_nat (j mod 2 ^ k))"
    by (simp add: do_cpu_work_loop_sum of_nat_and_mask atLeast0LessThan)
  also have "\<dots> = of_nat (\<Sum>j<unat n. j mod 2 ^ k)" by simp
  finally show ?thesis by (simp only: sum_mod [of "2 ^ k" "unat n"] zero_less_power zero_less_numeral)
qed

lemma task_work:
  "do_cpu_work_short 1000000 = 3500000" "do_cpu_work_medium 10000000 = 75000000" "do_cpu_work_long 50000000 = 775000000"
proof -
  have m: "(0x7 :: u32) = mask 3" "(0xF :: u32) = mask 4" "(0x1F :: u32) = mask 5" by (simp_all add: mask_numeral)
  show "do_cpu_work_short 1000000 = 3500000" "do_cpu_work_medium 10000000 = 75000000" "do_cpu_work_long 50000000 = 775000000"
    unfolding do_cpu_work_short_def do_cpu_work_medium_def do_cpu_work_long_def m do_cpu_work_closed by simp_all
qed

text \<open>
  C29.  The loops of the tasks end, and compute the sum of the low bits of the loop counter by its closed
  form: whole periods of the mask and a rest, modulo \<open>2 ^ 32\<close>.  With the counts the tasks use nothing
  wraps around: the accumulators end at 3500000, 75000000 and 775000000.
\<close>

theorem do_cpu_work_closed_form:
  "do_cpu_work_loop (mask k) n 0 0 = of_nat (unat n div 2 ^ k * (2 ^ k * (2 ^ k - 1) div 2) +
     (unat n mod 2 ^ k) * (unat n mod 2 ^ k - 1) div 2) \<and>
   do_cpu_work_short 1000000 = 3500000 \<and> do_cpu_work_medium 10000000 = 75000000 \<and> do_cpu_work_long 50000000 = 775000000"
  using do_cpu_work_closed task_work by blast

subsection \<open>The heartbeat of the program\<close>

lemma busy_work_loop_end: "i \<le> n \<Longrightarrow> busy_work_loop n i = n"
proof (induction n i rule: busy_work_loop.induct)
  case (1 n i)
  show ?case
  proof (cases "i < n")
    case True
    then have "i + 1 \<le> n" by (simp add: word_le_nat_alt word_less_nat_alt unat_Suc_less)
    with 1(1) [OF True] True show ?thesis by (subst busy_work_loop.simps) simp
  next
    case False
    with 1(2) show ?thesis by (subst busy_work_loop.simps) simp
  qed
qed

definition call_lines :: "u32 \<Rightarrow> string \<Rightarrow> string list" where
  "call_lines k msg = [''[SYSCALL] syscall recebida: '', hex_buffer k, msg]"

abbreviation (input) test_lines :: "string list" where "test_lines \<equiv> call_lines 0 ''[SYSCALL] syscall_test chamada!''"
abbreviation (input) write_lines :: "string list" where "write_lines \<equiv> call_lines 1 ''[SYSCALL] syscall_write chamada!''"

lemma program_calls:
  "program_sys_test frame s = Some (frame\<lparr>c_eax := 0\<rparr>, s\<lparr>serial_log := serial_log s @ test_lines\<rparr>)"
  "program_sys_write frame s = Some (frame\<lparr>c_eax := 0\<rparr>, s\<lparr>serial_log := serial_log s @ write_lines\<rparr>)"
  by (simp_all add: program_sys_test_def program_sys_write_def call_defs serial_line_def call_lines_def)

lemma heartbeat_multiple: "(1 + of_nat n :: u32) AND mask k = 0 \<longleftrightarrow> Suc n mod 2 ^ k = 0" if "k \<le> 32"
proof -
  have "Suc n mod 2 ^ k < 2 ^ k" by simp
  also have "(2 :: nat) ^ k \<le> 2 ^ 32" using that by (intro power_increasing) simp_all
  finally have "unat (of_nat (Suc n mod 2 ^ k) :: u32) = Suc n mod 2 ^ k" by (simp add: unat_of_nat)
  then show ?thesis using of_nat_and_mask [of "Suc n" k] by (simp add: word_unat_eq_iff)
qed

lemma concat_replicate_Suc: "concat (replicate (Suc n) xs) = concat (replicate n xs) @ xs"
  by (simp add: replicate_append_same [symmetric])

text \<open>
  A loop that makes its calls when the counter is a multiple of \<open>p\<close>: after \<open>n\<close> rounds the log has grown by
  \<open>n div p\<close> times their lines.
\<close>

lemma rounds_log:
  fixes body :: "'a program_state \<Rightarrow> 'a program_state option"
  assumes "0 < p" and step: "\<And>n f u. body (of_nat n, f, u) =
      Some (of_nat (Suc n), if Suc n mod p = 0 then f\<lparr>c_eax := 0\<rparr> else f,
        if Suc n mod p = 0 then u\<lparr>serial_log := serial_log u @ ls\<rparr> else u)"
  shows "rounds n body (0, frame, s) = Some (of_nat n, if n div p = 0 then frame else frame\<lparr>c_eax := 0\<rparr>,
     s\<lparr>serial_log := serial_log s @ concat (replicate (n div p) ls)\<rparr>)"
proof (induction n)
  case 0
  then show ?case by simp
next
  case (Suc n)
  show ?case
  proof (cases "Suc (n mod p) = p")
    case True
    have "Suc n mod p = 0" unfolding mod_Suc using True by simp
    moreover from this have d: "Suc n div p = Suc (n div p)" by (simp add: div_Suc)
    ultimately show ?thesis using Suc unfolding d by (simp add: step concat_replicate_Suc del: replicate_Suc of_nat_Suc)
  next
    case False
    have "Suc n mod p \<noteq> 0" unfolding mod_Suc using False by simp
    moreover from this have d: "Suc n div p = n div p" by (simp add: div_Suc)
    ultimately show ?thesis using Suc unfolding d by (simp add: step del: of_nat_Suc)
  qed
qed

lemma child_round:
  "program_child_round (of_nat n, f, u) = Some (of_nat (Suc n), if Suc n mod 32 = 0 then f\<lparr>c_eax := 0\<rparr> else f,
     if Suc n mod 32 = 0 then u\<lparr>serial_log := serial_log u @ test_lines @ write_lines\<rparr> else u)"
proof -
  have m: "(0x1F :: u32) = mask 5" by (simp add: mask_numeral)
  show ?thesis unfolding program_child_round_def m
    using heartbeat_multiple [of 5 n] by (simp add: program_calls add.commute)
qed

lemma parent_round:
  "program_parent_round (of_nat n, f, u) = Some (of_nat (Suc n), if Suc n mod 64 = 0 then f\<lparr>c_eax := 0\<rparr> else f,
     if Suc n mod 64 = 0 then u\<lparr>serial_log := serial_log u @ test_lines\<rparr> else u)"
proof -
  have m: "(0x3F :: u32) = mask 6" by (simp add: mask_numeral)
  show ?thesis unfolding program_parent_round_def m
    using heartbeat_multiple [of 6 n] by (simp add: program_calls add.commute)
qed

lemma error_rounds:
  "rounds n program_error_round (0, frame, s) = Some (0, if n = 0 then frame else frame\<lparr>c_eax := 0\<rparr>,
     s\<lparr>serial_log := serial_log s @ concat (replicate n test_lines)\<rparr>)"
proof (induction n)
  case (Suc n)
  then show ?case unfolding rounds.simps concat_replicate_Suc by (simp add: program_error_round_def program_calls)
qed simp

text \<open>
  C40.  The three endless loops of \<open>program_module.c\<close>, after any number \<open>n\<close> of rounds, the counter having
  wrapped around or not: the child has made its pair of calls exactly \<open>n div 32\<close> times, the parent its
  call \<open>n div 64\<close> times, and a process whose \<open>fork\<close> failed its call \<open>n\<close> times.  The calls leave lines in the
  log; no other part of the kernel and no register but \<open>eax\<close> changes.
\<close>

theorem program_heartbeat:
  "\<exists>hb eax. program_after_fork n frame s = Some (hb, frame\<lparr>c_eax := eax\<rparr>, s\<lparr>serial_log := serial_log s @
     (if c_eax frame <s 0 then concat (replicate n test_lines)
      else if c_eax frame = 0 then concat (replicate (n div 32) (test_lines @ write_lines))
      else concat (replicate (n div 64) test_lines))\<rparr>)"
proof -
  note c = rounds_log [of 32 program_child_round "test_lines @ write_lines" n frame s, OF _ child_round]
    and p = rounds_log [of 64 program_parent_round test_lines n frame s, OF _ parent_round]
  have fin: "\<exists>hb eax. Some (h, if b then frame else frame\<lparr>c_eax := 0\<rparr>, u) = Some (hb, frame\<lparr>c_eax := eax\<rparr>, u)"
    for h :: u32 and b and u :: "'a modules_scheme"
    by (cases b) (auto intro: exI [of _ "c_eax frame"])
  consider "c_eax frame <s 0" | "\<not> c_eax frame <s 0" "c_eax frame = 0" | "\<not> c_eax frame <s 0" "c_eax frame \<noteq> 0" by blast
  then show ?thesis
  proof cases
    case 1
    show ?thesis unfolding program_after_fork_def if_P [OF 1] error_rounds by (rule fin)
  next
    case 2
    show ?thesis unfolding program_after_fork_def if_not_P [OF 2(1)] if_P [OF 2(2)] c [OF zero_less_numeral] by (rule fin)
  next
    case 3
    show ?thesis unfolding program_after_fork_def if_not_P [OF 3(1)] if_not_P [OF 3(2)] p [OF zero_less_numeral] by (rule fin)
  qed
qed

subsection \<open>A task from its start to the next process\<close>




end
