(* ===== verification/Spec2Isabelle.thy ===== *)
theory Spec2Isabelle
  imports Boot_Sound User_Programs
begin

text \<open>
  Verification of a teaching kernel for the PC (\<open>src/\<close>): a 32-bit kernel that GRUB loads together with a
  few modules, that maps itself at \<open>0xC0000000\<close>, runs the modules as processes in user mode with paging
  and a timer-driven scheduler, and offers them the calls \<open>exec\<close>, \<open>fork\<close>, \<open>yield\<close> and \<open>exit\<close>.

  \<^bold>\<open>The program and its state.\<close>  Every component of the C code keeps its state in static variables.  The
  state of the model is one chain of records in which each component extends the one it calls:
  \<open>machine\<close>, \<open>pfa\<close>, \<open>paging\<close>, \<open>kheap\<close>, \<open>segments\<close>, \<open>sched\<close>, \<open>pit\<close>, \<open>console\<close>, \<open>modules\<close>.  An operation
  is a function on the record scheme of its component, so that it runs unchanged on the state of the
  whole kernel and leaves the fields of every other component alone by construction.  A result
  \<open>None\<close> stands for undefined behaviour of the C code (an access outside an array, through a dangling
  pointer or through an unmapped or outdated page) or, for the few unbounded loops, for not
  returning; every theorem that an operation works says that the result is \<open>Some\<close>.  Machine integers
  are words of their width and wrap around.

  \<^bold>\<open>The theories\<close>, with the files of \<open>src/\<close> they model:
  \<^item> \<open>Kernel_Prelude\<close>: C integers, arrays, the counted loop with its total-correctness rule, page masks.
  \<^item> \<open>Machine\<close>: ports, serial lines, \<open>cr3\<close> and the translation cache (\<open>io/outb.s\<close>, \<open>invlpg\<close>).
  \<^item> \<open>Pfa\<close>: the page frame allocator (\<open>memory/pfa.c\<close>), refined to a set of free frames; the locale
    \<open>frame_allocator\<close> is what its clients rely on, interpreted as \<open>frames\<close>.
  \<^item> \<open>Paging\<close>: the kernel's page table, the boot directory and the window at \<open>0xC03FF000\<close>
    (\<open>memory/paging.c\<close>), related to the x86 page walk \<open>translate\<close>.
  \<^item> \<open>Kheap\<close>, \<open>Heap_Blocks\<close>, \<open>Heap_Inv\<close>, \<open>Heap_Contract\<close>: the kernel heap (\<open>memory/kheap.c\<close>).  The free
    list is a circular chain of headers in the order of their addresses; free and allocated blocks tile
    the heap; no two free blocks touch.  \<open>kmalloc\<close> and \<open>kfree\<close> always return, keep this invariant and
    implement an abstract heap of disjoint ranges.  The locale \<open>heap_interface\<close> is interpreted as \<open>kheap\<close>.
  \<^item> \<open>Segments\<close>: descriptor tables, task state and interrupt controller (\<open>segment/*.c\<close>,
    \<open>interrupts/idt.c\<close>, \<open>interrupts/pic.c\<close>).
  \<^item> \<open>Queue_Interface\<close>, \<open>Scheduler\<close>, \<open>Sched_Switch\<close>: the scheduler (\<open>scheduler/scheduler.c\<close>).  The ready
    queue is a FIFO queue and, under SJF, a choice of the least prediction (locales \<open>picker\<close> and
    \<open>bounded_fifo\<close>); a context switch refines an abstract scheduler over a list of processes, and
    loses, duplicates or changes no process.
  \<^item> \<open>Pit\<close>: the timer and preemption (\<open>interrupts/pit.c\<close>); fairness of round robin over sequences of ticks.
  \<^item> \<open>Serial\<close>, \<open>Console\<close>: COM1, the screen, the keyboard and the common handler (\<open>io/*.c\<close>,
    \<open>interrupts/keyboard.c\<close>, \<open>interrupts/interrupt_handler.c\<close>).
  \<^item> \<open>Module_Loader\<close>: the table of boot modules (\<open>kernel/module_loader.c\<close>).
  \<^item> \<open>User_Space\<close>, \<open>Address_Space\<close>, \<open>Space_Clone\<close>, \<open>Space_Image\<close>: the user address spaces of
    \<open>syscall/syscall.c\<close>: two-level page tables in physical memory, reached through the window; what
    cloning, building and destroying a space does to the memory user code sees and to the free frames.
  \<^item> \<open>Process\<close>, \<open>Syscall\<close>: process creation (\<open>process/process.c\<close>) and the system calls
    (\<open>syscall/syscall.c\<close>, \<open>interrupts/syscall_handler.s\<close>).
  \<^item> \<open>Kernel_State\<close>, \<open>Fork\<close>: the invariant of memory, heap and control blocks together, how an operation
    that allocates and gives back moves between states of it, and what \<open>fork\<close> does on the whole kernel.
  \<^item> \<open>Space_Build\<close>, \<open>Process_Create\<close>: what process creation does on the whole kernel, frame by frame.
  \<^item> \<open>Kernel_Inv\<close>, \<open>Kernel_Run\<close>: the invariant of all components together (every process has an address
    space of its own, apart from the others, from the free frames and from the boot modules, and with the
    kernel's entry in its directory), and the
    running kernel as a step relation: system calls, timer ticks, interrupts and the stores of the
    running program.  Every step succeeds and keeps the invariant, and a waiting process is isolated.
  \<^item> \<open>Boot\<close>: \<open>boot/loader.s\<close> and \<open>kernel/kmain.c\<close>; \<open>Boot_Sound\<close>: \<open>kmain\<close> establishes the invariant of the
    running kernel, with a process for every module.  The theorem at the end of this theory composes boot
    and run.
  \<^item> \<open>User_Programs\<close>: the programs of \<open>modules_pre_compiled\<close> on top of the kernel.

  \<^bold>\<open>Loops, bounds and fuel.\<close>  Counted loops use \<open>for_range\<close> or a \<open>function\<close> with a termination proof.  The
  searches of \<open>kmalloc\<close> and \<open>kfree\<close> and the loop of \<open>ksbrk\<close> may run forever on a broken heap and are
  partial functions into \<open>option\<close>; on a heap that satisfies its invariant they are proved to return.
  Waiting for the serial port takes the line status as an argument.  There is no other fuel.  Requests
  to the heap are bounded by \<open>0x3F000000\<close> bytes in the theorems, the range in which no size computation
  wraps; what happens beyond is a theorem of its own.

  \<^bold>\<open>The kernel half of the address space.\<close>  Accesses of the kernel to its heap (\<open>kmapped\<close>) and to the page
  window (\<open>window\<close>) are looked up in the kernel's page table directly.  The processor gets there through
  entry 768 of the directory in \<open>cr3\<close>.  That this entry is present and leads to the kernel's table is
  \<open>kernel_mapped\<close>: it follows from the invariant \<open>kernel_ok\<close>, which asks it of every process and which boot
  establishes and every step keeps, and the theorem on progress checks it at the entry to and at the
  return from each handler.  Between the two, \<open>cr3\<close> is written only by \<open>exec\<close> and by a switch of processes,
  with the directory of a process of the invariant.  \<open>user_walk\<close> checks the present bits but no user or
  writable bit, and gives no result for kernel addresses.  The frame buffer is a total function of the byte offset:
  a write past the screen does not fault, and what can be written there is part of the theorem on progress.

  \<^bold>\<open>Not modelled.\<close>  The instructions of user programs between system calls other than the stores they
  make (a system call sees their registers and their memory); interrupts that arrive inside the kernel, which runs with interrupts
  disabled; the byte layout of kernel structures on the kernel heap (headers and control blocks are
  typed views of it, bounce buffers and kernel stacks are only required to be mapped); the devices
  themselves, whose answers are arguments; \<open>multiboot.h\<close> beyond the list of modules.
\<close>

subsection \<open>The whole system\<close>

text \<open>
  C1.  From power on.  The kernel image as the boot loader and \<open>loader.s\<close> leave it, with one to 33
  page-aligned modules below 4 MB and room for their control blocks in the 4 MB of the kernel: \<open>kmain\<close>
  brings up every component without a fault, makes a process for each module, and enters the first one
  in user mode at address 0 with the user selectors and interrupts enabled.  The processes are those of
  the modules, in their order, the first one running and the others READY; each finds the first page of its
  module at address 0.  The invariant of the kernel holds then, and after every further sequence of
  system calls, timer ticks, interrupts and stores.
\<close>

theorem system_boots_and_stays_sound:
  assumes "image_loaded l s" and "boot_modules_ok mods" and "length mods = unat cnt" and "mods \<noteq> []" and "length mods \<le> 33"
    and "unat (kernel_physical_end l) + 12288 * length mods \<le> 0x3FE000"
  shows "\<exists>lo s'. kmain l mods cnt s = Some (Enters \<lparr>u_ss = 0x23, u_esp = 0xBFFFFFFB, u_eflags = 0x200, u_cs = 0x1B, u_eip = 0\<rparr>, s') \<and>
    sched_inv s' \<and> list_all2 (runs_module (pmem s) s') mods (current_pcb s' # ready_list s') \<and>
    (\<forall>u. kernel_step\<^sup>*\<^sup>* s' u \<longrightarrow> (\<exists>B. kernel_ok lo B u \<and> modules_kept s' u))"
proof -
  obtain lo A s' where k: "kmain l mods cnt s = Some (Enters \<lparr>u_ss = 0x23, u_esp = 0xBFFFFFFB, u_eflags = 0x200, u_cs = 0x1B, u_eip = 0\<rparr>, s')"
    "kernel_ok lo A s'" "sched_inv s'" "list_all2 (runs_module (pmem s) s') mods (current_pcb s' # ready_list s')"
    by (rule kmain_result [OF assms])
  have "\<exists>B. kernel_ok lo B u \<and> modules_kept s' u" if "kernel_step\<^sup>*\<^sup>* s' u" for u using steps_modules [OF that k(2)] by blast
  then show ?thesis using k(1,3,4) by (intro exI [of _ lo] exI [of _ s']) simp
qed

theorem system_boots_and_stays_sound_witness:
  "\<exists>lo B s' q c. kmain sample_layout sample_mods 2 sample_image =
       Some (Enters \<lparr>u_ss = 0x23, u_esp = 0xBFFFFFFB, u_eflags = 0x200, u_cs = 0x1B, u_eip = 0\<rparr>, s') \<and>
     ready_list s' = [q] \<and> pcbs s' (current_pcb s') = Some c \<and> user_read8 4 (s'\<lparr>cr3 := pdt c\<rparr>) = Some 0x42 \<and> kernel_ok lo B s'"
proof -
  have img: "image_loaded sample_layout sample_image"
    by (auto simp: image_loaded_def sample_layout_def sample_image_def sample_modules_def sample_state_def modules_ok_def)
  have ok: "boot_modules_ok sample_mods" by (simp add: boot_modules_ok_def mods_ok_def sample_mods_def)
  have n: "length sample_mods = unat (2 :: u32)" "sample_mods \<noteq> []" "length sample_mods \<le> 33"
    "unat (kernel_physical_end sample_layout) + 12288 * length sample_mods \<le> 0x3FE000" by (simp_all add: sample_mods_def sample_layout_def)
  from system_boots_and_stays_sound [OF img ok n] obtain lo s' where
    s': "kmain sample_layout sample_mods 2 sample_image =
       Some (Enters \<lparr>u_ss = 0x23, u_esp = 0xBFFFFFFB, u_eflags = 0x200, u_cs = 0x1B, u_eip = 0\<rparr>, s')"
      "list_all2 (runs_module (pmem sample_image) s') sample_mods (current_pcb s' # ready_list s')"
      "\<forall>u. kernel_step\<^sup>*\<^sup>* s' u \<longrightarrow> (\<exists>B. kernel_ok lo B u \<and> modules_kept s' u)" by (elim exE conjE)
  obtain B where B: "kernel_ok lo B s'" using s'(3) [rule_format, OF rtranclp.rtrancl_refl] by (elim exE conjE)
  obtain q where q: "ready_list s' = [q]" using s'(2) by (auto simp: sample_mods_def list_all2_Cons1)
  have "runs_module (pmem sample_image) s' (hd sample_mods) (current_pcb s')" using s'(2) by (simp add: sample_mods_def)
  then obtain c where c: "pcbs s' (current_pcb s') = Some c"
    "\<forall>v < loaded_size 0x120000 0x120005. user_read8 v (s'\<lparr>cr3 := pdt c\<rparr>) = Some (phys_byte (pmem sample_image) (0x120000 + v))"
    by (auto simp: runs_module_def sample_mods_def)
  have "user_read8 4 (s'\<lparr>cr3 := pdt c\<rparr>) = Some (phys_byte (pmem sample_image) 0x120004)" using c(2) by (simp add: loaded_size_def)
  also have "phys_byte (pmem sample_image) 0x120004 = 0x42" by (simp add: phys_byte_def sample_image_def)
  finally show ?thesis using s'(1) q c(1) B by (intro exI conjI)
qed

end
